(* ===== verification/Prelude.thy ===== *)
theory Prelude
  imports Main "HOL-Library.AList" "HOL-Library.Multiset"
begin

text \<open>
  Shared ground of the development: Go's outcomes as values, the sources of randomness the
  program reads, checked indexing, and the generic list and map lemmas the components use.

  A Go \<open>string\<close> and a \<open>[]byte\<close> are both a \<^typ>\<open>string\<close> here (a list of bytes), so the conversions
  between the two in the source are the identity. A Go \<open>int\<close> is an \<^typ>\<open>int\<close>; the places where its
  64 bits matter (\<open>strconv.Atoi\<close>) write the bounds out. A \<open>time.Time\<close> and a \<open>time.Duration\<close> are
  integers counting nanoseconds.
\<close>

type_synonym bytes = string
type_synonym addr = string
type_synonym time = int

abbreviation Second :: time where "Second \<equiv> 1000000000"

named_theorems go_simps \<open>equations that evaluate the models of the Go library\<close>
named_theorems wire_simps \<open>character-set facts about wire formats\<close>


section \<open>Outcomes\<close>

text \<open>
  A Go call returns a value, returns a non-nil \<open>error\<close>, panics (an index or slice out of range, a
  nil pointer; in a goroutine nobody recovers it and the process dies), or never returns because a
  channel operation blocks.
\<close>

datatype go_error =
    ErrRand            \<comment> \<open>the random source failed\<close>
  | ErrKeySize         \<comment> \<open>\<open>aes.NewCipher\<close> refused the key length\<close>
  | ErrOpen            \<comment> \<open>GCM authentication failed\<close>
  | ErrOAEP            \<comment> \<open>\<open>rsa.EncryptOAEP\<close> refused the message\<close>
  | ErrNoPublicKey     \<comment> \<open>``pas de cle publique''\<close>
  | ErrFormat          \<comment> \<open>``format invalide''\<close>
  | ErrBase64          \<comment> \<open>\<open>base64.CorruptInputError\<close>\<close>
  | ErrNoMatchingKey   \<comment> \<open>``aucune cle correspondante''\<close>
  | ErrSplit           \<comment> \<open>``OnionLayer StringToOnionLayer Error Split''\<close>
  | ErrNet             \<comment> \<open>dial, read or write failed\<close>
  | ErrServer string   \<comment> \<open>an \<open>ERROR:\<close> line of the directory\<close>
  | ErrResponse        \<comment> \<open>``invalid response''\<close>
  | ErrParseKey        \<comment> \<open>\<open>x509.ParsePKIXPublicKey\<close> failed\<close>
  | ErrNotRSA          \<comment> \<open>``key is not RSA''\<close>
  | ErrMarshal         \<comment> \<open>\<open>x509.MarshalPKIXPublicKey\<close> failed\<close>
  | ErrFetch addr      \<comment> \<open>``error fetching public key for ...''\<close>
  | ErrDb              \<comment> \<open>an error of the database driver\<close>

datatype 'a res = Ok 'a | Err go_error | Panic | Blocked

fun bind_res :: "'a res \<Rightarrow> ('a \<Rightarrow> 'b res) \<Rightarrow> 'b res" where
  "bind_res (Ok x) f = f x"
| "bind_res (Err e) f = Err e"
| "bind_res Panic f = Panic"
| "bind_res Blocked f = Blocked"

lemma bind_res_assoc: "bind_res (bind_res m f) g = bind_res m (\<lambda>x. bind_res (f x) g)"
  by (cases m) auto

lemma bind_res_eq_Ok: "bind_res m f = Ok y \<longleftrightarrow> (\<exists>x. m = Ok x \<and> f x = Ok y)"
  by (cases m) auto

lemma bind_res_eq_Panic: "bind_res m f = Panic \<longleftrightarrow> m = Panic \<or> (\<exists>x. m = Ok x \<and> f x = Panic)"
  by (cases m) auto

lemma bind_res_cong [fundef_cong]:
  "m = m' \<Longrightarrow> (\<And>x. m' = Ok x \<Longrightarrow> f x = f' x) \<Longrightarrow> bind_res m f = bind_res m' f'"
  by (cases m') auto

definition of_option :: "go_error \<Rightarrow> 'a option \<Rightarrow> 'a res" where
  "of_option e x = (case x of None \<Rightarrow> Err e | Some y \<Rightarrow> Ok y)"

lemma of_option_simps [simp]: "of_option e None = Err e" "of_option e (Some x) = Ok x"
  by (simp_all add: of_option_def)

lemma of_option_eq_Ok [simp]: "of_option e x = Ok y \<longleftrightarrow> x = Some y"
  by (cases x) auto

lemma of_option_not_Panic [simp]: "of_option e x \<noteq> Panic"
  by (cases x) auto

text \<open>Go indexing: an index outside the slice panics.\<close>

definition index :: "'a list \<Rightarrow> nat \<Rightarrow> 'a res" where
  "index xs i = (if i < length xs then Ok (xs ! i) else Panic)"

lemma index_in [simp]: "i < length xs \<Longrightarrow> index xs i = Ok (xs ! i)"
  by (simp add: index_def)

lemma index_eq_Ok [simp]: "index xs i = Ok x \<longleftrightarrow> i < length xs \<and> xs ! i = x"
  by (auto simp: index_def)

lemma index_eq_Panic [simp]: "index xs i = Panic \<longleftrightarrow> length xs \<le> i"
  by (auto simp: index_def)

lemma index_out [simp]: "length xs \<le> i \<Longrightarrow> index xs i = Panic"
  by (simp add: index_def)


section \<open>Randomness\<close>

text \<open>
  \<open>crypto/rand.Reader\<close> is the finite prefix of bytes it still delivers; reading past it is the
  read error the source checks for. \<open>io.ReadFull\<close> takes exactly \<open>n\<close> bytes.
\<close>

type_synonym rng = bytes

definition ReadFull :: "nat \<Rightarrow> rng \<Rightarrow> (bytes \<times> rng) res" where
  "ReadFull n r = (if n \<le> length r then Ok (take n r, drop n r) else Err ErrRand)"

lemma ReadFull_eq_Ok [simp]:
  "ReadFull n r = Ok (b, r') \<longleftrightarrow> n \<le> length r \<and> b = take n r \<and> r' = drop n r"
  by (auto simp: ReadFull_def)

lemma ReadFull_not_Panic [simp]: "ReadFull n r \<noteq> Panic"
  by (simp add: ReadFull_def)

text \<open>
  \<open>math/rand\<close> is a script of draws: \<open>Intn n\<close> reduces the next draw to \<open>{0..<n}\<close>. Every sequence of
  results is the outcome of some script, so a statement for all scripts covers every behaviour
  of the generator. (An exhausted script keeps answering 0.)
\<close>

type_synonym draws = "nat list"

fun Intn :: "nat \<Rightarrow> draws \<Rightarrow> nat \<times> draws" where
  "Intn n [] = (0, [])"
| "Intn n (d # ds) = (d mod n, ds)"

lemma Intn_less: "0 < n \<Longrightarrow> fst (Intn n ds) < n"
  by (cases ds) auto

definition swap :: "nat \<Rightarrow> nat \<Rightarrow> 'a list \<Rightarrow> 'a list" where
  "swap i j xs = xs[i := xs ! j, j := xs ! i]"

lemma length_swap [simp]: "length (swap i j xs) = length xs"
  by (simp add: swap_def)

lemma mset_swap_in: "i < length xs \<Longrightarrow> j < length xs \<Longrightarrow> mset (swap i j xs) = mset xs"
  by (simp add: swap_def mset_swap)

lemma map_swap: "i < length xs \<Longrightarrow> j < length xs \<Longrightarrow> map f (swap i j xs) = swap i j (map f xs)"
  by (simp add: swap_def map_update)

text \<open>The loop of \<open>rand.Shuffle\<close>: \<open>for i := n-1; i > 0; i--\<close>, swapping \<open>i\<close> with a draw below \<open>i+1\<close>.\<close>

fun shuffle_loop :: "nat \<Rightarrow> draws \<Rightarrow> 'a list \<Rightarrow> 'a list \<times> draws" where
  "shuffle_loop 0 ds xs = (xs, ds)"
| "shuffle_loop (Suc i) ds xs =
     (let (j, ds') = Intn (Suc (Suc i)) ds in shuffle_loop i ds' (swap (Suc i) j xs))"

definition Shuffle :: "draws \<Rightarrow> 'a list \<Rightarrow> 'a list \<times> draws" where
  "Shuffle ds xs = shuffle_loop (length xs - 1) ds xs"

lemma mset_shuffle_loop: "i < length xs \<Longrightarrow> mset (fst (shuffle_loop i ds xs)) = mset xs"
proof (induction i arbitrary: ds xs)
  case (Suc i)
  obtain j ds' where j: "Intn (Suc (Suc i)) ds = (j, ds')" by (cases "Intn (Suc (Suc i)) ds")
  with Intn_less [of "Suc (Suc i)" ds] Suc.prems have "j < length xs" by simp
  with Suc j show ?case by (simp add: mset_swap_in)
qed simp

lemma mset_Shuffle: "mset (fst (Shuffle ds xs)) = mset xs"
  by (cases xs) (simp_all add: Shuffle_def mset_shuffle_loop)

lemma set_Shuffle [simp]: "set (fst (Shuffle ds xs)) = set xs"
  by (metis mset_Shuffle set_mset_mset)

lemma length_Shuffle [simp]: "length (fst (Shuffle ds xs)) = length xs"
  by (metis mset_Shuffle size_mset)

lemma distinct_Shuffle [simp]: "distinct (fst (Shuffle ds xs)) = distinct xs"
  by (metis mset_Shuffle mset_eq_imp_distinct_iff)

lemma Shuffle_single [simp]: "Shuffle ds [x] = ([x], ds)"
  by (simp add: Shuffle_def)

lemma Shuffle_Nil [simp]: "Shuffle ds [] = ([], ds)"
  by (simp add: Shuffle_def)

lemma map_shuffle_loop:
  "i < length xs \<Longrightarrow>
   shuffle_loop i ds (map f xs) = (map f (fst (shuffle_loop i ds xs)), snd (shuffle_loop i ds xs))"
proof (induction i arbitrary: ds xs)
  case (Suc i)
  obtain j ds' where j: "Intn (Suc (Suc i)) ds = (j, ds')" by (cases "Intn (Suc (Suc i)) ds")
  with Intn_less [of "Suc (Suc i)" ds] Suc.prems have "j < length xs" by simp
  with Suc j show ?case by (simp flip: map_swap)
qed simp

lemma Shuffle_map: "Shuffle ds (map f xs) = (map f (fst (Shuffle ds xs)), snd (Shuffle ds xs))"
  by (cases xs) (simp_all add: Shuffle_def map_shuffle_loop [of _ "_ # _", simplified])


section \<open>Go maps whose size the code reads\<close>

text \<open>
  A Go map of which the code takes \<open>len\<close> is an association list with distinct keys; the library's
  \<open>AList.update\<close> keeps the keys distinct, so \<open>len\<close> is the length.
\<close>

lemma map_of_update [simp]: "map_of (AList.update k v al) = (map_of al)(k \<mapsto> v)"
  by (simp add: AList.update_conv')

lemma distinct_alist_update [simp]: "distinct (map fst al) \<Longrightarrow> distinct (map fst (AList.update k v al))"
  by (rule AList.distinct_update)

lemma length_distinct_keys: "distinct (map fst al) \<Longrightarrow> length al = card (dom (map_of al))"
  by (metis distinct_card dom_map_of_conv_image_fst length_map list.set_map)

end
