(* ===== verification/GoStrings.thy ===== *)
theory GoStrings
  imports Prelude
begin

text \<open>
  The parts of Go's \<open>strings\<close> and \<open>strconv\<close> packages the program calls, on byte strings, and the
  facts about separators, joining and decimal numbers that the wire formats rest on.
\<close>

section \<open>Splitting and joining\<close>

text \<open>The separators of the wire formats.\<close>

abbreviation pipe :: char where "pipe \<equiv> CHR ''|''"
abbreviation comma :: char where "comma \<equiv> CHR '',''"
abbreviation colon :: char where "colon \<equiv> CHR '':''"
abbreviation semi :: char where "semi \<equiv> CHR '';''"
abbreviation slash :: char where "slash \<equiv> CHR ''/''"

text \<open>\<open>strings.Split\<close> on a one-byte separator: never empty, \<open>Split c [] = [[]]\<close>.\<close>

fun Split :: "char \<Rightarrow> string \<Rightarrow> string list" where
  "Split c [] = [[]]"
| "Split c (x # xs) =
     (if x = c then [] # Split c xs
      else case Split c xs of [] \<Rightarrow> [[x]] | y # ys \<Rightarrow> (x # y) # ys)"

text \<open>\<open>strings.SplitN\<close> with a positive bound: at most \<open>n\<close> pieces, the last one unsplit.\<close>

fun SplitN :: "char \<Rightarrow> nat \<Rightarrow> string \<Rightarrow> string list" where
  "SplitN c 0 s = []"
| "SplitN c (Suc 0) s = [s]"
| "SplitN c (Suc (Suc n)) s =
     (if c \<in> set s
      then takeWhile (\<lambda>x. x \<noteq> c) s # SplitN c (Suc n) (tl (dropWhile (\<lambda>x. x \<noteq> c) s))
      else [s])"

fun Join :: "string list \<Rightarrow> string \<Rightarrow> string" where
  "Join [] sep = []"
| "Join [x] sep = x"
| "Join (x # y # ys) sep = x @ sep @ Join (y # ys) sep"

definition HasPrefix :: "string \<Rightarrow> string \<Rightarrow> bool" where
  "HasPrefix s p \<longleftrightarrow> take (length p) s = p"

definition TrimPrefix :: "string \<Rightarrow> string \<Rightarrow> string" where
  "TrimPrefix s p = (if HasPrefix s p then drop (length p) s else s)"

lemma Split_neq_Nil [simp]: "Split c s \<noteq> []"
  by (induction s) (auto split: list.splits)

lemma Split_no_sep: "c \<notin> set s \<Longrightarrow> Split c s = [s]"
  by (induction s) auto

lemma Split_append: "c \<notin> set s \<Longrightarrow> Split c (s @ c # t) = s # Split c t"
  by (induction s) auto

lemma Split_piece_no_sep: "p \<in> set (Split c s) \<Longrightarrow> c \<notin> set p"
proof (induction s arbitrary: p)
  case (Cons x xs)
  then show ?case by (cases "Split c xs") (auto split: if_splits)
qed simp

lemma Split_piece_subset: "p \<in> set (Split c s) \<Longrightarrow> set p \<subseteq> set s"
proof (induction s arbitrary: p)
  case (Cons x xs)
  then show ?case by (cases "Split c xs") (fastforce split: if_splits)+
qed simp

lemma Split_Join: "xs \<noteq> [] \<Longrightarrow> \<forall>x \<in> set xs. c \<notin> set x \<Longrightarrow> Split c (Join xs [c]) = xs"
  by (induction xs "[c]" rule: Join.induct) (auto simp: Split_no_sep Split_append)

lemma Join_Split: "Join (Split c s) [c] = s"
proof (induction s)
  case (Cons x xs)
  then show ?case
    by (cases "Split c xs" rule: list.exhaust; cases "tl (Split c xs)") auto
qed simp

lemma set_Join: "set (Join xs sep) \<subseteq> (\<Union>x \<in> set xs. set x) \<union> set sep"
  by (induction xs sep rule: Join.induct) auto

lemma Join_no_char: "\<forall>x \<in> set xs. c \<notin> set x \<Longrightarrow> c \<notin> set sep \<Longrightarrow> c \<notin> set (Join xs sep)"
  using set_Join [of xs sep] by blast

lemma takeWhile_sep [simp]: "c \<notin> set s \<Longrightarrow> takeWhile (\<lambda>x. x \<noteq> c) (s @ c # t) = s"
  by (induction s) auto

lemma dropWhile_sep [simp]: "c \<notin> set s \<Longrightarrow> dropWhile (\<lambda>x. x \<noteq> c) (s @ c # t) = c # t"
  by (induction s) auto

lemma SplitN_append [simp]:
  "c \<notin> set s \<Longrightarrow> SplitN c (Suc (Suc n)) (s @ c # t) = s # SplitN c (Suc n) t"
  by simp

lemma SplitN_no_sep [simp]: "c \<notin> set s \<Longrightarrow> SplitN c (Suc n) s = [s]"
  by (cases n) simp_all

declare SplitN.simps(3) [simp del]

lemma length_SplitN: "length (SplitN c n s) \<le> n"
  by (induction c n s rule: SplitN.induct) (auto simp: SplitN.simps(3))

lemma split_at_sep:
  "c \<in> set s \<Longrightarrow> s = takeWhile (\<lambda>x. x \<noteq> c) s @ c # tl (dropWhile (\<lambda>x. x \<noteq> c) s)"
  by (induction s) auto

lemma Join_SplitN: "0 < n \<Longrightarrow> Join (SplitN c n s) [c] = s"
proof (induction c n s rule: SplitN.induct)
  case (3 c n s)
  show ?case
  proof (cases "c \<in> set s")
    case True
    obtain y ys where y: "SplitN c (Suc n) (tl (dropWhile (\<lambda>x. x \<noteq> c) s)) = y # ys"
      by (cases n; cases "c \<in> set (tl (dropWhile (\<lambda>x. x \<noteq> c) s))") (auto simp: SplitN.simps(3))
    with 3 True have "Join (y # ys) [c] = tl (dropWhile (\<lambda>x. x \<noteq> c) s)" by simp
    with True y split_at_sep [OF True] show ?thesis by (simp add: SplitN.simps(3))
  next
    case False
    then show ?thesis by (simp add: SplitN.simps(3))
  qed
qed simp_all

text \<open>Only the last piece of a bounded split can hold the separator.\<close>

lemma SplitN_piece_no_sep: "Suc i < length (SplitN c n s) \<Longrightarrow> c \<notin> set (SplitN c n s ! i)"
proof (induction c n s arbitrary: i rule: SplitN.induct)
  case (3 c n s)
  show ?case
  proof (cases "c \<in> set s")
    case True
    with 3 show ?thesis
      by (cases i) (auto simp: SplitN.simps(3) dest: set_takeWhileD)
  next
    case False
    with 3 show ?thesis by (simp add: SplitN.simps(3))
  qed
qed simp_all

lemma HasPrefix_append [simp]: "HasPrefix (p @ s) p"
  by (simp add: HasPrefix_def)

lemma HasPrefix_iff: "HasPrefix s p \<longleftrightarrow> (\<exists>t. s = p @ t)"
  by (metis HasPrefix_append HasPrefix_def append_take_drop_id)

lemma TrimPrefix_append [simp]: "TrimPrefix (p @ s) p = s"
  by (simp add: TrimPrefix_def)


section \<open>Lines and white space\<close>

abbreviation nl :: char where "nl \<equiv> CHR 0x0A"

text \<open>
  \<open>bufio.Reader.ReadString('\n')\<close> on the bytes a peer wrote before closing the connection: the line
  with its newline, or an error when the peer closed before sending one.
\<close>

definition ReadString :: "bytes \<Rightarrow> string res" where
  "ReadString b = (if nl \<in> set b then Ok (takeWhile (\<lambda>c. c \<noteq> nl) b @ [nl]) else Err ErrNet)"

lemma ReadString_line [simp]: "nl \<notin> set s \<Longrightarrow> ReadString (s @ nl # t) = Ok (s @ [nl])"
  by (simp add: ReadString_def)

text \<open>
  The UTF-8 encodings of the code points \<open>unicode.IsSpace\<close> accepts. \<open>strings.TrimSpace\<close> removes them
  from both ends; a byte that is part of no such encoding stops it.
\<close>

definition white_space :: "string list" where
  "white_space =
     [[CHR 0x09], [CHR 0x0A], [CHR 0x0B], [CHR 0x0C], [CHR 0x0D], [CHR 0x20],
      [CHR 0xC2, CHR 0x85], [CHR 0xC2, CHR 0xA0], [CHR 0xE1, CHR 0x9A, CHR 0x80],
      [CHR 0xE2, CHR 0x80, CHR 0x80], [CHR 0xE2, CHR 0x80, CHR 0x81],
      [CHR 0xE2, CHR 0x80, CHR 0x82], [CHR 0xE2, CHR 0x80, CHR 0x83],
      [CHR 0xE2, CHR 0x80, CHR 0x84], [CHR 0xE2, CHR 0x80, CHR 0x85],
      [CHR 0xE2, CHR 0x80, CHR 0x86], [CHR 0xE2, CHR 0x80, CHR 0x87],
      [CHR 0xE2, CHR 0x80, CHR 0x88], [CHR 0xE2, CHR 0x80, CHR 0x89],
      [CHR 0xE2, CHR 0x80, CHR 0x8A], [CHR 0xE2, CHR 0x80, CHR 0xA8],
      [CHR 0xE2, CHR 0x80, CHR 0xA9], [CHR 0xE2, CHR 0x80, CHR 0xAF],
      [CHR 0xE2, CHR 0x81, CHR 0x9F], [CHR 0xE3, CHR 0x80, CHR 0x80]]"

function trim_left :: "string list \<Rightarrow> string \<Rightarrow> string" where
  "trim_left ws s =
     (case find (\<lambda>w. w \<noteq> [] \<and> HasPrefix s w) ws of
        None \<Rightarrow> s
      | Some w \<Rightarrow> trim_left ws (drop (length w) s))"
  by pat_completeness auto
termination
  by (relation "measure (\<lambda>(ws, s). length s)")
    (auto simp: find_Some_iff HasPrefix_iff)

declare trim_left.simps [simp del]

definition TrimSpace :: "string \<Rightarrow> string" where
  "TrimSpace s = rev (trim_left (map rev white_space) (rev (trim_left white_space s)))"

definition printable :: "char \<Rightarrow> bool" where
  "printable c \<longleftrightarrow> 33 \<le> (of_char c :: nat) \<and> (of_char c :: nat) \<le> 126"

lemma trim_left_stop: "\<forall>w \<in> set ws. hd w \<noteq> c \<Longrightarrow> trim_left ws (c # s) = c # s"
proof -
  assume h: "\<forall>w \<in> set ws. hd w \<noteq> c"
  then have "find (\<lambda>w. w \<noteq> [] \<and> HasPrefix (c # s) w) ws = None"
    by (auto simp: find_None_iff HasPrefix_iff Cons_eq_append_conv)
  then show ?thesis by (subst trim_left.simps) simp
qed

lemma printable_heads:
  assumes "printable c"
  shows "\<forall>w \<in> set white_space. hd w \<noteq> c" and "\<forall>w \<in> set (map rev white_space). hd w \<noteq> c"
  using assms by (auto simp: white_space_def printable_def)

lemma trim_left_printable:
  "s \<noteq> [] \<Longrightarrow> printable (hd s) \<Longrightarrow> trim_left white_space s = s"
  "s \<noteq> [] \<Longrightarrow> printable (hd s) \<Longrightarrow> trim_left (map rev white_space) s = s"
  by (cases s; simp add: trim_left_stop printable_heads)+

lemma TrimSpace_id:
  "s \<noteq> [] \<Longrightarrow> printable (hd s) \<Longrightarrow> printable (last s) \<Longrightarrow> TrimSpace s = s"
  by (simp add: TrimSpace_def trim_left_printable hd_rev)

lemma TrimSpace_line:
  assumes "s \<noteq> []" and "printable (hd s)" and "printable (last s)"
  shows "TrimSpace (s @ [nl]) = s"
proof -
  have "trim_left (map rev white_space) (nl # rev s) = trim_left (map rev white_space) (rev s)"
    by (subst trim_left.simps) (simp add: white_space_def HasPrefix_def)
  with assms show ?thesis
    by (simp add: TrimSpace_def trim_left_printable hd_rev)
qed

lemma TrimSpace_newline [simp]: "TrimSpace [nl] = []"
  by code_simp

end
