(* ===== verification/Base64.thy ===== *)
theory Base64
  imports GoStrings
begin

text \<open>
  \<open>base64.StdEncoding\<close> of the Go library, the text form in which every ciphertext and public key of
  the program travels, and the interface the wire formats rely on: decoding inverts encoding, and
  encoded text holds none of the separators.
\<close>

section \<open>Encoding\<close>

definition b64_char :: "nat \<Rightarrow> char" where
  "b64_char n =
     (if n < 26 then char_of (65 + n) else if n < 52 then char_of (71 + n)
      else if n < 62 then char_of (n - 4) else if n = 62 then CHR ''+'' else CHR ''/'')"

definition b64_val :: "char \<Rightarrow> nat option" where
  "b64_val c =
     (let n = of_char c in
      if 65 \<le> n \<and> n \<le> 90 then Some (n - 65)
      else if 97 \<le> n \<and> n \<le> 122 then Some (n - 71)
      else if 48 \<le> n \<and> n \<le> 57 then Some (n + 4)
      else if n = 43 then Some 62
      else if n = 47 then Some 63
      else None)"

abbreviation pad :: char where "pad \<equiv> CHR ''=''"

definition quad :: "nat \<Rightarrow> string" where
  "quad v = [b64_char (v div 262144 mod 64), b64_char (v div 4096 mod 64),
             b64_char (v div 64 mod 64), b64_char (v mod 64)]"

fun EncodeToString :: "bytes \<Rightarrow> string" where
  "EncodeToString [] = []"
| "EncodeToString [a] = take 2 (quad (of_char a * 65536)) @ [pad, pad]"
| "EncodeToString [a, b] = take 3 (quad (of_char a * 65536 + of_char b * 256)) @ [pad]"
| "EncodeToString (a # b # c # rest) =
     quad (of_char a * 65536 + of_char b * 256 + of_char c) @ EncodeToString rest"


section \<open>Decoding\<close>

text \<open>
  The decoder skips carriage returns and newlines, wants whole groups of four, and takes padding
  only at the end (\<open>xx==\<close> or \<open>xxx=\<close>); unused low bits are not checked (the encoding is not
  \<open>Strict\<close>).
\<close>

definition triple :: "nat \<Rightarrow> bytes" where
  "triple v = [char_of (v div 65536 mod 256), char_of (v div 256 mod 256), char_of (v mod 256)]"

fun decode_quanta :: "string \<Rightarrow> bytes option" where
  "decode_quanta [] = Some []"
| "decode_quanta (a # b # c # d # rest) =
     (case (b64_val a, b64_val b) of
        (Some x, Some y) \<Rightarrow>
          (if c = pad
           then if d = pad \<and> rest = [] then Some (take 1 (triple (x * 262144 + y * 4096))) else None
           else case b64_val c of
               None \<Rightarrow> None
             | Some z \<Rightarrow>
                 (if d = pad
                  then if rest = [] then Some (take 2 (triple (x * 262144 + y * 4096 + z * 64)))
                       else None
                  else case b64_val d of
                      None \<Rightarrow> None
                    | Some w \<Rightarrow>
                        map_option ((@) (triple (x * 262144 + y * 4096 + z * 64 + w)))
                          (decode_quanta rest)))
      | _ \<Rightarrow> None)"
| "decode_quanta _ = None"

definition DecodeString :: "string \<Rightarrow> bytes option" where
  "DecodeString s = decode_quanta (filter (\<lambda>c. c \<noteq> CHR 0x0D \<and> c \<noteq> nl) s)"


section \<open>Alphabet\<close>

definition b64_text :: "string \<Rightarrow> bool" where
  "b64_text s \<longleftrightarrow> (\<forall>c \<in> set s. c = pad \<or> b64_val c \<noteq> None)"

lemma b64_val_char [simp]: "n < 64 \<Longrightarrow> b64_val (b64_char n) = Some n"
  by (auto simp: b64_val_def b64_char_def Let_def)

lemma b64_char_neq_pad [simp]: "n < 64 \<Longrightarrow> b64_char n \<noteq> pad"
proof
  assume "n < 64" and "b64_char n = pad"
  with b64_val_char [of n] have "b64_val pad = Some n" by simp
  then show False by (simp add: b64_val_def)
qed

lemma b64_text_quad: "b64_text (quad v)"
  by (simp add: b64_text_def quad_def)

lemma b64_text_Encode: "b64_text (EncodeToString bs)"
proof (induction bs rule: EncodeToString.induct)
  case (2 a)
  then show ?case by (simp add: b64_text_def quad_def)
next
  case (3 a b)
  then show ?case by (simp add: b64_text_def quad_def)
next
  case (4 a b c rest)
  with b64_text_quad show ?case by (fastforce simp: b64_text_def)
qed (simp add: b64_text_def)

lemma b64_text_not:
  assumes "b64_text s" and "b64_val c = None" and "c \<noteq> pad"
  shows "c \<notin> set s"
  using assms unfolding b64_text_def by blast

lemma b64_val_seps:
  "b64_val (CHR '':'') = None" "b64_val (CHR '';'') = None" "b64_val (CHR ''|'') = None"
  "b64_val (CHR '','') = None" "b64_val nl = None" "b64_val (CHR 0x0D) = None"
  by (simp_all add: b64_val_def)

lemma Encode_no_sep [simp]:
  "CHR '':'' \<notin> set (EncodeToString bs)" "CHR '';'' \<notin> set (EncodeToString bs)"
  "CHR ''|'' \<notin> set (EncodeToString bs)" "CHR '','' \<notin> set (EncodeToString bs)"
  "nl \<notin> set (EncodeToString bs)" "CHR 0x0D \<notin> set (EncodeToString bs)"
  by (rule b64_text_not [OF b64_text_Encode]; simp add: b64_val_seps)+

lemma b64_printable: "b64_text s \<Longrightarrow> c \<in> set s \<Longrightarrow> printable c"
  by (auto simp: b64_text_def b64_val_def printable_def Let_def split: if_splits)

lemma Encode_printable: "c \<in> set (EncodeToString bs) \<Longrightarrow> printable c"
  using b64_printable [OF b64_text_Encode] .

lemma length_Encode: "length bs \<le> length (EncodeToString bs)"
  by (induction bs rule: EncodeToString.induct) (simp_all add: quad_def)

lemma Encode_eq_Nil [simp]: "EncodeToString bs = [] \<longleftrightarrow> bs = []"
  by (cases bs rule: EncodeToString.cases) (simp_all add: quad_def)

lemma Encode_ends:
  assumes "bs \<noteq> []"
  shows "printable (hd (EncodeToString bs))" and "printable (last (EncodeToString bs))"
  using assms Encode_printable hd_in_set last_in_set by (metis Encode_eq_Nil)+


section \<open>Round trip\<close>

lemma div_steps:
  "v div 4096 = v div 64 div (64::nat)" "v div 262144 = v div 64 div 64 div (64::nat)"
  "v div 65536 = v div 256 div (256::nat)"
  by (simp_all flip: div_mult2_eq)

lemma regroup:
  "v div 262144 * 262144 + v div 4096 mod 64 * 4096 + v div 64 mod 64 * 64 + v mod 64 = (v::nat)"
proof -
  define a where "a = v div 64"
  define b where "b = a div 64"
  have "v = a * 64 + v mod 64" and "a = b * 64 + a mod 64" and "b = b div 64 * 64 + b mod 64"
    by (simp_all add: a_def b_def)
  then show ?thesis unfolding div_steps a_def [symmetric] b_def [symmetric] by linarith
qed

lemma char_less [simp]: "(of_char c :: nat) < 256"
  by (metis char_of_char mod_less_divisor of_char_of zero_less_numeral)

lemma radix256:
  fixes x y z :: nat
  assumes "y < 256" and "z < 256"
  shows "(x * 65536 + y * 256 + z) div 256 = x * 256 + y" and "(x * 65536 + y * 256 + z) div 65536 = x"
    and "(x * 65536 + y * 256 + z) mod 256 = z"
proof -
  have v: "x * 65536 + y * 256 + z = z + 256 * (x * 256 + y)" by simp
  show d: "(x * 65536 + y * 256 + z) div 256 = x * 256 + y"
    unfolding v using assms by (subst div_mult_self2) auto
  show "(x * 65536 + y * 256 + z) mod 256 = z"
    unfolding v using assms by (subst mod_mult_self2) auto
  show "(x * 65536 + y * 256 + z) div 65536 = x"
    unfolding div_steps d using assms by simp
qed

lemma triple_bytes: "triple (of_char a * 65536 + of_char b * 256 + of_char c) = [a, b, c]"
  unfolding triple_def radix256 [OF char_less char_less] by (simp add: mod_mult_self3)

lemma quad_top: "v < 16777216 \<Longrightarrow> v div 262144 < (64::nat)"
  by (simp add: less_mult_imp_div_less)

lemma decode_quad:
  assumes "v < 16777216"
  shows "decode_quanta (quad v @ rest) = map_option ((@) (triple v)) (decode_quanta rest)"
  using regroup [of v] by (simp add: quad_def quad_top [OF assms])

lemma decode_quad1:
  assumes "v < 16777216" and "v div 64 mod 64 = 0" and "v mod 64 = 0"
  shows "decode_quanta (take 2 (quad v) @ [pad, pad]) = Some (take 1 (triple v))"
  using regroup [of v] assms
  by (simp add: quad_def numeral_2_eq_2 quad_top [OF assms(1)])

lemma decode_quad2:
  assumes "v < 16777216" and "v mod 64 = 0"
  shows "decode_quanta (take 3 (quad v) @ [pad]) = Some (take 2 (triple v))"
  using regroup [of v] assms
  by (simp add: quad_def numeral_3_eq_3 quad_top [OF assms(1)])

lemma low_zero: "(n * 256) mod (64::nat) = 0" "(n * 65536) div 64 mod (64::nat) = 0"
  "(n * 65536) mod (64::nat) = 0" "(n * 65536 + m * 256) mod (64::nat) = 0"
  by (simp_all add: mod_eq_0_iff_dvd)

lemma decode_quanta_Encode: "decode_quanta (EncodeToString bs) = Some bs"
proof (induction bs rule: EncodeToString.induct)
  case (2 a)
  have "(of_char a * 65536 :: nat) < 16777216"
    using char_less [of a] by linarith
  then show ?case
    using decode_quad1 [OF _ low_zero(2,3)] triple_bytes [of a "CHR 0x00" "CHR 0x00"]
    by simp
next
  case (3 a b)
  have "(of_char a * 65536 + of_char b * 256 :: nat) < 16777216"
    using char_less [of a] char_less [of b] by linarith
  then show ?case
    using decode_quad2 [OF _ low_zero(4)] triple_bytes [of a b "CHR 0x00"]
    by simp
next
  case (4 a b c rest)
  have "(of_char a * 65536 + of_char b * 256 + of_char c :: nat) < 16777216"
    using char_less [of a] char_less [of b] char_less [of c] by linarith
  with 4 show ?case by (simp add: decode_quad triple_bytes)
qed simp

lemma filter_Encode: "filter (\<lambda>c. c \<noteq> CHR 0x0D \<and> c \<noteq> nl) (EncodeToString bs) = EncodeToString bs"
  by (rule filter_True) (use Encode_no_sep [of bs] in metis)

lemma Decode_Encode [simp]: "DecodeString (EncodeToString bs) = Some bs"
  by (simp add: DecodeString_def filter_Encode decode_quanta_Encode)


section \<open>The interface of a text encoding\<close>

text \<open>
  What a format that packs several encoded values into one line relies on: a decoder that inverts
  the encoder, and an alphabet that avoids a set of reserved separator bytes. Inside it, joining
  encoded values with a separator and splitting again is lossless.
\<close>

locale text_encoding =
  fixes enc :: "bytes \<Rightarrow> string"
    and dec :: "string \<Rightarrow> bytes option"
    and reserved :: "char set"
  assumes dec_enc: "dec (enc b) = Some b"
    and enc_reserved: "set (enc b) \<inter> reserved = {}"
begin

lemma enc_inject: "enc a = enc b \<longleftrightarrow> a = b"
  by (metis dec_enc option.inject)

lemma split_encoded_list:
  assumes "c \<in> reserved" and "bs \<noteq> []"
  shows "Split c (Join (map enc bs) [c]) = map enc bs"
  using assms enc_reserved by (intro Split_Join) auto

lemma join_avoids:
  assumes "c \<in> reserved" and "c \<notin> set sep"
  shows "c \<notin> set (Join (map enc bs) sep)"
  using assms enc_reserved by (intro Join_no_char) auto

lemma split_two_fields:
  assumes "c \<in> reserved" and "d \<in> reserved" and "c \<noteq> d"
  shows "SplitN c 2 (Join (map enc bs) [d] @ [c] @ enc b) = [Join (map enc bs) [d], enc b]"
proof -
  have "c \<notin> set (Join (map enc bs) [d])" and "c \<notin> set (enc b)"
    using assms join_avoids [of c "[d]"] enc_reserved [of b] by auto
  then show ?thesis
    by (simp add: numeral_2_eq_2)
qed

end

interpretation std64: text_encoding EncodeToString DecodeString
  "{CHR '':'', CHR '';'', CHR ''|'', CHR '','', nl, CHR 0x0D}"
  by unfold_locales auto

end
