(* ===== verification/Crypto.thy ===== *)
theory Crypto
  imports Base64
begin

text \<open>
  The cryptographic primitives, AES-GCM, RSA-OAEP and the PKIX form of public keys, are a parameter
  of the model: a record of functions whose documented behaviour is the locale \<open>crypto_laws\<close> (what
  is sealed can be opened with the same key) and its extension \<open>crypto_sep\<close> (and with no other
  key). On top of them stand \<open>EncryptAES\<close> and \<open>DecryptAES\<close> of \<open>model/Node.go\<close>.
\<close>

section \<open>Primitives\<close>

datatype 'pk parsed_key = RSAKey 'pk | OtherKey

record ('pk, 'sk) crypto =
  Seal :: "bytes \<Rightarrow> bytes \<Rightarrow> bytes \<Rightarrow> bytes"            \<comment> \<open>key, nonce, plaintext\<close>
  Open :: "bytes \<Rightarrow> bytes \<Rightarrow> bytes \<Rightarrow> bytes option"     \<comment> \<open>key, nonce, ciphertext\<close>
  EncryptOAEP :: "'pk \<Rightarrow> bytes \<Rightarrow> bytes \<Rightarrow> bytes option" \<comment> \<open>key, seed, message\<close>
  DecryptOAEP :: "'sk \<Rightarrow> bytes \<Rightarrow> bytes option"
  PublicOf :: "'sk \<Rightarrow> 'pk"
  MarshalPKIX :: "'pk \<Rightarrow> bytes option"
  ParsePKIX :: "bytes \<Rightarrow> 'pk parsed_key option"

text \<open>\<open>aes.NewCipher\<close> accepts 16, 24 and 32 byte keys; \<open>cipher.NewGCM\<close> uses a 12 byte nonce and
  OAEP with SHA-256 a 32 byte seed.\<close>

definition aes_key :: "bytes \<Rightarrow> bool" where
  "aes_key k \<longleftrightarrow> length k = 16 \<or> length k = 24 \<or> length k = 32"

abbreviation NonceSize :: nat where "NonceSize \<equiv> 12"
abbreviation SeedSize :: nat where "SeedSize \<equiv> 32"
abbreviation AesKeySize :: nat where "AesKeySize \<equiv> 32"


section \<open>Authenticated encryption\<close>

definition EncryptAES :: "('pk, 'sk) crypto \<Rightarrow> bytes \<Rightarrow> bytes \<Rightarrow> rng \<Rightarrow> (bytes \<times> rng) res" where
  "EncryptAES C key plaintext r =
     (if \<not> aes_key key then Err ErrKeySize
      else bind_res (ReadFull NonceSize r) (\<lambda>(nonce, r').
             Ok (nonce @ Seal C key nonce plaintext, r')))"

text \<open>\<open>ciphertext[:nonceSize]\<close> and \<open>ciphertext[nonceSize:]\<close> panic on a shorter ciphertext.\<close>

definition DecryptAES :: "('pk, 'sk) crypto \<Rightarrow> bytes \<Rightarrow> bytes \<Rightarrow> bytes res" where
  "DecryptAES C key ciphertext =
     (if \<not> aes_key key then Err ErrKeySize
      else if length ciphertext < NonceSize then Panic
      else of_option ErrOpen (Open C key (take NonceSize ciphertext) (drop NonceSize ciphertext)))"

definition rsa_encrypt ::
  "('pk, 'sk) crypto \<Rightarrow> 'pk \<Rightarrow> bytes \<Rightarrow> rng \<Rightarrow> (bytes \<times> rng) res" where
  "rsa_encrypt C pk m r =
     bind_res (ReadFull SeedSize r) (\<lambda>(seed, r').
     bind_res (of_option ErrOAEP (EncryptOAEP C pk seed m)) (\<lambda>c. Ok (c, r')))"


section \<open>What the program relies on\<close>

locale crypto_laws =
  fixes C :: "('pk, 'sk) crypto"
  assumes open_seal: "aes_key k \<Longrightarrow> length n = NonceSize \<Longrightarrow> Open C k n (Seal C k n p) = Some p"
    and decrypt_encrypt: "EncryptOAEP C (PublicOf C sk) seed m = Some c \<Longrightarrow> DecryptOAEP C sk c = Some m"
    and oaep_accepts: "length seed = SeedSize \<Longrightarrow> length m = AesKeySize \<Longrightarrow>
      \<exists>c. EncryptOAEP C (PublicOf C sk) seed m = Some c"
    and oaep_length: "EncryptOAEP C pk seed m = Some c \<Longrightarrow> 66 \<le> length c"
    and marshal_total: "\<exists>b. MarshalPKIX C pk = Some b"
    and parse_marshal: "MarshalPKIX C pk = Some b \<Longrightarrow> ParsePKIX C b = Some (RSAKey pk)"
begin

lemma DecryptAES_EncryptAES:
  assumes "EncryptAES C key p r = Ok (ct, r')"
  shows "DecryptAES C key ct = Ok p"
  using assms by (auto simp: EncryptAES_def DecryptAES_def bind_res_eq_Ok open_seal split: if_splits)

lemma EncryptAES_ok:
  assumes "aes_key key" and "NonceSize \<le> length r"
  shows "\<exists>ct. EncryptAES C key p r = Ok (ct, drop NonceSize r)"
  using assms by (simp add: EncryptAES_def ReadFull_def)

lemma rsa_encrypt_ok:
  assumes "length m = AesKeySize" and "SeedSize \<le> length r"
  shows "\<exists>c. rsa_encrypt C (PublicOf C sk) m r = Ok (c, drop SeedSize r)"
  using assms oaep_accepts [of "take SeedSize r" m sk]
  by (auto simp: rsa_encrypt_def ReadFull_def)

lemma rsa_encrypt_length: "rsa_encrypt C pk m r = Ok (c, r') \<Longrightarrow> 66 \<le> length c"
  by (auto simp: rsa_encrypt_def bind_res_eq_Ok oaep_length)

lemma rsa_encrypt_decrypt:
  assumes "rsa_encrypt C (PublicOf C sk) m r = Ok (c, r')"
  shows "DecryptOAEP C sk c = Some m"
  using assms by (auto simp: rsa_encrypt_def bind_res_eq_Ok decrypt_encrypt)

end

locale crypto_sep = crypto_laws +
  assumes oaep_wrong_key: "EncryptOAEP C pk seed m = Some c \<Longrightarrow> pk \<noteq> PublicOf C sk \<Longrightarrow> DecryptOAEP C sk c = None"
    and open_wrong_key: "aes_key k \<Longrightarrow> aes_key k' \<Longrightarrow> k \<noteq> k' \<Longrightarrow> Open C k' n (Seal C k n p) = None"
begin

lemma rsa_encrypt_wrong_key:
  assumes "rsa_encrypt C pk m r = Ok (c, r')" and "pk \<noteq> PublicOf C sk"
  shows "DecryptOAEP C sk c = None"
  using assms by (auto simp: rsa_encrypt_def bind_res_eq_Ok oaep_wrong_key)

lemma DecryptAES_wrong_key:
  assumes "EncryptAES C key p r = Ok (ct, r')" and "aes_key key'" and "key' \<noteq> key"
  shows "DecryptAES C key' ct = Err ErrOpen"
  using assms by (auto simp: EncryptAES_def DecryptAES_def bind_res_eq_Ok open_wrong_key split: if_splits)

end


section \<open>An ideal instance\<close>

text \<open>
  A symbolic cipher that satisfies the laws, so that they are consistent and every property can be
  evaluated at a concrete network: a ciphertext is the plaintext tagged with the key that opens it.
\<close>

definition key_tag :: "nat \<Rightarrow> bytes" where
  "key_tag k = replicate k (CHR ''k'') @ [CHR ''#''] @ replicate 66 (CHR ''z'')"

definition strip_tag :: "bytes \<Rightarrow> bytes \<Rightarrow> bytes option" where
  "strip_tag t c = (if HasPrefix c t then Some (drop (length t) c) else None)"

definition ideal_crypto :: "(nat, nat) crypto" where
  "ideal_crypto = \<lparr>
     Seal = (\<lambda>k n p. char_of (length k) # k @ p),
     Open = (\<lambda>k n c. strip_tag (char_of (length k) # k) c),
     EncryptOAEP = (\<lambda>pk seed m. if length m \<le> 190 then Some (key_tag pk @ m) else None),
     DecryptOAEP = (\<lambda>sk c. strip_tag (key_tag sk) c),
     PublicOf = (\<lambda>sk. sk),
     MarshalPKIX = (\<lambda>pk. Some (replicate pk (CHR ''k''))),
     ParsePKIX = (\<lambda>b. if list_all (\<lambda>c. c = CHR ''k'') b then Some (RSAKey (length b)) else None)\<rparr>"

lemma strip_tag_append [simp]: "strip_tag t (t @ m) = Some m"
  by (simp add: strip_tag_def)

lemma length_key_tag: "length (key_tag k) = k + 67"
  by (simp add: key_tag_def)

lemma key_tag_prefix: "HasPrefix (key_tag a @ m) (key_tag b) \<Longrightarrow> a = b"
proof -
  assume "HasPrefix (key_tag a @ m) (key_tag b)"
  then obtain t where
    "replicate a (CHR ''k'') @ CHR ''#'' # replicate 66 (CHR ''z'') @ m
     = replicate b (CHR ''k'') @ CHR ''#'' # replicate 66 (CHR ''z'') @ t"
    by (auto simp: key_tag_def HasPrefix_iff)
  then have "takeWhile (\<lambda>x. x \<noteq> CHR ''#'') (replicate a (CHR ''k'') @ CHR ''#'' # replicate 66 (CHR ''z'') @ m)
    = takeWhile (\<lambda>x. x \<noteq> CHR ''#'') (replicate b (CHR ''k'') @ CHR ''#'' # replicate 66 (CHR ''z'') @ t)" by simp
  then show ?thesis by (auto simp: replicate_eq_replicate)
qed

lemma aes_key_tag:
  assumes "aes_key k" and "aes_key k'" and "HasPrefix (char_of (length k) # k @ p) (char_of (length k') # k')"
  shows "k = k'"
proof -
  have "char_of (length k) = (char_of (length k') :: char)" and pre: "HasPrefix (k @ p) k'"
    using assms(3) by (auto simp: HasPrefix_def)
  then have "(of_char (char_of (length k) :: char) :: nat) = of_char (char_of (length k') :: char)" by simp
  with assms(1,2) have "length k = length k'" by (auto simp: aes_key_def)
  with pre show ?thesis by (simp add: HasPrefix_def)
qed

interpretation ideal: crypto_sep ideal_crypto
proof
  fix k n p :: bytes
  show "Open ideal_crypto k n (Seal ideal_crypto k n p) = Some p"
    using strip_tag_append [of "char_of (length k) # k" p] by (simp add: ideal_crypto_def)
next
  fix k k' n p :: bytes
  assume "aes_key k" and "aes_key k'" and "k \<noteq> k'"
  then show "Open ideal_crypto k' n (Seal ideal_crypto k n p) = None"
    using aes_key_tag by (auto simp: ideal_crypto_def strip_tag_def)
next
  fix pk sk :: nat and seed m c :: bytes
  assume "EncryptOAEP ideal_crypto pk seed m = Some c" and "pk \<noteq> PublicOf ideal_crypto sk"
  then show "DecryptOAEP ideal_crypto sk c = None"
    using key_tag_prefix by (auto simp: ideal_crypto_def strip_tag_def split: if_splits)
qed (auto simp: ideal_crypto_def length_key_tag list_all_iff split: if_splits)

end
