(* ===== verification/Expiry.thy ===== *)
theory Expiry
  imports Prelude
begin

text \<open>
  The contract shared by the two maps of the program that a background goroutine sweeps: the
  seen-message set of a node and the public-key cache. Values expire as time passes; a sweep
  removes the expired entries and nothing else.
\<close>

locale expiring_map =
  fixes store :: "string \<Rightarrow> 'v \<Rightarrow> (string \<rightharpoonup> 'v) \<Rightarrow> (string \<rightharpoonup> 'v)"
    and sweep :: "time \<Rightarrow> (string \<rightharpoonup> 'v) \<Rightarrow> (string \<rightharpoonup> 'v)"
    and expired :: "time \<Rightarrow> 'v \<Rightarrow> bool"
  assumes store_lookup: "store k v m = m(k \<mapsto> v)"
    and sweep_lookup: "sweep now m k = (case m k of None \<Rightarrow> None | Some v \<Rightarrow> if expired now v then None else Some v)"
    and expired_mono: "now \<le> later \<Longrightarrow> expired now v \<Longrightarrow> expired later v"
begin

lemma sweep_keeps: "sweep now m k = Some v \<longleftrightarrow> m k = Some v \<and> \<not> expired now v"
  by (auto simp: sweep_lookup split: option.splits)

lemma sweep_dom: "dom (sweep now m) \<subseteq> dom m"
  by (auto simp: sweep_keeps)

lemma sweep_sweep: "now \<le> later \<Longrightarrow> sweep later (sweep now m) = sweep later m"
  by (rule ext) (auto simp: sweep_lookup expired_mono split: option.split)

lemma fold_sweep:
  "sorted (ts @ [later]) \<Longrightarrow> sweep later (fold sweep ts m) = sweep later m"
proof (induction ts arbitrary: m)
  case (Cons t ts)
  then have "sweep later (fold sweep ts (sweep t m)) = sweep later (sweep t m)" by simp
  with Cons.prems show ?case by (simp add: sweep_sweep)
qed simp

lemma fresh_survives:
  assumes "\<forall>t \<in> set ts. \<not> expired t v"
  shows "fold sweep ts (store k v m) k = Some v"
proof -
  have "m' k = Some v \<Longrightarrow> fold sweep ts m' k = Some v" for m'
    using assms
  proof (induction ts arbitrary: m')
    case (Cons t ts)
    then have "sweep t m' k = Some v" by (simp add: sweep_keeps)
    with Cons show ?case by simp
  qed simp
  then show ?thesis by (simp add: store_lookup)
qed

lemma expired_gone:
  "\<exists>t \<in> set ts. expired t v \<Longrightarrow> m k = Some v \<Longrightarrow> fold sweep ts m k = None"
proof (induction ts arbitrary: m)
  case (Cons t ts)
  show ?case
  proof (cases "expired t v")
    case True
    with Cons.prems have "sweep t m k = None" by (simp add: sweep_lookup)
    moreover have "m' k = None \<Longrightarrow> fold sweep ts m' k = None" for m'
      by (induction ts arbitrary: m') (simp_all add: sweep_lookup)
    ultimately show ?thesis by simp
  next
    case False
    with Cons.prems have "sweep t m k = Some v" by (simp add: sweep_keeps)
    with False Cons show ?thesis by simp
  qed
qed simp

end

end
