(* ===== verification/KeyCache.thy ===== *)
theory KeyCache
  imports Crypto Expiry
begin

text \<open>
  \<open>node/keycache.go\<close> and \<open>parsePublicKey\<close> of \<open>node/super_send.go\<close>: the cache of public keys a sender
  keeps, its eviction, and fetching a key from the directory. Each method body runs under the
  cache's mutex, so each is one atomic operation here.
\<close>

section \<open>The cache\<close>

record 'pk CachedKey =
  Key :: 'pk
  ExpiresAt :: time

type_synonym 'pk KeyCache = "string \<rightharpoonup> 'pk CachedKey"

definition newKeyCache :: "'pk KeyCache" where
  "newKeyCache = Map.empty"

definition key_expired :: "time \<Rightarrow> 'pk CachedKey \<Rightarrow> bool" where
  "key_expired now v \<longleftrightarrow> ExpiresAt v < now"

text \<open>One tick of the eviction goroutine.\<close>

definition cleanCache :: "time \<Rightarrow> 'pk KeyCache \<Rightarrow> 'pk KeyCache" where
  "cleanCache now c = (\<lambda>k. case c k of
     None \<Rightarrow> None
   | Some v \<Rightarrow> if key_expired now v then None else Some v)"

definition get :: "'pk KeyCache \<Rightarrow> string \<Rightarrow> 'pk CachedKey option" where
  "get c k = c k"

definition set_key :: "string \<Rightarrow> 'pk CachedKey \<Rightarrow> 'pk KeyCache \<Rightarrow> 'pk KeyCache" where
  "set_key k v c = c(k \<mapsto> v)"

interpretation key_cache: expiring_map set_key cleanCache key_expired
  by unfold_locales (auto simp: set_key_def cleanCache_def key_expired_def split: option.split)


section \<open>Reading keys\<close>

definition parsePublicKey :: "('pk, 'sk) crypto \<Rightarrow> string \<Rightarrow> 'pk option" where
  "parsePublicKey C keyB64 =
     (case DecodeString keyB64 of
        None \<Rightarrow> None
      | Some pubBytes \<Rightarrow>
          (case ParsePKIX C pubBytes of
             None \<Rightarrow> None
           | Some (RSAKey pk) \<Rightarrow> Some pk
           | Some OtherKey \<Rightarrow> None))"

text \<open>
  A request to the directory is a function from the line sent to the bytes answered before the
  server closes, or a network error.
\<close>

type_synonym directory = "string \<Rightarrow> bytes res"

definition FetchKeyFromServer :: "('pk, 'sk) crypto \<Rightarrow> directory \<Rightarrow> addr \<Rightarrow> 'pk res" where
  "FetchKeyFromServer C ask addr =
     bind_res (ask (''GET_KEY:'' @ addr @ [nl])) (\<lambda>raw.
     bind_res (ReadString raw) (\<lambda>line.
       let response = TrimSpace line in
       if HasPrefix response ''ERROR:'' then Err (ErrServer response)
       else let parts = SplitN colon 2 response in
         if length parts \<noteq> 2 \<or> parts ! 0 \<noteq> ''KEY'' then Err ErrResponse
         else bind_res (of_option ErrBase64 (DecodeString (parts ! 1))) (\<lambda>publicBytes.
              bind_res (of_option ErrParseKey (ParsePKIX C publicBytes)) (\<lambda>pubKey.
                case pubKey of RSAKey pk \<Rightarrow> Ok pk | OtherKey \<Rightarrow> Err ErrNotRSA))))"


section \<open>Properties\<close>

lemma parsePublicKey_marshal:
  assumes "crypto_laws C" and "MarshalPKIX C pk = Some b"
  shows "parsePublicKey C (EncodeToString b) = Some pk"
  using crypto_laws.parse_marshal [OF assms] by (simp add: parsePublicKey_def)

text \<open>
  A key stored in the cache is returned by every lookup until a sweep after its expiry, and by
  none after such a sweep, whatever other sweeps happen in between.
\<close>

theorem key_cache_expiry:
  "get (fold cleanCache ts (set_key k v c)) k =
     (if \<exists>t \<in> set ts. ExpiresAt v < t then None else Some v)"
proof (cases "\<exists>t \<in> set ts. key_expired t v")
  case True
  then show ?thesis
    using key_cache.expired_gone [OF True, of "set_key k v c" k]
    by (simp add: get_def key_expired_def key_cache.store_lookup)
next
  case False
  then show ?thesis
    using key_cache.fresh_survives [of ts v k c] by (auto simp: get_def key_expired_def)
qed

lemma FetchKey_reply:
  assumes "crypto_laws C" and "MarshalPKIX C pk = Some b" and "b \<noteq> []"
    and "ask (''GET_KEY:'' @ addr @ [nl]) = Ok (''KEY:'' @ EncodeToString b @ [nl])"
  shows "FetchKeyFromServer C ask addr = Ok pk"
proof -
  define s where "s = ''KEY:'' @ EncodeToString b"
  have "printable (hd s)" and "printable (last s)" and "nl \<notin> set s" and "s \<noteq> []"
    using Encode_ends(2) [OF assms(3)] assms(3) by (simp_all add: s_def printable_def)
  then have "ReadString (s @ [nl]) = Ok (s @ [nl])" and "TrimSpace (s @ [nl]) = s"
    by (simp_all add: TrimSpace_line)
  moreover have "SplitN colon 2 s = [''KEY'', EncodeToString b]"
    using SplitN_append [of colon "''KEY''" 0 "EncodeToString b"] by (simp add: s_def numeral_2_eq_2)
  moreover have "\<not> HasPrefix s ''ERROR:''" by (simp add: s_def HasPrefix_def)
  moreover have "ask (''GET_KEY:'' @ addr @ [nl]) = Ok (s @ [nl])" using assms(4) by (simp add: s_def)
  ultimately show ?thesis
    using crypto_laws.parse_marshal [OF assms(1,2)]
    by (simp add: FetchKeyFromServer_def del: append.simps)
qed

end
