(* ===== verification/Broadcast.thy ===== *)
theory Broadcast
  imports Crypto
begin

text \<open>
  \<open>model/Broadcast.go\<close> and \<open>encryptForNode\<close> of \<open>node/onion.go\<close>: address lists, and the envelopes
  that carry an onion layer to one node or to any member of a group. The wire form of an envelope
  is \<open>base64(K1);...;base64(KM):base64(nonce || ciphertext)\<close>.
\<close>

section \<open>Address lists\<close>

definition ParseAddresses :: "string \<Rightarrow> addr list" where
  "ParseAddresses next = (if next = [] then [] else Split comma next)"

definition JoinAddresses :: "addr list \<Rightarrow> string" where
  "JoinAddresses addrs = Join addrs [comma]"


section \<open>Envelopes\<close>

text \<open>The loop over the group: the AES key encrypted once per public key.\<close>

fun encrypt_keys ::
  "('pk, 'sk) crypto \<Rightarrow> bytes \<Rightarrow> 'pk list \<Rightarrow> rng \<Rightarrow> (string list \<times> rng) res" where
  "encrypt_keys C aesKey [] r = Ok ([], r)"
| "encrypt_keys C aesKey (pk # pks) r =
     bind_res (rsa_encrypt C pk aesKey r) (\<lambda>(encKey, r1).
     bind_res (encrypt_keys C aesKey pks r1) (\<lambda>(encKeys, r2).
       Ok (EncodeToString encKey # encKeys, r2)))"

definition BroadcastEncrypt ::
  "('pk, 'sk) crypto \<Rightarrow> bytes \<Rightarrow> 'pk list \<Rightarrow> rng \<Rightarrow> (string \<times> rng) res" where
  "BroadcastEncrypt C plaintext pubKeys r =
     (if pubKeys = [] then Err ErrNoPublicKey
      else bind_res (ReadFull AesKeySize r) (\<lambda>(aesKey, r1).
           bind_res (EncryptAES C aesKey plaintext r1) (\<lambda>(encPayload, r2).
           bind_res (encrypt_keys C aesKey pubKeys r2) (\<lambda>(encKeys, r3).
             Ok (Join encKeys [semi] @ [colon] @ EncodeToString encPayload, r3)))))"

text \<open>Trying each encrypted key in turn: an undecodable or foreign one is skipped.\<close>

fun try_keys :: "('pk, 'sk) crypto \<Rightarrow> 'sk \<Rightarrow> string list \<Rightarrow> bytes option" where
  "try_keys C sk [] = None"
| "try_keys C sk (k # ks) =
     (case DecodeString k of
        None \<Rightarrow> try_keys C sk ks
      | Some encKey \<Rightarrow>
          (case DecryptOAEP C sk encKey of
             None \<Rightarrow> try_keys C sk ks
           | Some key \<Rightarrow> Some key))"

definition BroadcastDecrypt :: "('pk, 'sk) crypto \<Rightarrow> string \<Rightarrow> 'sk \<Rightarrow> bytes res" where
  "BroadcastDecrypt C message sk =
     (let parts = SplitN colon 2 message in
      if length parts \<noteq> 2 then Err ErrFormat
      else bind_res (of_option ErrBase64 (DecodeString (parts ! 1))) (\<lambda>encPayload.
           bind_res (of_option ErrNoMatchingKey (try_keys C sk (Split semi (parts ! 0)))) (\<lambda>aesKey.
             DecryptAES C aesKey encPayload)))"

definition encryptForNode ::
  "('pk, 'sk) crypto \<Rightarrow> bytes \<Rightarrow> 'pk \<Rightarrow> rng \<Rightarrow> (string \<times> rng) res" where
  "encryptForNode C plaintext pubKey r =
     bind_res (ReadFull AesKeySize r) (\<lambda>(aesKey, r1).
     bind_res (EncryptAES C aesKey plaintext r1) (\<lambda>(encPlaintext, r2).
     bind_res (rsa_encrypt C pubKey aesKey r2) (\<lambda>(encKey, r3).
       Ok (EncodeToString encKey @ [colon] @ EncodeToString encPlaintext, r3))))"


section \<open>Lists of addresses\<close>

lemma ParseAddresses_JoinAddresses:
  "as \<noteq> [[]] \<Longrightarrow> \<forall>a \<in> set as. comma \<notin> set a \<Longrightarrow> ParseAddresses (JoinAddresses as) = as"
proof (cases as rule: list.exhaust)
  case (Cons a bs)
  assume "as \<noteq> [[]]" and "\<forall>a \<in> set as. comma \<notin> set a"
  moreover from this Cons have "Join as [comma] \<noteq> []" by (cases bs) auto
  ultimately show ?thesis
    using Cons by (simp add: ParseAddresses_def JoinAddresses_def Split_Join)
qed (simp add: ParseAddresses_def JoinAddresses_def)

text \<open>
  An address list survives joining and parsing, provided no address holds a comma and the list is
  not the single empty address; and joining what a text parses to gives the text back.
\<close>

theorem addresses_roundtrip:
  "(ParseAddresses (JoinAddresses as) = as \<longleftrightarrow> as \<noteq> [[]] \<and> (\<forall>a \<in> set as. comma \<notin> set a)) \<and>
   JoinAddresses (ParseAddresses s) = s"
proof (intro conjI iffI)
  assume p: "ParseAddresses (JoinAddresses as) = as"
  then show "as \<noteq> [[]]" by (auto simp: ParseAddresses_def JoinAddresses_def)
  show "\<forall>a \<in> set as. comma \<notin> set a"
    using p Split_piece_no_sep [of _ comma "JoinAddresses as"]
    by (metis ParseAddresses_def empty_iff list.set(1))
next
  assume "as \<noteq> [[]] \<and> (\<forall>a \<in> set as. comma \<notin> set a)"
  then show "ParseAddresses (JoinAddresses as) = as" by (blast intro: ParseAddresses_JoinAddresses)
next
  show "JoinAddresses (ParseAddresses s) = s"
    by (simp add: ParseAddresses_def JoinAddresses_def Join_Split)
qed

theorem addresses_roundtrip_witness:
  "ParseAddresses (JoinAddresses [''10.0.0.1:9001'', ''10.0.0.2:9002'']) = [''10.0.0.1:9001'', ''10.0.0.2:9002''] \<and>
   JoinAddresses (ParseAddresses ''a:1,b:2,c:3'') = ''a:1,b:2,c:3''"
  using addresses_roundtrip [of "[''10.0.0.1:9001'', ''10.0.0.2:9002'']" "''a:1,b:2,c:3''"] by simp


section \<open>What travels on a line\<close>

text \<open>
  Lines a node takes for an envelope: not empty, not changed by trimming, on one line, free of
  pipes and commas, and neither of the two plain commands.
\<close>

definition onion_line :: "string \<Rightarrow> bool" where
  "onion_line w \<longleftrightarrow> w \<noteq> [] \<and> printable (hd w) \<and> printable (last w) \<and> nl \<notin> set w \<and>
     pipe \<notin> set w \<and> \<not> HasPrefix w ''NACK:'' \<and> w \<noteq> ''GET_PUBKEY''"


lemma Join_eq_encoded:
  assumes "\<forall>k \<in> set ks. x < length k"
  shows "ks \<noteq> [] \<Longrightarrow> x < length (Join ks sep)"
  using assms by (cases "(ks, sep)" rule: Join.cases) auto

lemma hd_Join: "k \<noteq> [] \<Longrightarrow> hd (Join (k # ks) sep) = hd k"
  by (cases ks) auto

lemma prefix_before_sep:
  assumes "HasPrefix (s @ c # t) (p @ [c])" and "c \<notin> set s" and "c \<notin> set p"
  shows "s = p"
proof -
  from assms(1) obtain u where "s @ c # t = p @ c # u" by (auto simp: HasPrefix_iff)
  then have "takeWhile (\<lambda>x. x \<noteq> c) (s @ c # t) = takeWhile (\<lambda>x. x \<noteq> c) (p @ c # u)" by simp
  with assms(2,3) show ?thesis by simp
qed

text \<open>Long base64 keys, a colon, and a non-empty base64 payload make an onion line.\<close>

lemma onion_line_wire:
  assumes "bs \<noteq> []" and "\<forall>b \<in> set bs. 66 \<le> length b" and "p \<noteq> []"
  shows "onion_line (Join (map EncodeToString bs) [semi] @ [colon] @ EncodeToString p)"
proof -
  let ?ks = "Join (map EncodeToString bs) [semi]"
  obtain b bs' where bs: "bs = b # bs'" using assms(1) by (cases bs) auto
  with assms(2) have b: "b \<noteq> []" by auto
  have "4 < length (EncodeToString x)" if "x \<in> set bs" for x
    using assms(2) that length_Encode [of x] by fastforce
  then have "\<forall>k \<in> set (map EncodeToString bs). 4 < length k" by simp
  then have len: "4 < length ?ks" using Join_eq_encoded assms(1) by blast
  have no: "colon \<notin> set ?ks" "pipe \<notin> set ?ks" "nl \<notin> set ?ks"
    by (rule Join_no_char; force)+
  have "\<not> HasPrefix (?ks @ [colon] @ EncodeToString p) ''NACK:''"
    using prefix_before_sep [of ?ks colon "EncodeToString p" "''NACK''"] no(1) len by auto
  moreover have "?ks @ [colon] @ EncodeToString p \<noteq> ''GET_PUBKEY''"
  proof
    assume "?ks @ [colon] @ EncodeToString p = ''GET_PUBKEY''"
    then have "colon \<in> set ''GET_PUBKEY''" by (metis append_Cons in_set_conv_decomp)
    then show False by simp
  qed
  moreover have "hd (?ks @ [colon] @ EncodeToString p) = hd (EncodeToString b)"
    using len b bs by (auto simp: hd_append hd_Join simp del: Join.simps)
  ultimately show ?thesis
    using no len b assms(3) by (auto simp: onion_line_def Encode_ends)
qed

lemma encrypt_keys_all:
  "encrypt_keys C k pks r = Ok (eks, r') \<Longrightarrow>
   \<exists>cs. eks = map EncodeToString cs \<and>
     list_all2 (\<lambda>pk c. \<exists>ra rb. rsa_encrypt C pk k ra = Ok (c, rb)) pks cs"
proof (induction pks arbitrary: r eks r')
  case (Cons pk pks)
  then obtain c r1 eks' where c: "rsa_encrypt C pk k r = Ok (c, r1)"
    and e: "encrypt_keys C k pks r1 = Ok (eks', r')" and eks: "eks = EncodeToString c # eks'"
    by (auto simp: bind_res_eq_Ok)
  from Cons.IH [OF e] obtain cs where "eks' = map EncodeToString cs"
    and "list_all2 (\<lambda>pk c. \<exists>ra rb. rsa_encrypt C pk k ra = Ok (c, rb)) pks cs" by blast
  with c eks show ?case by (intro exI [of _ "c # cs"]) auto
qed simp

lemma BroadcastEncrypt_shape:
  assumes "BroadcastEncrypt C p pks r = Ok (w, r')"
  shows "\<exists>k ct cs ra rb. pks \<noteq> [] \<and> length k = AesKeySize \<and> EncryptAES C k p ra = Ok (ct, rb) \<and>
    list_all2 (\<lambda>pk c. \<exists>ra rb. rsa_encrypt C pk k ra = Ok (c, rb)) pks cs \<and>
    w = Join (map EncodeToString cs) [semi] @ [colon] @ EncodeToString ct"
proof -
  from assms obtain k r1 ct r2 eks where
    k: "pks \<noteq> []" "k = take AesKeySize r" "AesKeySize \<le> length r"
    and ct: "EncryptAES C k p r1 = Ok (ct, r2)"
    and eks: "encrypt_keys C k pks r2 = Ok (eks, r')"
    and w: "w = Join eks [semi] @ [colon] @ EncodeToString ct"
    by (auto simp: BroadcastEncrypt_def bind_res_eq_Ok split: if_splits)
  moreover from k have "length k = AesKeySize" by simp
  ultimately show ?thesis using encrypt_keys_all [OF eks] by blast
qed

lemma BroadcastDecrypt_wire:
  assumes "cs \<noteq> []"
  shows "BroadcastDecrypt C (Join (map EncodeToString cs) [semi] @ [colon] @ EncodeToString ct) sk =
    bind_res (of_option ErrNoMatchingKey (try_keys C sk (map EncodeToString cs)))
      (\<lambda>aesKey. DecryptAES C aesKey ct)"
  using std64.split_two_fields [of colon semi cs ct] std64.split_encoded_list [of semi cs] assms
  by (simp add: BroadcastDecrypt_def)

lemma encryptForNode_group_of_one:
  "encryptForNode C plaintext pk r = BroadcastEncrypt C plaintext [pk] r"
  by (simp add: encryptForNode_def BroadcastEncrypt_def bind_res_assoc case_prod_beta')

text \<open>
  Encrypting for one node is broadcast encryption to a group of one: the two routines make the
  same envelope from the same randomness, errors included.
\<close>

theorem encryptForNode_eq_BroadcastEncrypt:
  "encryptForNode C plaintext pk r = BroadcastEncrypt C plaintext [pk] r"
  by (rule encryptForNode_group_of_one)


section \<open>The interface of an envelope\<close>

text \<open>
  What the onion code relies on: whoever holds a key of the addressed group opens a sealed envelope
  to exactly the sealed text, and a sealed envelope is a line a node will take for one.
\<close>

locale envelope =
  fixes seal :: "'g \<Rightarrow> bytes \<Rightarrow> rng \<Rightarrow> (string \<times> rng) res"
    and unseal :: "'sk \<Rightarrow> string \<Rightarrow> bytes res"
    and holds_key :: "'sk \<Rightarrow> 'g \<Rightarrow> bool"
  assumes unseal_seal: "seal g p r = Ok (w, r') \<Longrightarrow> holds_key sk g \<Longrightarrow> unseal sk w = Ok p"
    and seal_line: "seal g p r = Ok (w, r') \<Longrightarrow> onion_line w"

text \<open>With usable keys, and enough random bytes, sealing cannot fail; its cost is a fixed number of bytes.\<close>

locale envelope_total = envelope +
  fixes usable :: "'a \<Rightarrow> bool" and cost :: "'a \<Rightarrow> nat"
  assumes seal_ok: "usable g \<Longrightarrow> cost g \<le> length r \<Longrightarrow> \<exists>w. seal g p r = Ok (w, drop (cost g) r)"

lemma try_keys_map: "try_keys C sk (map EncodeToString cs) =
  (case filter (\<lambda>c. DecryptOAEP C sk c \<noteq> None) cs of [] \<Rightarrow> None | c # _ \<Rightarrow> DecryptOAEP C sk c)"
  by (induction cs) (auto split: option.split)

context crypto_laws
begin

lemma list_all2_rsa_length:
  "list_all2 (\<lambda>pk c. \<exists>ra rb. rsa_encrypt C pk k ra = Ok (c, rb)) pks cs \<Longrightarrow> \<forall>c \<in> set cs. 66 \<le> length c"
  by (induction rule: list_all2_induct) (auto dest: rsa_encrypt_length)

lemma BroadcastEncrypt_line:
  assumes "BroadcastEncrypt C p pks r = Ok (w, r')"
  shows "onion_line w"
proof -
  from BroadcastEncrypt_shape [OF assms] obtain k ct cs ra rb where
    s: "pks \<noteq> []" "EncryptAES C k p ra = Ok (ct, rb)"
      "list_all2 (\<lambda>pk c. \<exists>ra rb. rsa_encrypt C pk k ra = Ok (c, rb)) pks cs"
      "w = Join (map EncodeToString cs) [semi] @ [colon] @ EncodeToString ct" by blast
  then have "cs \<noteq> []" by auto
  moreover have "ct \<noteq> []" using s(2) by (auto simp: EncryptAES_def bind_res_eq_Ok split: if_splits)
  ultimately show ?thesis using s(3,4) list_all2_rsa_length onion_line_wire by blast
qed

lemma encryptForNode_opens:
  assumes "encryptForNode C p (PublicOf C sk) r = Ok (w, r')"
  shows "BroadcastDecrypt C w sk = Ok p"
proof -
  from BroadcastEncrypt_shape [OF assms [unfolded encryptForNode_group_of_one]]
  obtain k ct c ra rb rc rd where "EncryptAES C k p ra = Ok (ct, rb)"
    and "rsa_encrypt C (PublicOf C sk) k rc = Ok (c, rd)"
    and "w = Join (map EncodeToString [c]) [semi] @ [colon] @ EncodeToString ct"
    by (auto simp: list_all2_Cons1)
  then show ?thesis
    using BroadcastDecrypt_wire [of "[c]" C ct sk] rsa_encrypt_decrypt DecryptAES_EncryptAES by simp
qed

lemma encrypt_keys_ok:
  assumes "length k = AesKeySize" and "list_all (\<lambda>pk. \<exists>sk. pk = PublicOf C sk) pks" and "SeedSize * length pks \<le> length r"
  shows "\<exists>eks. encrypt_keys C k pks r = Ok (eks, drop (SeedSize * length pks) r)"
  using assms(2,3)
proof (induction pks arbitrary: r)
  case (Cons pk pks)
  then obtain sk where "pk = PublicOf C sk" by auto
  with rsa_encrypt_ok [OF assms(1), of r sk] Cons.prems(2) obtain c
    where c: "rsa_encrypt C pk k r = Ok (c, drop SeedSize r)" by auto
  have "SeedSize * length pks \<le> length (drop SeedSize r)" using Cons.prems(2) by simp
  from Cons.IH [OF _ this] Cons.prems(1) obtain eks
    where "encrypt_keys C k pks (drop SeedSize r) = Ok (eks, drop (SeedSize * length pks) (drop SeedSize r))"
    by auto
  with c show ?case by (simp add: add.commute)
qed simp

lemma BroadcastEncrypt_ok:
  assumes "pks \<noteq> []" and "list_all (\<lambda>pk. \<exists>sk. pk = PublicOf C sk) pks" and "44 + 32 * length pks \<le> length r"
  shows "\<exists>w. BroadcastEncrypt C p pks r = Ok (w, drop (44 + 32 * length pks) r)"
proof -
  have "length (take AesKeySize r) = AesKeySize" and "SeedSize * length pks \<le> length (drop 44 r)"
    using assms(3) by simp_all
  from encrypt_keys_ok [OF this(1) assms(2) this(2)] assms(1,3) show ?thesis
    by (auto simp: BroadcastEncrypt_def EncryptAES_def aes_key_def ReadFull_def add.commute)
qed

end

sublocale crypto_laws \<subseteq> node_env: envelope_total
  "\<lambda>pk p r. encryptForNode C p pk r" "\<lambda>sk w. BroadcastDecrypt C w sk" "\<lambda>sk pk. PublicOf C sk = pk"
  "\<lambda>pk. \<exists>sk. pk = PublicOf C sk" "\<lambda>pk. 76"
  by unfold_locales
    (use encryptForNode_opens BroadcastEncrypt_line BroadcastEncrypt_ok [of "[_]"]
      in \<open>auto simp: encryptForNode_group_of_one\<close>)

context crypto_sep
begin

lemma try_keys_list_all2:
  assumes "list_all2 (\<lambda>pk c. \<exists>ra rb. rsa_encrypt C pk k ra = Ok (c, rb)) pks cs"
  shows "try_keys C sk (map EncodeToString cs) = (if PublicOf C sk \<in> set pks then Some k else None)"
  using assms
proof (induction rule: list_all2_induct)
  case (Cons pk pks c cs)
  then obtain ra rb where enc: "rsa_encrypt C pk k ra = Ok (c, rb)" by blast
  show ?case
  proof (cases "pk = PublicOf C sk")
    case True
    with enc rsa_encrypt_decrypt show ?thesis by simp
  next
    case False
    with enc Cons rsa_encrypt_wrong_key show ?thesis by simp
  qed
qed simp

lemma BroadcastDecrypt_BroadcastEncrypt:
  assumes "BroadcastEncrypt C p pks r = Ok (w, r')"
  shows "BroadcastDecrypt C w sk = (if PublicOf C sk \<in> set pks then Ok p else Err ErrNoMatchingKey)"
proof -
  from BroadcastEncrypt_shape [OF assms] obtain k ct cs ra rb where
    s: "pks \<noteq> []" "EncryptAES C k p ra = Ok (ct, rb)"
      "list_all2 (\<lambda>pk c. \<exists>ra rb. rsa_encrypt C pk k ra = Ok (c, rb)) pks cs"
      "w = Join (map EncodeToString cs) [semi] @ [colon] @ EncodeToString ct" by blast
  then have "cs \<noteq> []" by auto
  with s show ?thesis
    by (simp add: BroadcastDecrypt_wire try_keys_list_all2 DecryptAES_EncryptAES del: append_Cons)
qed

end

sublocale crypto_sep \<subseteq> group_env: envelope_total
  "\<lambda>pks p r. BroadcastEncrypt C p pks r" "\<lambda>sk w. BroadcastDecrypt C w sk" "\<lambda>sk pks. PublicOf C sk \<in> set pks"
  "\<lambda>pks. pks \<noteq> [] \<and> list_all (\<lambda>pk. \<exists>sk. pk = PublicOf C sk) pks" "\<lambda>pks. 44 + 32 * length pks"
  by unfold_locales (auto simp: BroadcastDecrypt_BroadcastEncrypt BroadcastEncrypt_ok intro: BroadcastEncrypt_line)



section \<open>Properties\<close>

text \<open>
  C15: an envelope broadcast to a group opens, for every member's private key, to exactly the
  plaintext, and for every other key fails with the no-matching-key error.
\<close>

theorem broadcast_members_only:
  assumes "crypto_sep C" and "BroadcastEncrypt C p pks r = Ok (w, r')"
  shows "BroadcastDecrypt C w sk = (if PublicOf C sk \<in> set pks then Ok p else Err ErrNoMatchingKey)"
  using crypto_sep.BroadcastDecrypt_BroadcastEncrypt [OF assms] .

theorem broadcast_members_only_witness:
  "\<exists>w r'. BroadcastEncrypt ideal_crypto ''hello'' [1, 2, 3] (replicate 140 (CHR ''r'')) = Ok (w, r') \<and>
     BroadcastDecrypt ideal_crypto w 2 = Ok ''hello'' \<and>
     BroadcastDecrypt ideal_crypto w 7 = Err ErrNoMatchingKey"
proof -
  have "\<exists>w r'. BroadcastEncrypt ideal_crypto ''hello'' [1, 2, 3] (replicate 140 (CHR ''r'')) = Ok (w, r')"
    by (simp add: BroadcastEncrypt_def EncryptAES_def rsa_encrypt_def ReadFull_def aes_key_def ideal_crypto_def)
  then obtain w r' where
    w: "BroadcastEncrypt ideal_crypto ''hello'' [1, 2, 3] (replicate 140 (CHR ''r'')) = Ok (w, r')" by blast
  have "PublicOf ideal_crypto k = k" for k by (simp add: ideal_crypto_def)
  with w broadcast_members_only [OF ideal.crypto_sep_axioms w, of 2]
    broadcast_members_only [OF ideal.crypto_sep_axioms w, of 7] show ?thesis by auto
qed

lemma encrypt_keys_rand:
  assumes "crypto_laws C" and "length k = AesKeySize" and "\<forall>pk \<in> set pks. \<exists>sk. pk = PublicOf C sk"
  shows "(\<exists>eks r'. encrypt_keys C k pks r = Ok (eks, r')) \<longleftrightarrow> SeedSize * length pks \<le> length r"
  using assms(3)
proof (induction pks arbitrary: r)
  case (Cons pk pks)
  then obtain sk where pk: "pk = PublicOf C sk" by auto
  show ?case
  proof (cases "SeedSize \<le> length r")
    case True
    from crypto_laws.rsa_encrypt_ok [OF assms(1,2) this] pk obtain c
      where c: "rsa_encrypt C pk k r = Ok (c, drop SeedSize r)" by blast
    have "(\<exists>eks r'. encrypt_keys C k (pk # pks) r = Ok (eks, r')) \<longleftrightarrow>
      (\<exists>eks r'. encrypt_keys C k pks (drop SeedSize r) = Ok (eks, r'))"
      using c by (auto simp: bind_res_eq_Ok)
    with Cons True show ?thesis by auto
  next
    case False
    then have "rsa_encrypt C pk k r = Err ErrRand" by (simp add: rsa_encrypt_def ReadFull_def)
    with False show ?thesis by simp
  qed
qed simp

text \<open>
  With RSA keys of usable size, broadcast encryption returns an envelope exactly when the random
  source delivers 44 bytes for the AES key and nonce and 32 for each member: the random source is
  the only way it can fail.
\<close>

theorem broadcast_succeeds_iff_random:
  assumes "crypto_laws C" and "pks \<noteq> []" and "\<forall>pk \<in> set pks. \<exists>sk. pk = PublicOf C sk"
  shows "(\<exists>w r'. BroadcastEncrypt C p pks r = Ok (w, r')) \<longleftrightarrow> 44 + 32 * length pks \<le> length r"
proof (cases "44 \<le> length r")
  case True
  let ?k = "take AesKeySize r" and ?r = "drop NonceSize (drop AesKeySize r)"
  from True have k: "length ?k = AesKeySize" by simp
  have "(\<exists>w r'. BroadcastEncrypt C p pks r = Ok (w, r')) \<longleftrightarrow>
    (\<exists>eks r'. encrypt_keys C ?k pks ?r = Ok (eks, r'))"
    using assms(2) True k
    by (auto simp: BroadcastEncrypt_def EncryptAES_def aes_key_def ReadFull_def bind_res_eq_Ok)
  also have "\<dots> \<longleftrightarrow> 44 + 32 * length pks \<le> length r"
    using encrypt_keys_rand [OF assms(1) k assms(3)] True by auto
  finally show ?thesis .
next
  case False
  then show ?thesis
    using assms(2) by (auto simp: BroadcastEncrypt_def EncryptAES_def ReadFull_def bind_res_eq_Ok split: if_splits)
qed

theorem broadcast_succeeds_iff_random_witness:
  "(\<exists>w r'. BroadcastEncrypt ideal_crypto ''m'' [1, 2] (replicate 108 (CHR ''r'')) = Ok (w, r')) \<and>
   \<not> (\<exists>w r'. BroadcastEncrypt ideal_crypto ''m'' [1, 2] (replicate 107 (CHR ''r'')) = Ok (w, r'))"
proof -
  have "\<forall>pk \<in> set [1, 2]. \<exists>sk. pk = PublicOf ideal_crypto sk" by (simp add: ideal_crypto_def)
  then show ?thesis
    using broadcast_succeeds_iff_random [OF ideal.crypto_laws_axioms, of "[1, 2]" "''m''"] by simp
qed

text \<open>
  A line that carries a valid encrypted AES key for a node and fewer than twelve payload bytes
  makes the node's decryption panic: anyone who knows the public key can build it.
\<close>

theorem short_payload_panics:
  assumes "crypto_laws C" and "rsa_encrypt C (PublicOf C sk) k r = Ok (c, r')" and "aes_key k"
    and "length ct < NonceSize"
  shows "BroadcastDecrypt C (EncodeToString c @ [colon] @ EncodeToString ct) sk = Panic"
  using BroadcastDecrypt_wire [of "[c]" C ct sk] crypto_laws.rsa_encrypt_decrypt [OF assms(1,2)] assms(3,4)
  by (simp add: DecryptAES_def)

theorem short_payload_panics_witness:
  "\<exists>c. BroadcastDecrypt ideal_crypto (EncodeToString c @ [colon] @ EncodeToString ''abc'') 1 = Panic"
proof -
  obtain c where "rsa_encrypt ideal_crypto (PublicOf ideal_crypto 1) (replicate 32 (CHR ''K'')) (replicate 32 (CHR ''r''))
    = Ok (c, [])"
    using ideal.rsa_encrypt_ok [of "replicate 32 (CHR ''K'')" "replicate 32 (CHR ''r'')" 1] by auto
  from short_payload_panics [OF ideal.crypto_laws_axioms this, of "''abc''"] show ?thesis
    by (auto simp: aes_key_def)
qed

end
