(* ===== verification/GoNumbers.thy ===== *)
theory GoNumbers
  imports GoStrings
begin

text \<open>
  \<open>strconv.Atoi\<close> and \<open>strconv.Itoa\<close> (also \<open>%d\<close> of \<open>fmt.Sprintf\<close>) on 64-bit integers, with the
  values Go returns beside an error: 0 on a syntax error, the nearest bound on overflow.
\<close>

section \<open>Printing\<close>

definition digit :: "nat \<Rightarrow> char" where
  "digit d = char_of (48 + d)"

fun nat_digits :: "nat \<Rightarrow> string" where
  "nat_digits n = (if n < 10 then [digit n] else nat_digits (n div 10) @ [digit (n mod 10)])"

declare nat_digits.simps [simp del]

definition Itoa :: "int \<Rightarrow> string" where
  "Itoa i = (if i < 0 then CHR ''-'' # nat_digits (nat (- i)) else nat_digits (nat i))"


section \<open>Parsing\<close>

datatype num_error = ErrSyntax | ErrRange

definition digit_val :: "char \<Rightarrow> nat option" where
  "digit_val c = (let n = of_char c in if 48 \<le> n \<and> n \<le> 57 then Some (n - 48) else None)"

text \<open>
  \<open>strconv.ParseUint\<close> in base 10: digits accumulate until one is not a digit or the value leaves
  64 bits, whichever comes first.
\<close>

fun parse_uint :: "nat \<Rightarrow> string \<Rightarrow> num_error + nat" where
  "parse_uint n [] = Inr n"
| "parse_uint n (c # cs) =
     (case digit_val c of
        None \<Rightarrow> Inl ErrSyntax
      | Some d \<Rightarrow> (if 2 ^ 64 \<le> n * 10 + d then Inl ErrRange else parse_uint (n * 10 + d) cs))"

definition Atoi :: "string \<Rightarrow> int \<times> num_error option" where
  "Atoi s =
     (let neg = (s \<noteq> [] \<and> hd s = CHR ''-'');
          body = (if s \<noteq> [] \<and> (hd s = CHR ''-'' \<or> hd s = CHR ''+'') then tl s else s)
      in if body = [] then (0, Some ErrSyntax)
         else case parse_uint 0 body of
             Inl ErrSyntax \<Rightarrow> (0, Some ErrSyntax)
           | Inl ErrRange \<Rightarrow>
               (if neg then - (2 ^ 63) else 2 ^ 63 - 1, Some ErrRange)
           | Inr n \<Rightarrow>
               (if neg
                then if 2 ^ 63 < n then (- (2 ^ 63), Some ErrRange) else (- int n, None)
                else if 2 ^ 63 \<le> n then (2 ^ 63 - 1, Some ErrRange) else (int n, None)))"


section \<open>Round trip and character set\<close>

lemma of_char_digit [simp]: "d < 10 \<Longrightarrow> of_char (digit d) = 48 + d"
  by (simp add: digit_def)

lemma digit_val_digit [simp]: "d < 10 \<Longrightarrow> digit_val (digit d) = Some d"
  by (simp add: digit_val_def)

lemma printable_digit [simp]: "d < 10 \<Longrightarrow> printable (digit d)"
  by (simp add: printable_def)

lemma digit_neq: "d < 10 \<Longrightarrow> of_char c < (48::nat) \<or> 57 < (of_char c :: nat) \<Longrightarrow> digit d \<noteq> c"
  using of_char_digit [of d] by fastforce

lemma nat_digits_neq_Nil [simp]: "nat_digits n \<noteq> []"
  by (subst nat_digits.simps) simp

lemma nat_digits_digits: "c \<in> set (nat_digits n) \<Longrightarrow> \<exists>d < 10. c = digit d"
proof (induction n arbitrary: c rule: nat_digits.induct)
  case (1 n)
  show ?case
  proof (cases "n < 10")
    case True
    with 1 show ?thesis by (auto simp: nat_digits.simps [of n])
  next
    case False
    with "1.prems" consider "c \<in> set (nat_digits (n div 10))" | "c = digit (n mod 10)"
      by (auto simp: nat_digits.simps [of n])
    then show ?thesis
    proof cases
      case 1
      with "1.IH" False show ?thesis by blast
    next
      case 2
      then show ?thesis by (intro exI [of _ "n mod 10"]) simp
    qed
  qed
qed

lemma digits_not_sep:
  "of_char c < (48::nat) \<or> 57 < (of_char c :: nat) \<Longrightarrow> c \<notin> set (nat_digits n)"
  using nat_digits_digits digit_neq by blast

lemma Itoa_not_sep:
  assumes "of_char c < (48::nat) \<or> 57 < (of_char c :: nat)" and "c \<noteq> CHR ''-''"
  shows "c \<notin> set (Itoa i)"
  using assms digits_not_sep by (auto simp: Itoa_def)

lemma Itoa_no [simp]:
  "CHR '':'' \<notin> set (Itoa i)" "CHR ''|'' \<notin> set (Itoa i)" "CHR '','' \<notin> set (Itoa i)"
  "CHR ''/'' \<notin> set (Itoa i)" "nl \<notin> set (Itoa i)"
  by (rule Itoa_not_sep; simp)+

lemma Itoa_neq_Nil [simp]: "Itoa i \<noteq> []"
  by (simp add: Itoa_def)

lemma last_nat_digits: "printable (last (nat_digits n))"
  using nat_digits_digits [of "last (nat_digits n)" n] by auto

lemma last_Itoa [simp]: "printable (last (Itoa i))"
  by (simp add: Itoa_def last_nat_digits)

lemma parse_uint_append:
  "parse_uint n (xs @ ys) = (case parse_uint n xs of Inl e \<Rightarrow> Inl e | Inr m \<Rightarrow> parse_uint m ys)"
  by (induction n xs rule: parse_uint.induct) (auto split: option.split)

lemma parse_uint_nat_digits: "n < 2 ^ 64 \<Longrightarrow> parse_uint 0 (nat_digits n) = Inr n"
proof (induction n rule: nat_digits.induct)
  case (1 n)
  show ?case
  proof (cases "n < 10")
    case True
    then show ?thesis by (simp add: nat_digits.simps [of n])
  next
    case False
    with 1 have "parse_uint 0 (nat_digits (n div 10)) = Inr (n div 10)" by simp
    moreover have "n div 10 * 10 + n mod 10 = n" by simp
    ultimately show ?thesis
      using False 1 by (simp add: nat_digits.simps [of n] parse_uint_append)
  qed
qed

lemma hd_nat_digits:
  "of_char c < (48::nat) \<or> 57 < (of_char c :: nat) \<Longrightarrow> hd (nat_digits n) \<noteq> c"
  using digits_not_sep [of c n] hd_in_set [OF nat_digits_neq_Nil, of n] by auto

theorem Atoi_Itoa:
  assumes "- (2 ^ 63) \<le> i" and "i < 2 ^ 63"
  shows "Atoi (Itoa i) = (i, None)"
proof (cases "i < 0")
  case True
  have "nat (- i) \<le> 2 ^ 63" "nat (- i) < 2 ^ 64" using assms by (simp_all add: nat_le_iff nat_less_iff)
  with True show ?thesis
    by (simp add: Atoi_def Itoa_def parse_uint_nat_digits)
next
  case False
  have "nat i < 2 ^ 63" "nat i < 2 ^ 64" using assms by (simp_all add: nat_less_iff)
  with False show ?thesis
    by (simp add: Atoi_def Itoa_def parse_uint_nat_digits hd_nat_digits Let_def)
qed

lemma Atoi_bounds: "- (2 ^ 63) \<le> fst (Atoi s) \<and> fst (Atoi s) < 2 ^ 63"
  by (auto simp: Atoi_def Let_def split: sum.splits num_error.splits)

lemma Itoa_inject:
  assumes "Itoa i = Itoa j" and "- (2 ^ 63) \<le> i" "i < 2 ^ 63" "- (2 ^ 63) \<le> j" "j < 2 ^ 63"
  shows "i = j"
  using assms Atoi_Itoa by (metis prod.inject)

end
