(* ===== verification/OnionLayer.thy ===== *)
theory OnionLayer
  imports GoNumbers
begin

text \<open>
  \<open>model/OnionLayer.go\<close>: the record that travels inside each encrypted envelope, its
  pipe-separated text form (seven fields, or six in the older format), and message identifiers.
\<close>

section \<open>Layers and their text\<close>

record OnionLayer =
  Type :: string      \<comment> \<open>\<open>RELAY\<close>, \<open>FINAL\<close> or \<open>ACK\<close>\<close>
  MsgID :: string
  Next :: string
  From :: string
  Data :: string
  Frag :: string      \<comment> \<open>\<open>fragID:i/n\<close>, empty for an unfragmented message\<close>
  Message :: string

definition OnionlayerToString :: "OnionLayer \<Rightarrow> string" where
  "OnionlayerToString layer =
     Type layer @ pipe # MsgID layer @ pipe # Next layer @ pipe # From layer @ pipe #
     Data layer @ pipe # Frag layer @ pipe # Message layer"

definition StringToOnionLayer :: "string \<Rightarrow> OnionLayer res" where
  "StringToOnionLayer str =
     (let parts = SplitN pipe 7 str in
      if length parts < 6 then Err ErrSplit
      else let ol = \<lparr>Type = parts ! 0, MsgID = parts ! 1, Next = parts ! 2, From = parts ! 3,
                     Data = parts ! 4, Frag = [], Message = []\<rparr>
           in if length parts = 7
              then Ok (ol\<lparr>Frag := parts ! 5, Message := parts ! 6\<rparr>)
              else Ok (ol\<lparr>Message := parts ! 5\<rparr>))"

text \<open>The empty layer of Go, to be filled field by field.\<close>

definition zero_layer :: OnionLayer where
  "zero_layer = \<lparr>Type = [], MsgID = [], Next = [], From = [], Data = [], Frag = [], Message = []\<rparr>"


section \<open>Identifiers\<close>

text \<open>
  \<open>rand.Int(rand.Reader, big.NewInt(10))\<close> reads a byte, keeps its low four bits and rejects values
  from 10 on. The source ignores its error and would then dereference a nil \<open>*big.Int\<close>.
\<close>

fun rand_Int10 :: "rng \<Rightarrow> (nat \<times> rng) res" where
  "rand_Int10 [] = Panic"
| "rand_Int10 (b # r) = (let v = of_char b mod 16 in if v < 10 then Ok (v, r) else rand_Int10 r)"

fun id_digits :: "nat \<Rightarrow> rng \<Rightarrow> (string \<times> rng) res" where
  "id_digits 0 r = Ok ([], r)"
| "id_digits (Suc n) r =
     bind_res (rand_Int10 r) (\<lambda>(d, r1).
     bind_res (id_digits n r1) (\<lambda>(ds, r2). Ok (digit d # ds, r2)))"

definition GenerateMsgID :: "string list \<Rightarrow> rng \<Rightarrow> (string \<times> rng) res" where
  "GenerateMsgID prefix r =
     (let str = (if prefix \<noteq> [] \<and> hd prefix \<noteq> [] then hd prefix @ ''-'' else ''msg-'')
      in bind_res (id_digits 10 r) (\<lambda>(ds, r'). Ok (str @ ds, r')))"


section \<open>Parsing and printing\<close>

lemma SplitN7: "SplitN c 7 s = SplitN c (Suc (Suc (Suc (Suc (Suc (Suc (Suc 0))))))) s"
  by (simp add: numeral_eq_Suc)

lemma count_SplitN:
  "length (SplitN c (Suc n) s) = (if count_list s c < n then Suc (count_list s c) else Suc n)"
proof (induction c "Suc n" s arbitrary: n rule: SplitN.induct)
  case (2 c s)
  then show ?case by simp
next
  case (3 c n s)
  show ?case
  proof (cases "c \<in> set s")
    case True
    have "count_list s c = Suc (count_list (tl (dropWhile (\<lambda>x. x \<noteq> c) s)) c)"
      using True by (induction s) auto
    with 3 True show ?thesis by (simp add: SplitN.simps(3))
  next
    case False
    then show ?thesis by (simp add: SplitN.simps(3) count_list_0_iff)
  qed
qed

lemma StringToOnionLayer_print:
  assumes "pipe \<notin> set (Type l)" "pipe \<notin> set (MsgID l)" "pipe \<notin> set (Next l)" "pipe \<notin> set (From l)"
    "pipe \<notin> set (Data l)" "pipe \<notin> set (Frag l)"
  shows "StringToOnionLayer (OnionlayerToString l) = Ok l"
  using assms by (simp add: StringToOnionLayer_def OnionlayerToString_def SplitN7 Let_def)

lemma StringToOnionLayer_fields:
  assumes "StringToOnionLayer s = Ok l"
  shows "pipe \<notin> set (Type l)" "pipe \<notin> set (MsgID l)" "pipe \<notin> set (Next l)" "pipe \<notin> set (From l)"
    "pipe \<notin> set (Data l)" "pipe \<notin> set (Frag l)"
  using assms SplitN_piece_no_sep [of _ pipe 7 s]
  by (auto simp: StringToOnionLayer_def Let_def split: if_splits)

text \<open>
  C39: printing a layer and parsing the text gives the layer back exactly when none of its first six
  fields holds a pipe; the message itself may hold any byte.
\<close>

theorem onion_layer_roundtrip:
  "StringToOnionLayer (OnionlayerToString l) = Ok l \<longleftrightarrow>
   pipe \<notin> set (Type l) \<and> pipe \<notin> set (MsgID l) \<and> pipe \<notin> set (Next l) \<and> pipe \<notin> set (From l) \<and>
   pipe \<notin> set (Data l) \<and> pipe \<notin> set (Frag l)"
  using StringToOnionLayer_print StringToOnionLayer_fields by blast

text \<open>
  Parsing fails exactly on text with fewer than five pipes; it never panics.
\<close>

theorem onion_layer_parse_error:
  "(StringToOnionLayer s = Err ErrSplit \<longleftrightarrow> count_list s pipe < 5) \<and>
   (StringToOnionLayer s \<noteq> Err ErrSplit \<longleftrightarrow> (\<exists>l. StringToOnionLayer s = Ok l))"
  using count_SplitN [of pipe 6 s] by (auto simp: StringToOnionLayer_def Let_def split: if_splits)

text \<open>
  Text in the older six-field format (exactly five pipes) is read with an empty fragment field
  and the text after the fifth pipe as the message.
\<close>

theorem onion_layer_legacy:
  assumes "pipe \<notin> set t" "pipe \<notin> set i" "pipe \<notin> set n" "pipe \<notin> set f" "pipe \<notin> set d" "pipe \<notin> set m"
  shows "StringToOnionLayer (Join [t, i, n, f, d, m] ''|'') =
    Ok \<lparr>Type = t, MsgID = i, Next = n, From = f, Data = d, Frag = [], Message = m\<rparr>"
  using assms by (simp add: StringToOnionLayer_def SplitN7 Let_def)

theorem onion_layer_legacy_witness:
  "StringToOnionLayer (Join [''RELAY'', ''msg-123'', ''192.168.1.1:80'', ''192.168.1.2:80'', ''datadata'', ''hello''] ''|'') =
   Ok \<lparr>Type = ''RELAY'', MsgID = ''msg-123'', Next = ''192.168.1.1:80'', From = ''192.168.1.2:80'',
       Data = ''datadata'', Frag = [], Message = ''hello''\<rparr>"
  by (rule onion_layer_legacy) simp_all


section \<open>The shape of identifiers\<close>

lemma rand_Int10_less: "rand_Int10 r = Ok (d, r') \<Longrightarrow> d < 10"
  by (induction r rule: rand_Int10.induct) (auto simp: Let_def split: if_splits)

lemma id_digits_shape:
  "id_digits n r = Ok (ds, r') \<Longrightarrow> length ds = n \<and> (\<forall>c \<in> set ds. \<exists>d < 10. c = digit d)"
  by (induction n arbitrary: r ds r') (auto simp: bind_res_eq_Ok dest!: rand_Int10_less)

lemma GenerateMsgID_shape:
  assumes "GenerateMsgID prefix r = Ok (i, r')"
  shows "\<exists>ds. i = (if prefix \<noteq> [] \<and> hd prefix \<noteq> [] then hd prefix @ ''-'' else ''msg-'') @ ds \<and>
    length ds = 10 \<and> (\<forall>c \<in> set ds. \<exists>d < 10. c = digit d)"
  using assms by (auto simp: GenerateMsgID_def bind_res_eq_Ok dest: id_digits_shape)

lemma digits_avoid:
  "\<forall>c \<in> set ds. \<exists>d < 10. c = digit d \<Longrightarrow> of_char c < (48::nat) \<or> 57 < (of_char c :: nat) \<Longrightarrow> c \<notin> set ds"
  using digit_neq by fastforce

end
