(* ===== verification/Node.thy ===== *)
theory Node
  imports Broadcast OnionLayer Expiry
begin

text \<open>
  The node of \<open>model/Node.go\<close>: its state, replay protection, and the handler a listening node runs
  for each connection (\<open>handlerroutine\<close>): the key request, a NACK, and the RELAY, FINAL and ACK
  layers of an onion.

  The maps of the node are guarded by mutexes and each handler runs as one step here. Channels of
  \<open>PendingACKs\<close> have capacity one and are numbered: \<open>Chans\<close> holds what is buffered in each.
  Connections to other nodes are the environment: \<open>dial i a\<close> says whether the \<open>i\<close>-th send of the
  handler, to address \<open>a\<close>, succeeds, and the handler returns the log of its sends. The latency
  simulation of \<open>SendTo\<close> and all logging have no effect on the state and are left out.
\<close>

section \<open>State\<close>

record Nackstruct =
  PrevNackID :: string
  PrevNodeAddr :: string

record ('pk, 'sk) Node =
  ID :: string
  Port :: int
  PrivateKey :: 'sk
  PublicKey :: 'pk
  ServerAddr :: string
  NodeIP :: string
  PendingACKs :: "string \<rightharpoonup> nat"
  PendingRelays :: "string \<rightharpoonup> Nackstruct"
  FragBuf :: "string \<rightharpoonup> (int \<times> string) list"
  FragTotal :: "string \<rightharpoonup> int"
  SeenMsgs :: "string \<rightharpoonup> time"
  ReceivedMsgs :: "string list"
  Chans :: "nat \<Rightarrow> bool list"

text \<open>
  \<open>NewNode\<close> of \<open>node/main.go\<close>, given the generated private key and the port the listener got; nil
  maps are empty maps.
\<close>

definition NewNode :: "('pk, 'sk) crypto \<Rightarrow> string \<Rightarrow> string \<Rightarrow> 'sk \<Rightarrow> int \<Rightarrow> ('pk, 'sk) Node" where
  "NewNode C ident serverAddr privateKey port =
     \<lparr>ID = ident, Port = port, PrivateKey = privateKey, PublicKey = PublicOf C privateKey,
      ServerAddr = serverAddr, NodeIP = [], PendingACKs = Map.empty, PendingRelays = Map.empty,
      FragBuf = Map.empty, FragTotal = Map.empty, SeenMsgs = Map.empty, ReceivedMsgs = [],
      Chans = (\<lambda>_. [])\<rparr>"

type_synonym sends = "(addr \<times> string \<times> bool) list"
type_synonym dialer = "nat \<Rightarrow> addr \<Rightarrow> bool"
type_synonym ('pk, 'sk) handled = "(('pk, 'sk) Node \<times> sends \<times> bytes) res"


section \<open>Replay protection\<close>

definition seenMsg :: "time \<Rightarrow> string \<Rightarrow> ('pk, 'sk) Node \<Rightarrow> bool \<times> ('pk, 'sk) Node" where
  "seenMsg now msgID n =
     (if SeenMsgs n msgID \<noteq> None then (True, n)
      else (False, n\<lparr>SeenMsgs := (SeenMsgs n)(msgID \<mapsto> now)\<rparr>))"

text \<open>One pass of the eviction goroutine started by \<open>StartNode\<close>.\<close>

definition seen_expired :: "time \<Rightarrow> time \<Rightarrow> bool" where
  "seen_expired now t \<longleftrightarrow> 30 * Second < now - t"

definition evict_seen :: "time \<Rightarrow> (string \<rightharpoonup> time) \<Rightarrow> (string \<rightharpoonup> time)" where
  "evict_seen now m = (\<lambda>i. case m i of None \<Rightarrow> None | Some t \<Rightarrow> if seen_expired now t then None else Some t)"

definition StartNode_evict :: "time \<Rightarrow> ('pk, 'sk) Node \<Rightarrow> ('pk, 'sk) Node" where
  "StartNode_evict now n = n\<lparr>SeenMsgs := evict_seen now (SeenMsgs n)\<rparr>"

interpretation seen_set: expiring_map "\<lambda>k t m. m(k \<mapsto> t)" evict_seen seen_expired
  by unfold_locales (auto simp: evict_seen_def seen_expired_def split: option.split)


section \<open>Sending\<close>

definition SendTo :: "dialer \<Rightarrow> addr \<Rightarrow> string \<Rightarrow> sends \<Rightarrow> bool \<times> sends" where
  "SendTo dial a msg log = (let ok = dial (length log) a in (ok, log @ [(a, msg, ok)]))"

text \<open>The loops over candidate addresses: stop at the first send that succeeds.\<close>

fun send_first :: "dialer \<Rightarrow> addr list \<Rightarrow> string \<Rightarrow> sends \<Rightarrow> bool \<times> sends" where
  "send_first dial [] msg log = (False, log)"
| "send_first dial (a # as) msg log =
     (let (ok, log') = SendTo dial a msg log
      in if ok then (True, log') else send_first dial as msg log')"

text \<open>A send on a full channel blocks.\<close>

definition chan_send :: "nat \<Rightarrow> bool \<Rightarrow> ('pk, 'sk) Node \<Rightarrow> ('pk, 'sk) Node res" where
  "chan_send ch v n =
     (if Chans n ch = [] then Ok (n\<lparr>Chans := (Chans n)(ch := [v])\<rparr>) else Blocked)"


section \<open>The connection handler\<close>

definition handle_nack :: "dialer \<Rightarrow> string \<Rightarrow> ('pk, 'sk) Node \<Rightarrow> ('pk, 'sk) handled" where
  "handle_nack dial msgId n =
     (case PendingACKs n msgId of
        Some ch \<Rightarrow>
          bind_res (chan_send ch False n) (\<lambda>n'.
            Ok (n'\<lparr>PendingACKs := (PendingACKs n')(msgId := None)\<rparr>, [], []))
      | None \<Rightarrow>
          (let n' = n\<lparr>PendingRelays := (PendingRelays n)(msgId := None)\<rparr> in
           case PendingRelays n msgId of
             None \<Rightarrow> Ok (n', [], [])
           | Some nack \<Rightarrow>
               Ok (n', snd (send_first dial (ParseAddresses (PrevNodeAddr nack))
                              (''NACK:'' @ PrevNackID nack) []), [])))"

definition handle_relay ::
  "dialer \<Rightarrow> draws \<Rightarrow> OnionLayer \<Rightarrow> ('pk, 'sk) Node \<Rightarrow> ('pk, 'sk) handled" where
  "handle_relay dial ds layer n =
     (if colon \<notin> set (Next layer) then Ok (n, [], [])
      else let parts = SplitN colon 2 (MsgID layer) in
        if length parts \<noteq> 2 then Ok (n, [], [])
        else
          (let tosend = parts ! 0; toreceive = parts ! 1;
               n1 = n\<lparr>PendingRelays := (PendingRelays n)
                        (toreceive \<mapsto> \<lparr>PrevNackID = tosend, PrevNodeAddr = From layer\<rparr>)\<rparr>;
               nextAddrs = fst (Shuffle ds (ParseAddresses (Next layer)));
               (sent, log) = send_first dial nextAddrs (Data layer) []
           in if sent then Ok (n1, log, [])
              else Ok (n1\<lparr>PendingRelays := (PendingRelays n1)(toreceive := None)\<rparr>,
                       snd (send_first dial (ParseAddresses (From layer)) (''NACK:'' @ tosend) log),
                       [])))"

text \<open>
  \<open>for i := 1; i <= total; i++\<close> over the chunks: absent indices give the empty string, and with the
  largest 64-bit \<open>total\<close> the counter wraps and the loop never ends.
\<close>

definition assemble :: "int \<Rightarrow> (int \<times> string) list \<Rightarrow> string res" where
  "assemble tot buf =
     (if tot = 2 ^ 63 - 1 then Blocked
      else Ok (concat (map (\<lambda>i. case map_of buf i of None \<Rightarrow> [] | Some s \<Rightarrow> s) [1..tot])))"

definition store_fragment :: "OnionLayer \<Rightarrow> ('pk, 'sk) Node \<Rightarrow> ('pk, 'sk) Node res" where
  "store_fragment layer n =
     (let fp = SplitN colon 2 (Frag layer); fragID = fp ! 0 in
      bind_res (index fp 1) (\<lambda>rest.
        let ins = Split slash rest; idx = fst (Atoi (ins ! 0)) in
        bind_res (index ins 1) (\<lambda>t.
          let total = fst (Atoi t);
              buf = (case FragBuf n fragID of None \<Rightarrow> [] | Some b \<Rightarrow> b);
              expected = (case FragBuf n fragID of
                            None \<Rightarrow> total
                          | Some _ \<Rightarrow> (case FragTotal n fragID of None \<Rightarrow> 0 | Some e \<Rightarrow> e));
              buf' = AList.update idx (Message layer) buf
          in if int (length buf') = expected
             then bind_res (assemble total buf') (\<lambda>assembled.
                    Ok (n\<lparr>FragBuf := (FragBuf n)(fragID := None),
                          FragTotal := (FragTotal n)(fragID := None),
                          ReceivedMsgs := ReceivedMsgs n @ [assembled]\<rparr>))
             else Ok (n\<lparr>FragBuf := (FragBuf n)(fragID \<mapsto> buf'),
                        FragTotal := (case FragBuf n fragID of
                            None \<Rightarrow> (FragTotal n)(fragID \<mapsto> total)
                          | Some _ \<Rightarrow> FragTotal n)\<rparr>))))"

definition send_ack :: "dialer \<Rightarrow> draws \<Rightarrow> OnionLayer \<Rightarrow> sends" where
  "send_ack dial ds layer =
     (if Next layer \<noteq> [] \<and> Data layer \<noteq> []
      then let (sent, log) = send_first dial (fst (Shuffle ds (ParseAddresses (Next layer)))) (Data layer) []
           in if sent then log
              else snd (send_first dial (ParseAddresses (From layer)) (''NACK:'' @ MsgID layer) log)
      else [])"

definition handle_final ::
  "dialer \<Rightarrow> draws \<Rightarrow> OnionLayer \<Rightarrow> ('pk, 'sk) Node \<Rightarrow> ('pk, 'sk) handled" where
  "handle_final dial ds layer n =
     bind_res (if Frag layer \<noteq> [] then store_fragment layer n
               else Ok (n\<lparr>ReceivedMsgs := ReceivedMsgs n @ [Message layer]\<rparr>)) (\<lambda>n'.
       Ok (n', send_ack dial ds layer, []))"

definition handle_ack :: "OnionLayer \<Rightarrow> ('pk, 'sk) Node \<Rightarrow> ('pk, 'sk) handled" where
  "handle_ack layer n =
     (case PendingACKs n (MsgID layer) of
        Some ch \<Rightarrow>
          bind_res (chan_send ch True n) (\<lambda>n'.
            Ok (n'\<lparr>PendingACKs := (PendingACKs n')(MsgID layer := None)\<rparr>, [], []))
      | None \<Rightarrow> Ok (n, [], []))"

definition handle_layer ::
  "dialer \<Rightarrow> draws \<Rightarrow> time \<Rightarrow> OnionLayer \<Rightarrow> ('pk, 'sk) Node \<Rightarrow> ('pk, 'sk) handled" where
  "handle_layer dial ds now layer n =
     (let (dup, n') = (if Type layer = ''RELAY'' \<or> Type layer = ''FINAL''
                       then seenMsg now (MsgID layer) n else (False, n))
      in if dup then Ok (n', [], [])
         else if Type layer = ''RELAY'' then handle_relay dial ds layer n'
         else if Type layer = ''FINAL'' then handle_final dial ds layer n'
         else if Type layer = ''ACK'' then handle_ack layer n'
         else Ok (n', [], []))"

definition handle_line ::
  "('pk, 'sk) crypto \<Rightarrow> dialer \<Rightarrow> draws \<Rightarrow> time \<Rightarrow> string \<Rightarrow> ('pk, 'sk) Node \<Rightarrow> ('pk, 'sk) handled" where
  "handle_line C dial ds now line n =
     (if line = [] then Ok (n, [], [])
      else if line = ''GET_PUBKEY''
      then Ok (n, [], EncodeToString (case MarshalPKIX C (PublicKey n) of None \<Rightarrow> [] | Some b \<Rightarrow> b) @ [nl])
      else if HasPrefix line ''NACK:'' then handle_nack dial (drop 5 line) n
      else case BroadcastDecrypt C line (PrivateKey n) of
          Ok decrypted \<Rightarrow>
            (case StringToOnionLayer decrypted of
               Ok layer \<Rightarrow> handle_layer dial ds now layer n
             | _ \<Rightarrow> Ok (n, [], []))
        | Err _ \<Rightarrow> Ok (n, [], [])
        | Panic \<Rightarrow> Panic
        | Blocked \<Rightarrow> Blocked)"

definition handlerroutine ::
  "('pk, 'sk) crypto \<Rightarrow> dialer \<Rightarrow> draws \<Rightarrow> time \<Rightarrow> bytes \<Rightarrow> ('pk, 'sk) Node \<Rightarrow> ('pk, 'sk) handled" where
  "handlerroutine C dial ds now conn n =
     (case ReadString conn of
        Ok line \<Rightarrow> handle_line C dial ds now (TrimSpace line) n
      | _ \<Rightarrow> Ok (n, [], []))"



section \<open>Sends\<close>

text \<open>What reaches the network: the successful sends of a log, in order.\<close>

definition delivered :: "sends \<Rightarrow> (addr \<times> string) list" where
  "delivered log = map (\<lambda>(a, m, ok). (a, m)) (filter (\<lambda>(a, m, ok). ok) log)"

lemma delivered_simps [simp]:
  "delivered [] = []"
  "delivered (log @ log') = delivered log @ delivered log'"
  "delivered ((a, m, True) # log) = (a, m) # delivered log"
  "delivered ((a, m, False) # log) = delivered log"
  "delivered (map (\<lambda>x. (x, m, False)) as) = []"
  by (auto simp: delivered_def filter_empty_conv)

lemma send_first_cases:
  assumes "send_first dial as msg log = (sent, log')"
  obtains (sent) pre a post where "sent" "as = pre @ a # post"
      "log' = log @ map (\<lambda>x. (x, msg, False)) pre @ [(a, msg, True)]"
  | (failed) "\<not> sent" "log' = log @ map (\<lambda>x. (x, msg, False)) as"
  using assms
proof (induction as arbitrary: log thesis)
  case (Cons a as)
  show ?case
  proof (cases "dial (length log) a")
    case True
    with Cons.prems(1) [of "[]" a as] Cons.prems(3) show ?thesis by (auto simp: SendTo_def)
  next
    case False
    with Cons.prems(3) have s: "send_first dial as msg (log @ [(a, msg, False)]) = (sent, log')"
      by (simp add: SendTo_def)
    show ?thesis
    proof (rule Cons.IH [OF _ _ s])
      fix pre b post
      assume "sent" "as = pre @ b # post"
        "log' = (log @ [(a, msg, False)]) @ map (\<lambda>x. (x, msg, False)) pre @ [(b, msg, True)]"
      with Cons.prems(1) [of "a # pre" b post] show thesis by simp
    next
      assume "\<not> sent" "log' = (log @ [(a, msg, False)]) @ map (\<lambda>x. (x, msg, False)) as"
      with Cons.prems(2) show thesis by simp
    qed
  qed
qed simp

lemma send_first_up:
  "send_first (\<lambda>_. up) as msg log =
     (\<exists>a \<in> set as. up a,
      log @ map (\<lambda>x. (x, msg, False)) (takeWhile (\<lambda>a. \<not> up a) as) @
      (case filter up as of [] \<Rightarrow> [] | a # _ \<Rightarrow> [(a, msg, True)]))"
  by (induction as arbitrary: log) (auto simp: SendTo_def)

lemma delivered_send_first_up:
  "delivered (snd (send_first (\<lambda>_. up) as msg log)) =
     delivered log @ (case filter up as of [] \<Rightarrow> [] | a # _ \<Rightarrow> [(a, msg)])"
  by (simp add: send_first_up split: list.split)


section \<open>Opening a line\<close>

lemmas handle_layer_defs = handle_layer_def handle_relay_def handle_final_def handle_ack_def

lemma onion_lineD:
  assumes "onion_line w"
  shows "ReadString (w @ [nl]) = Ok (w @ [nl])" and "TrimSpace (w @ [nl]) = w" and "w \<noteq> []"
    and "w \<noteq> ''GET_PUBKEY''" and "\<not> HasPrefix w ''NACK:''"
  using assms by (auto simp: onion_line_def TrimSpace_line)

lemma handlerroutine_onion:
  assumes "onion_line w" and "BroadcastDecrypt C w (PrivateKey n) = Ok (OnionlayerToString l)"
    and "StringToOnionLayer (OnionlayerToString l) = Ok l"
  shows "handlerroutine C dial ds now (w @ [nl]) n = handle_layer dial ds now l n"
  using assms onion_lineD [OF assms(1)] by (simp add: handlerroutine_def handle_line_def)

lemma handlerroutine_nack:
  assumes "s \<noteq> []" and "printable (last s)" and "nl \<notin> set s"
  shows "handlerroutine C dial ds now (''NACK:'' @ s @ [nl]) n = handle_nack dial s n"
proof -
  define w where "w = ''NACK:'' @ s"
  have "w \<noteq> []" "printable (hd w)" "printable (last w)" "nl \<notin> set w"
    using assms by (auto simp: w_def printable_def)
  then have "ReadString (w @ [nl]) = Ok (w @ [nl])" and "TrimSpace (w @ [nl]) = w"
    by (simp_all add: TrimSpace_line)
  moreover have "HasPrefix w ''NACK:''" "drop 5 w = s" "w \<noteq> ''GET_PUBKEY''" "w \<noteq> []"
    by (simp_all add: w_def HasPrefix_def)
  ultimately have "handlerroutine C dial ds now (w @ [nl]) n = handle_nack dial s n"
    by (simp add: handlerroutine_def handle_line_def)
  then show ?thesis by (simp add: w_def)
qed



section \<open>Replay\<close>

lemma evict_SeenMsgs: "SeenMsgs (fold StartNode_evict ts n) = fold evict_seen ts (SeenMsgs n)"
  by (induction ts arbitrary: n) (simp_all add: StartNode_evict_def)

lemma evict_PrivateKey [simp]: "PrivateKey (fold StartNode_evict ts n) = PrivateKey n"
  by (induction ts arbitrary: n) (simp_all add: StartNode_evict_def)

lemma seen_after_sweeps:
  "(SeenMsgs (fold StartNode_evict ts (n\<lparr>SeenMsgs := (SeenMsgs n)(i \<mapsto> now)\<rparr>)) i \<noteq> None) \<longleftrightarrow>
   \<not> (\<exists>t \<in> set ts. 30 * Second < t - now)"
proof (cases "\<exists>t \<in> set ts. seen_expired t now")
  case True
  then show ?thesis
    using seen_set.expired_gone [OF True, of "(SeenMsgs n)(i \<mapsto> now)" i]
    by (auto simp: evict_SeenMsgs seen_expired_def)
next
  case False
  then show ?thesis
    using seen_set.fresh_survives [where ts = ts and v = now and k = i and m = "SeenMsgs n"] by (auto simp: evict_SeenMsgs seen_expired_def)
qed

text \<open>
  After a first sighting, and any sequence of eviction passes, the same identifier is reported as
  seen exactly as long as no pass ran more than thirty seconds after that first sighting.
\<close>

theorem seenMsg_window:
  assumes "\<not> fst (seenMsg now i n)"
  shows "fst (seenMsg now' i (fold StartNode_evict ts (snd (seenMsg now i n)))) \<longleftrightarrow>
    \<not> (\<exists>t \<in> set ts. 30 * Second < t - now)"
  using assms seen_after_sweeps [of ts n i now] by (auto simp: seenMsg_def split: if_splits)

theorem seenMsg_window_witness:
  "\<not> fst (seenMsg 0 ''a:b'' (NewNode ideal_crypto ''A'' [] 1 9000)) \<and>
   fst (seenMsg (31 * Second) ''a:b''
     (fold StartNode_evict [30 * Second] (snd (seenMsg 0 ''a:b'' (NewNode ideal_crypto ''A'' [] 1 9000)))))"
  using seenMsg_window [of 0 "''a:b''" "NewNode ideal_crypto ''A'' [] 1 9000" "31 * Second" "[30 * Second]"]
  by (simp add: seenMsg_def NewNode_def)

lemma handle_layer_seen:
  assumes "handle_layer dial ds now layer n = Ok (n1, log, rep)"
    and "Type layer = ''RELAY'' \<or> Type layer = ''FINAL''" and "SeenMsgs n (MsgID layer) = None"
  shows "SeenMsgs n1 = (SeenMsgs n)(MsgID layer \<mapsto> now)" and "PrivateKey n1 = PrivateKey n"
  using assms
  by (auto simp: handle_layer_defs seenMsg_def store_fragment_def Let_def bind_res_eq_Ok
      split: if_splits prod.splits)

text \<open>
  A connection that carries a RELAY or FINAL layer the node has just handled for the first time
  is dropped when it arrives again: the state does not change and nothing is sent, until an
  eviction pass more than thirty seconds later.
\<close>

theorem replay_dropped:
  assumes "ReadString conn = Ok line" and "\<not> HasPrefix (TrimSpace line) ''NACK:''"
    and "BroadcastDecrypt C (TrimSpace line) (PrivateKey n) = Ok d" and "StringToOnionLayer d = Ok layer"
    and "Type layer = ''RELAY'' \<or> Type layer = ''FINAL''" and "SeenMsgs n (MsgID layer) = None"
    and "handlerroutine C dial ds now conn n = Ok (n1, log, rep)"
    and "\<not> (\<exists>t \<in> set ts. 30 * Second < t - now)"
  shows "handlerroutine C dial' ds' now' conn (fold StartNode_evict ts n1) = Ok (fold StartNode_evict ts n1, [], [])"
proof -
  let ?m = "fold StartNode_evict ts n1"
  have nonempty: "TrimSpace line \<noteq> []" "TrimSpace line \<noteq> ''GET_PUBKEY''"
    using assms(3) by (auto simp: BroadcastDecrypt_def numeral_2_eq_2)
  with assms have h: "handle_layer dial ds now layer n = Ok (n1, log, rep)"
    by (simp add: handlerroutine_def handle_line_def)
  note n1 = handle_layer_seen [OF h assms(5,6)]
  have "n1 = n1\<lparr>SeenMsgs := (SeenMsgs n1)(MsgID layer \<mapsto> now)\<rparr>" using n1(1) by simp
  then have "SeenMsgs ?m (MsgID layer) \<noteq> None"
    using seen_after_sweeps [of ts n1 "MsgID layer" now] assms(8) by simp
  then have "handle_layer dial' ds' now' layer ?m = Ok (?m, [], [])"
    using assms(5) by (auto simp: handle_layer_def seenMsg_def)
  with assms(1-4) nonempty n1(2) show ?thesis by (simp add: handlerroutine_def handle_line_def)
qed

theorem replay_dropped_witness:
  "\<exists>conn n1. let n = NewNode ideal_crypto ''D'' [] 1 9000 in
     handlerroutine ideal_crypto (\<lambda>_ _. True) [] 0 conn n = Ok (n1, [], []) \<and> ReceivedMsgs n1 = [''hi''] \<and>
     handlerroutine ideal_crypto (\<lambda>_ _. True) [] 9 conn (fold StartNode_evict [20 * Second] n1) =
       Ok (fold StartNode_evict [20 * Second] n1, [], [])"
proof -
  let ?n = "NewNode ideal_crypto ''D'' [] 1 9000"
  let ?l = "zero_layer\<lparr>Type := ''FINAL'', MsgID := ''msg-1'', Message := ''hi''\<rparr>"
  let ?n1 = "?n\<lparr>SeenMsgs := [''msg-1'' \<mapsto> 0], ReceivedMsgs := [''hi'']\<rparr>"
  have key: "PublicOf ideal_crypto 1 = 1" "PrivateKey ?n = 1" by (simp_all add: ideal_crypto_def NewNode_def)
  obtain w r' where w: "encryptForNode ideal_crypto (OnionlayerToString ?l) (PublicOf ideal_crypto 1)
      (replicate 76 (CHR ''r'')) = Ok (w, r')"
    by (simp add: encryptForNode_def EncryptAES_def rsa_encrypt_def ReadFull_def aes_key_def ideal_crypto_def)
  note dec = ideal.encryptForNode_opens [OF w]
  have line: "onion_line w" using ideal.node_env.seal_line [OF w] .
  have parse: "StringToOnionLayer (OnionlayerToString ?l) = Ok ?l"
    by (rule StringToOnionLayer_print) (simp_all add: zero_layer_def)
  have run: "handlerroutine ideal_crypto (\<lambda>_ _. True) [] 0 (w @ [nl]) ?n = Ok (?n1, [], [])"
    using handlerroutine_onion [OF line _ parse, of ideal_crypto ?n] dec key
    by (simp add: handle_layer_def handle_final_def send_ack_def seenMsg_def NewNode_def zero_layer_def)
  have "handlerroutine ideal_crypto (\<lambda>_ _. True) [] 9 (w @ [nl]) (fold StartNode_evict [20 * Second] ?n1) =
      Ok (fold StartNode_evict [20 * Second] ?n1, [], [])"
    using onion_lineD [OF line] dec key
    by (intro replay_dropped [where line = "w @ [nl]", OF _ _ _ parse _ _ run]) (simp_all add: NewNode_def zero_layer_def)
  with run show ?thesis by (intro exI [of _ "w @ [nl]"] exI [of _ ?n1]) (simp add: Let_def)
qed


section \<open>Relaying\<close>

text \<open>
  C17: a relay that opens a fresh RELAY layer with identifier \<open>a:b\<close> either hands the inner payload to
  exactly one of the next addresses and remembers under \<open>b\<close> where to send a NACK, or, after
  failing to reach every one of them, forgets \<open>b\<close> and tries \<open>NACK:a\<close> on the previous addresses
  until one accepts it; it does nothing else.
\<close>

theorem relay_forwards_or_nacks:
  assumes "Type layer = ''RELAY''" and "SeenMsgs n (MsgID layer) = None" and "colon \<in> set (Next layer)"
    and "MsgID layer = a @ colon # b" and "colon \<notin> set a"
  shows "\<exists>log. let n1 = n\<lparr>SeenMsgs := (SeenMsgs n)(MsgID layer \<mapsto> now)\<rparr> in
    (handle_layer dial ds now layer n =
       Ok (n1\<lparr>PendingRelays := (PendingRelays n)(b \<mapsto> \<lparr>PrevNackID = a, PrevNodeAddr = From layer\<rparr>)\<rparr>, log, []) \<and>
     (\<exists>x \<in> set (ParseAddresses (Next layer)). delivered log = [(x, Data layer)])) \<or>
    (handle_layer dial ds now layer n = Ok (n1\<lparr>PendingRelays := (PendingRelays n)(b := None)\<rparr>, log, []) \<and>
     {(x, Data layer, False) | x. x \<in> set (ParseAddresses (Next layer))} \<subseteq> set log \<and>
     (delivered log = [] \<and> {(x, ''NACK:'' @ a, False) | x. x \<in> set (ParseAddresses (From layer))} \<subseteq> set log \<or>
      (\<exists>x \<in> set (ParseAddresses (From layer)). delivered log = [(x, ''NACK:'' @ a)])))"
proof -
  let ?next = "fst (Shuffle ds (ParseAddresses (Next layer)))"
  obtain sent log where s: "send_first dial ?next (Data layer) [] = (sent, log)" by fastforce
  obtain sent' log' where s': "send_first dial (ParseAddresses (From layer)) (''NACK:'' @ a) log = (sent', log')"
    by fastforce
  have parts: "SplitN colon 2 (MsgID layer) = [a, b]" using assms(4,5) by (simp add: numeral_2_eq_2)
  note eval = handle_layer_def handle_relay_def seenMsg_def
  from s show ?thesis
  proof (cases rule: send_first_cases)
    case (sent pre x post)
    have "x \<in> set ?next" unfolding sent(2) by simp
    then have "x \<in> set (ParseAddresses (Next layer))" by simp
    with sent s assms parts show ?thesis by (intro exI [of _ log]) (auto simp: eval Let_def)
  next
    case failed
    from s' show ?thesis
    proof (cases rule: send_first_cases)
      case (sent pre x post)
      with failed s s' assms parts show ?thesis
        by (intro exI [of _ log']) (auto simp: eval Let_def image_iff)
    next
      case failed': failed
      with failed s s' assms parts show ?thesis
        by (intro exI [of _ log']) (auto simp: eval Let_def image_iff)
    qed
  qed
qed

theorem relay_forwards_or_nacks_witness:
  "\<exists>log. let n = NewNode ideal_crypto ''R'' [] 1 9000;
       layer = zero_layer\<lparr>Type := ''RELAY'', MsgID := ''n1:n2'', Next := ''b:2,c:3'', From := ''a:1'', Data := ''p''\<rparr>
     in handle_layer (\<lambda>_ a. a = ''c:3'') [] 5 layer n =
          Ok (n\<lparr>SeenMsgs := [''n1:n2'' \<mapsto> 5], PendingRelays := [''n2'' \<mapsto> \<lparr>PrevNackID = ''n1'', PrevNodeAddr = ''a:1''\<rparr>]\<rparr>, log, []) \<and>
        delivered log = [(''c:3'', ''p'')]"
  using relay_forwards_or_nacks [of "zero_layer\<lparr>Type := ''RELAY'', MsgID := ''n1:n2'', Next := ''b:2,c:3'',
      From := ''a:1'', Data := ''p''\<rparr>" "NewNode ideal_crypto ''R'' [] 1 9000" "''n1''" "''n2''" 5 "\<lambda>_ a. a = ''c:3''" "[]"]
  by (auto simp: NewNode_def zero_layer_def handle_layer_def handle_relay_def seenMsg_def ParseAddresses_def
      Shuffle_def swap_def SendTo_def numeral_2_eq_2 SplitN.simps delivered_def)

text \<open>
  C18: a NACK the node is not the sender of is consumed once and passed on with the rewritten
  identifier to the first previous address that accepts it; an unknown one is ignored.
\<close>

theorem nack_propagates_backwards:
  assumes "PendingACKs n b = None"
  shows "\<exists>log. handle_nack dial b n = Ok (n\<lparr>PendingRelays := (PendingRelays n)(b := None)\<rparr>, log, []) \<and>
    (case PendingRelays n b of
       None \<Rightarrow> log = []
     | Some nack \<Rightarrow>
         (delivered log = [] \<and> log = map (\<lambda>x. (x, ''NACK:'' @ PrevNackID nack, False)) (ParseAddresses (PrevNodeAddr nack))) \<or>
         (\<exists>x \<in> set (ParseAddresses (PrevNodeAddr nack)). delivered log = [(x, ''NACK:'' @ PrevNackID nack)]))"
proof (cases "PendingRelays n b")
  case None
  with assms show ?thesis by (simp add: handle_nack_def)
next
  case (Some nack)
  obtain sent log where
    s: "send_first dial (ParseAddresses (PrevNodeAddr nack)) (''NACK:'' @ PrevNackID nack) [] = (sent, log)"
    by fastforce
  then show ?thesis
    by (cases rule: send_first_cases) (use assms Some s in \<open>auto simp: handle_nack_def\<close>)
qed



theorem nack_propagates_backwards_witness:
  "\<exists>log. let n = (NewNode ideal_crypto ''R'' [] 1 9000)
         \<lparr>PendingRelays := [''n2'' \<mapsto> \<lparr>PrevNackID = ''n1'', PrevNodeAddr = ''a:1,b:2''\<rparr>]\<rparr>
     in handle_nack (\<lambda>_ a. a = ''b:2'') ''n2'' n = Ok (n\<lparr>PendingRelays := Map.empty\<rparr>, log, []) \<and>
        delivered log = [(''b:2'', ''NACK:n1'')]"
  using nack_propagates_backwards [of "(NewNode ideal_crypto ''R'' [] 1 9000)
      \<lparr>PendingRelays := [''n2'' \<mapsto> \<lparr>PrevNackID = ''n1'', PrevNodeAddr = ''a:1,b:2''\<rparr>]\<rparr>" "''n2''" "\<lambda>_ a. a = ''b:2''"]
  by (auto simp: NewNode_def handle_nack_def ParseAddresses_def SendTo_def delivered_def)


section \<open>Well-formed nodes\<close>

text \<open>
  The fragment maps agree on their keys, no buffer holds an index twice, none is left complete, and
  no channel holds more than its capacity. \<open>same_identity\<close> is the part of the state no handler writes.
\<close>

definition node_wf :: "('pk, 'sk) Node \<Rightarrow> bool" where
  "node_wf n \<longleftrightarrow> (\<forall>f. FragBuf n f = None \<longleftrightarrow> FragTotal n f = None) \<and>
     (\<forall>f b. FragBuf n f = Some b \<longrightarrow>
        b \<noteq> [] \<and> distinct (map fst b) \<and> FragTotal n f \<noteq> Some (int (length b))) \<and>
     (\<forall>ch. length (Chans n ch) \<le> 1)"

definition same_identity :: "('pk, 'sk) Node \<Rightarrow> ('pk, 'sk) Node \<Rightarrow> bool" where
  "same_identity n n' \<longleftrightarrow> ID n' = ID n \<and> Port n' = Port n \<and> PrivateKey n' = PrivateKey n \<and>
     PublicKey n' = PublicKey n \<and> ServerAddr n' = ServerAddr n \<and> NodeIP n' = NodeIP n"

definition received_more :: "('pk, 'sk) Node \<Rightarrow> ('pk, 'sk) Node \<Rightarrow> bool" where
  "received_more n n' \<longleftrightarrow> (\<exists>ms. ReceivedMsgs n' = ReceivedMsgs n @ ms \<and> length ms \<le> 1)"

definition good_step :: "('pk, 'sk) Node \<Rightarrow> ('pk, 'sk) Node \<Rightarrow> bool" where
  "good_step n n' \<longleftrightarrow> (node_wf n \<longrightarrow> node_wf n') \<and> same_identity n n' \<and> received_more n n'"

lemmas good_step_defs = good_step_def same_identity_def received_more_def node_wf_def

lemma good_step_refl [simp]: "good_step n n"
  by (simp add: good_step_defs)

lemma good_step_fields [simp]:
  "good_step n (n\<lparr>PendingRelays := pr\<rparr>)" "good_step n (n\<lparr>SeenMsgs := sm\<rparr>)" "good_step n (n\<lparr>PendingACKs := pa\<rparr>)"
  by (simp_all add: good_step_defs)

lemma good_step_quiet:
  "good_step (n\<lparr>SeenMsgs := sm\<rparr>) n' = good_step n n'" "good_step n (n'\<lparr>PendingRelays := pr\<rparr>) = good_step n n'"
  "good_step n (n'\<lparr>SeenMsgs := sm\<rparr>) = good_step n n'" "good_step n (n'\<lparr>PendingACKs := pa\<rparr>) = good_step n n'"
  by (simp_all add: good_step_defs)

lemma good_step_chan_send: "chan_send ch v n = Ok n' \<Longrightarrow> good_step n n'"
  by (auto simp: chan_send_def good_step_def same_identity_def received_more_def split: if_splits)
    (simp add: node_wf_def)

lemma update_neq_Nil [simp]: "AList.update k v al \<noteq> []"
  by (cases al) auto

lemma wf_drop_fragment:
  "node_wf n \<Longrightarrow> node_wf (n\<lparr>FragBuf := (FragBuf n)(f := None), FragTotal := (FragTotal n)(f := None), ReceivedMsgs := ms\<rparr>)"
  by (auto simp: node_wf_def)

lemma wf_new_fragment:
  assumes "node_wf n" and "int (length b) \<noteq> t" and "distinct (map fst b)" and "b \<noteq> []"
  shows "node_wf (n\<lparr>FragBuf := (FragBuf n)(f \<mapsto> b), FragTotal := (FragTotal n)(f \<mapsto> t)\<rparr>)"
  using assms by (auto simp: node_wf_def)

lemma wf_more_fragments:
  assumes "node_wf n" and "FragTotal n f = Some t" and "int (length b) \<noteq> t" and "distinct (map fst b)" and "b \<noteq> []"
  shows "node_wf (n\<lparr>FragBuf := (FragBuf n)(f \<mapsto> b)\<rparr>)"
  using assms by (auto simp: node_wf_def)

lemma store_fragment_wf:
  assumes "node_wf n" and "store_fragment layer n = Ok n'"
  shows "node_wf n'"
proof -
  let ?f = "SplitN colon 2 (Frag layer) ! 0"
  show ?thesis
  proof (cases "FragBuf n ?f")
    case None
    with assms show ?thesis
      by (auto simp: store_fragment_def Let_def bind_res_eq_Ok wf_drop_fragment
          intro!: wf_new_fragment split: if_splits)
  next
    case (Some b)
    with assms(1) obtain t where "FragTotal n ?f = Some t" "distinct (map fst b)"
      by (auto simp: node_wf_def) (metis not_None_eq)
    with Some assms show ?thesis
      by (auto simp: store_fragment_def Let_def bind_res_eq_Ok wf_drop_fragment
          intro!: wf_more_fragments split: if_splits)
  qed
qed

lemma store_fragment_good: "store_fragment layer n = Ok n' \<Longrightarrow> good_step n n'"
  unfolding good_step_def
  by (intro conjI impI; (rule store_fragment_wf; assumption)?)
    (auto simp: same_identity_def received_more_def store_fragment_def Let_def bind_res_eq_Ok split: if_splits)

lemma handle_layer_good: "handle_layer dial ds now layer n = Ok (n', log, rep) \<Longrightarrow> good_step n n'"
  by (auto simp: handle_layer_defs seenMsg_def Let_def bind_res_eq_Ok good_step_quiet
      split: if_splits prod.splits option.splits
      dest!: store_fragment_good good_step_chan_send)
    (auto simp: good_step_defs)

lemma handle_nack_good: "handle_nack dial i n = Ok (n', log, rep) \<Longrightarrow> good_step n n'"
  by (auto simp: handle_nack_def Let_def bind_res_eq_Ok good_step_quiet
      split: option.splits dest!: good_step_chan_send)

lemma handler_good: "handlerroutine C dial ds now conn n = Ok (n', log, rep) \<Longrightarrow> good_step n n'"
  using handle_layer_good handle_nack_good
  by (auto simp: handlerroutine_def handle_line_def split: res.splits if_splits)




section \<open>Panics\<close>

lemma index_SplitN2: "index (SplitN c 2 s) 1 = (if c \<in> set s then Ok (tl (dropWhile (\<lambda>x. x \<noteq> c) s)) else Panic)"
  by (simp add: numeral_2_eq_2 SplitN.simps(3))

lemma length_Split_le1: "length (Split c s) \<le> Suc 0 \<longleftrightarrow> c \<notin> set s"
proof (cases "c \<in> set s")
  case True
  then obtain u v where "s = u @ c # v" "c \<notin> set u" by (meson split_list_first)
  then have "length (Split c s) = Suc (length (Split c v))" by (simp add: Split_append)
  moreover have "0 < length (Split c v)" by simp
  ultimately show ?thesis using True by linarith
qed (simp add: Split_no_sep)

definition bad_fragment :: "string \<Rightarrow> bool" where
  "bad_fragment f \<longleftrightarrow> colon \<notin> set f \<or> slash \<notin> set (tl (dropWhile (\<lambda>x. x \<noteq> colon) f))"

lemma assemble_not_Panic: "assemble tot b \<noteq> Panic"
  by (simp add: assemble_def)

lemma store_fragment_Panic: "store_fragment layer n = Panic \<longleftrightarrow> bad_fragment (Frag layer)"
proof (cases "colon \<in> set (Frag layer)")
  case True
  then show ?thesis
    unfolding store_fragment_def index_SplitN2 Let_def
    by (auto simp: bad_fragment_def bind_res_eq_Panic length_Split_le1 assemble_not_Panic split: if_splits)
next
  case False
  then show ?thesis unfolding store_fragment_def index_SplitN2 Let_def by (simp add: bad_fragment_def)
qed

lemma chan_send_not_Panic: "chan_send ch v n \<noteq> Panic"
  by (simp add: chan_send_def)

lemma handle_layer_Panic:
  "handle_layer dial ds now layer n = Panic \<longleftrightarrow>
   Type layer = ''FINAL'' \<and> SeenMsgs n (MsgID layer) = None \<and> Frag layer \<noteq> [] \<and> bad_fragment (Frag layer)"
  by (auto simp: handle_layer_defs seenMsg_def Let_def bind_res_eq_Panic store_fragment_Panic
      chan_send_not_Panic split: prod.splits option.splits)


end
