(* ===== verification/Onion.thy ===== *)
theory Onion
  imports KeyCache Node
begin

text \<open>
  The sender's side, \<open>node/onion.go\<close> and the group variant in \<open>node/super_send.go\<close>: building an onion
  layer by layer from the destination outwards, for a route of single nodes or of clusters.

  The abstract specification \<open>peels\<close> says what an onion is to its readers: the first hop opens it to
  a RELAY layer that names the next hop, the previous one and the pair of NACK identifiers, and whose
  data is the onion of the remaining hops; the last hop opens the inner layer. Both builders
  refine it, through one loop \<open>wrap_loop\<close> over the interface \<open>envelope\<close>.
\<close>

section \<open>Profiles\<close>

definition GetScoresFromProfile :: "string \<Rightarrow> int \<times> int" where
  "GetScoresFromProfile profile =
     (if profile = ''server'' then (100, 100)
      else if profile = ''laptop_WIFI7'' then (60, 85)
      else if profile = ''smartphone_4G'' then (30, 75)
      else if profile = ''smartphone_2G'' then (20, 10)
      else (15, 15))"


section \<open>Onions for single nodes\<close>

text \<open>
  A missing cache entry yields the zero \<open>CachedKey\<close>, whose nil key makes \<open>rsa.EncryptOAEP\<close> panic
  after the payload has been encrypted.
\<close>

definition encrypt_cached ::
  "('pk, 'sk) crypto \<Rightarrow> 'pk option \<Rightarrow> bytes \<Rightarrow> rng \<Rightarrow> (string \<times> rng) res" where
  "encrypt_cached C key plaintext r =
     (case key of
        Some pk \<Rightarrow> encryptForNode C plaintext pk r
      | None \<Rightarrow> bind_res (ReadFull AesKeySize r) (\<lambda>(aesKey, r1).
                bind_res (EncryptAES C aesKey plaintext r1) (\<lambda>_. Panic)))"

abbreviation cached_key :: "'pk KeyCache \<Rightarrow> addr \<Rightarrow> 'pk option" where
  "cached_key cache a \<equiv> map_option Key (get cache a)"

text \<open>\<open>for i := len(route) - 2; i >= 0; i--\<close>: the counter is one more than the index being wrapped.\<close>

primrec onion_loop ::
  "('pk, 'sk) crypto \<Rightarrow> 'pk KeyCache \<Rightarrow> addr list \<Rightarrow> addr \<Rightarrow> string list \<Rightarrow> nat \<Rightarrow> string \<Rightarrow> rng \<Rightarrow> (string \<times> rng) res" where
  "onion_loop C publicKeys route senderAddr nackArray 0 currentPayload r = Ok (currentPayload, r)"
| "onion_loop C publicKeys route senderAddr nackArray (Suc i) currentPayload r =
     bind_res (index nackArray i) (\<lambda>nack.
     bind_res (index nackArray (i + 1)) (\<lambda>nack'.
       let prevNode = (if 0 < i then route ! (i - 1) else senderAddr);
           relayLayer = zero_layer\<lparr>Type := ''RELAY'', MsgID := nack @ '':'' @ nack',
                          Next := route ! (i + 1), From := prevNode, Data := currentPayload\<rparr>
       in bind_res (encrypt_cached C (cached_key publicKeys (route ! i)) (OnionlayerToString relayLayer) r)
            (\<lambda>(payload, r'). onion_loop C publicKeys route senderAddr nackArray i payload r')))"

definition encryptOnionLayers ::
  "('pk, 'sk) crypto \<Rightarrow> OnionLayer \<Rightarrow> addr list \<Rightarrow> 'pk KeyCache \<Rightarrow> addr \<Rightarrow> string list \<Rightarrow> rng \<Rightarrow> (string \<times> rng) res" where
  "encryptOnionLayers C innerLayer route publicKeys senderAddr nackArray r =
     bind_res (index route (length route - 1)) (\<lambda>lastAddr.
     bind_res (encrypt_cached C (cached_key publicKeys lastAddr) (OnionlayerToString innerLayer) r)
       (\<lambda>(payload, r'). onion_loop C publicKeys route senderAddr nackArray (length route - 1) payload r'))"

text \<open>
  Refreshing the keys of the route: the \<open>i\<close>-th address sees the directory \<open>ask i\<close> and reads the
  clock twice, for the check and for the new expiry. The cache is shared, so the keys fetched
  before a failure stay in it.
\<close>

fun fetch_keys ::
  "('pk, 'sk) crypto \<Rightarrow> (nat \<Rightarrow> directory) \<Rightarrow> (nat \<Rightarrow> time \<times> time) \<Rightarrow> nat \<Rightarrow> addr list \<Rightarrow> 'pk KeyCache \<Rightarrow>
   'pk KeyCache \<times> unit res" where
  "fetch_keys C ask clock i [] publicKeys = (publicKeys, Ok ())"
| "fetch_keys C ask clock i (port # ports) publicKeys =
     (if (case get publicKeys port of None \<Rightarrow> True | Some cached \<Rightarrow> ExpiresAt cached < fst (clock i))
      then (case FetchKeyFromServer C (ask i) port of
              Ok key \<Rightarrow> fetch_keys C ask clock (Suc i) ports
                (set_key port \<lparr>Key = key, ExpiresAt = snd (clock i) + 30 * Second\<rparr> publicKeys)
            | Err e \<Rightarrow> (publicKeys, Err (ErrFetch port))
            | Panic \<Rightarrow> (publicKeys, Panic)
            | Blocked \<Rightarrow> (publicKeys, Blocked))
      else fetch_keys C ask clock (Suc i) ports publicKeys)"

fun nack_ids :: "nat \<Rightarrow> rng \<Rightarrow> (string list \<times> rng) res" where
  "nack_ids 0 r = Ok ([], r)"
| "nack_ids (Suc k) r =
     bind_res (GenerateMsgID [''nack''] r) (\<lambda>(i, r1).
     bind_res (nack_ids k r1) (\<lambda>(is, r2). Ok (i # is, r2)))"

definition inv_nacks :: "nat \<Rightarrow> string list \<Rightarrow> string list" where
  "inv_nacks n nackArray = map (\<lambda>i. nackArray ! (length nackArray - i - 1)) [0..<n]"

text \<open>
  A nil and an empty return route are the same list here: both branches of the source then build
  the same FINAL layer, without a return onion. The result is the onion, the message identifier and
  the first NACK identifier.
\<close>

definition Encapsulator_func ::
  "('pk, 'sk) crypto \<Rightarrow> (nat \<Rightarrow> directory) \<Rightarrow> (nat \<Rightarrow> time \<times> time) \<Rightarrow> string \<Rightarrow> string \<Rightarrow> addr list \<Rightarrow> addr list \<Rightarrow>
   'pk KeyCache \<Rightarrow> addr \<Rightarrow> rng \<Rightarrow> 'pk KeyCache \<times> ((string \<times> string \<times> string) \<times> rng) res" where
  "Encapsulator_func C ask clock message frag route returnRoute publicKeys senderAddr r =
     (let (publicKeys', fetched) = fetch_keys C ask clock 0 (route @ returnRoute) publicKeys in
      (publicKeys',
       bind_res fetched (\<lambda>_.
       bind_res (GenerateMsgID [] r) (\<lambda>(msgID, r1).
       bind_res (nack_ids (length route) r1) (\<lambda>(nackArray, r2).
       bind_res (if returnRoute \<noteq> []
                 then encryptOnionLayers C (zero_layer\<lparr>Type := ''ACK'', MsgID := msgID\<rparr>) returnRoute publicKeys'
                        (returnRoute ! (length returnRoute - 1)) (inv_nacks (length route) nackArray) r2
                 else Ok ([], r2)) (\<lambda>(returnOnion, r3).
       let innerLayer = zero_layer\<lparr>Type := ''FINAL'', MsgID := msgID,
                          Next := (if returnRoute \<noteq> [] then returnRoute ! 0 else []), Data := returnOnion,
                          Frag := frag, Message := message\<rparr>
       in bind_res (encryptOnionLayers C innerLayer route publicKeys' senderAddr nackArray r3)
            (\<lambda>(forwardPayload, r4).
          bind_res (index nackArray 0) (\<lambda>firstNackID. Ok ((forwardPayload, msgID, firstNackID), r4)))))))))"


section \<open>Onions for clusters\<close>

record 'pk LayerGroup =
  Addrs :: "addr list"
  PubKeys :: "'pk list"

primrec group_loop ::
  "('pk, 'sk) crypto \<Rightarrow> 'pk LayerGroup list \<Rightarrow> addr \<Rightarrow> string list \<Rightarrow> nat \<Rightarrow> string \<Rightarrow> rng \<Rightarrow> (string \<times> rng) res" where
  "group_loop C route senderAddr nackArray 0 payload r = Ok (payload, r)"
| "group_loop C route senderAddr nackArray (Suc i) payload r =
     bind_res (index nackArray i) (\<lambda>nack.
     bind_res (index nackArray (i + 1)) (\<lambda>nack'.
       let prev = (if 0 < i then JoinAddresses (Addrs (route ! (i - 1))) else senderAddr);
           layer = zero_layer\<lparr>Type := ''RELAY'', MsgID := nack @ '':'' @ nack',
                     Next := JoinAddresses (Addrs (route ! (i + 1))), From := prev, Data := payload\<rparr>
       in bind_res (BroadcastEncrypt C (OnionlayerToString layer) (PubKeys (route ! i)) r)
            (\<lambda>(payload', r'). group_loop C route senderAddr nackArray i payload' r')))"

definition encryptOnionLayersGroup ::
  "('pk, 'sk) crypto \<Rightarrow> OnionLayer \<Rightarrow> 'pk LayerGroup list \<Rightarrow> addr \<Rightarrow> string list \<Rightarrow> rng \<Rightarrow> (string \<times> rng) res" where
  "encryptOnionLayersGroup C innerLayer route senderAddr nackArray r =
     bind_res (index route (length route - 1)) (\<lambda>lastGroup.
     bind_res (BroadcastEncrypt C (OnionlayerToString innerLayer) (PubKeys lastGroup) r)
       (\<lambda>(payload, r'). group_loop C route senderAddr nackArray (length route - 1) payload r'))"

definition Encapsulator_func_super ::
  "('pk, 'sk) crypto \<Rightarrow> string \<Rightarrow> 'pk LayerGroup list \<Rightarrow> 'pk LayerGroup list \<Rightarrow> addr \<Rightarrow> rng \<Rightarrow>
   ((string \<times> string \<times> string) \<times> rng) res" where
  "Encapsulator_func_super C message route returnRoute senderAddr r =
     bind_res (GenerateMsgID [] r) (\<lambda>(msgID, r1).
     bind_res (nack_ids (length route) r1) (\<lambda>(nackArray, r2).
     bind_res (if returnRoute \<noteq> []
               then encryptOnionLayersGroup C (zero_layer\<lparr>Type := ''ACK'', MsgID := msgID\<rparr>) returnRoute
                      (JoinAddresses (Addrs (returnRoute ! (length returnRoute - 1))))
                      (inv_nacks (length route) nackArray) r2
               else Ok ([], r2)) (\<lambda>(returnOnion, r3).
     let innerLayer = zero_layer\<lparr>Type := ''FINAL'', MsgID := msgID,
                        Next := (if returnRoute \<noteq> [] then JoinAddresses (Addrs (returnRoute ! 0)) else []),
                        Data := returnOnion, Message := message\<rparr>
     in bind_res (encryptOnionLayersGroup C innerLayer route senderAddr nackArray r3)
          (\<lambda>(forwardPayload, r4).
        bind_res (index nackArray 0) (\<lambda>firstNackID. Ok ((forwardPayload, msgID, firstNackID), r4))))))"


section \<open>The loop both builders run\<close>

text \<open>A hop is the text of its addresses and the group of keys that opens its layer.\<close>

primrec wrap_loop ::
  "('g \<Rightarrow> bytes \<Rightarrow> rng \<Rightarrow> (string \<times> rng) res) \<Rightarrow> (string \<times> 'g) list \<Rightarrow> string \<Rightarrow> string list \<Rightarrow> nat \<Rightarrow> string \<Rightarrow> rng \<Rightarrow>
   (string \<times> rng) res" where
  "wrap_loop seal hops sender nacks 0 payload r = Ok (payload, r)"
| "wrap_loop seal hops sender nacks (Suc i) payload r =
     bind_res (index nacks i) (\<lambda>a.
     bind_res (index nacks (i + 1)) (\<lambda>b.
     bind_res (seal (snd (hops ! i)) (OnionlayerToString
         (zero_layer\<lparr>Type := ''RELAY'', MsgID := a @ colon # b, Next := fst (hops ! (i + 1)),
            From := (if 0 < i then fst (hops ! (i - 1)) else sender), Data := payload\<rparr>)) r)
       (\<lambda>(payload', r'). wrap_loop seal hops sender nacks i payload' r')))"

definition wrap ::
  "('g \<Rightarrow> bytes \<Rightarrow> rng \<Rightarrow> (string \<times> rng) res) \<Rightarrow> OnionLayer \<Rightarrow> (string \<times> 'g) list \<Rightarrow> string \<Rightarrow> string list \<Rightarrow> rng \<Rightarrow>
   (string \<times> rng) res" where
  "wrap seal inner hops sender nacks r =
     bind_res (index hops (length hops - 1)) (\<lambda>hop.
     bind_res (seal (snd hop) (OnionlayerToString inner) r)
       (\<lambda>(payload, r'). wrap_loop seal hops sender nacks (length hops - 1) payload r'))"

abbreviation node_hops :: "'pk KeyCache \<Rightarrow> addr list \<Rightarrow> (string \<times> 'pk option) list" where
  "node_hops cache route \<equiv> map (\<lambda>a. (a, cached_key cache a)) route"

abbreviation group_hops :: "'pk LayerGroup list \<Rightarrow> (string \<times> 'pk list) list" where
  "group_hops route \<equiv> map (\<lambda>g. (JoinAddresses (Addrs g), PubKeys g)) route"

lemma onion_loop_wrap:
  "i < length route \<Longrightarrow>
   onion_loop C cache route sender nacks i payload r =
   wrap_loop (encrypt_cached C) (node_hops cache route) sender nacks i payload r"
proof (induction i arbitrary: payload r)
  case (Suc i)
  then have "onion_loop C cache route sender nacks i payload r =
    wrap_loop (encrypt_cached C) (node_hops cache route) sender nacks i payload r" for payload r by simp
  with Suc.prems show ?case by (simp add: Let_def nth_append cong: if_cong)
qed simp

lemma group_loop_wrap:
  "i < length route \<Longrightarrow>
   group_loop C route sender nacks i payload r =
   wrap_loop (\<lambda>pks p r. BroadcastEncrypt C p pks r) (group_hops route) sender nacks i payload r"
proof (induction i arbitrary: payload r)
  case (Suc i)
  then have "group_loop C route sender nacks i payload r =
    wrap_loop (\<lambda>pks p r. BroadcastEncrypt C p pks r) (group_hops route) sender nacks i payload r" for payload r by simp
  with Suc.prems show ?case by (simp add: Let_def cong: if_cong)
qed simp

lemma encryptOnionLayers_wrap:
  "encryptOnionLayers C inner route cache sender nacks r =
   wrap (encrypt_cached C) inner (node_hops cache route) sender nacks r"
  by (cases "route = []") (auto simp: encryptOnionLayers_def wrap_def onion_loop_wrap)

lemma encryptOnionLayersGroup_wrap:
  "encryptOnionLayersGroup C inner route sender nacks r =
   wrap (\<lambda>pks p r. BroadcastEncrypt C p pks r) inner (group_hops route) sender nacks r"
  by (cases "route = []") (auto simp: encryptOnionLayersGroup_def wrap_def group_loop_wrap)


section \<open>What an onion is to its readers\<close>

definition opens_with ::
  "('sk \<Rightarrow> string \<Rightarrow> bytes res) \<Rightarrow> ('sk \<Rightarrow> 'g \<Rightarrow> bool) \<Rightarrow> 'g \<Rightarrow> string \<Rightarrow> bytes \<Rightarrow> bool" where
  "opens_with unseal holds g w p \<longleftrightarrow> onion_line w \<and> (\<forall>sk. holds sk g \<longrightarrow> unseal sk w = Ok p)"

definition relay_layer :: "string \<Rightarrow> string \<Rightarrow> string \<Rightarrow> string \<Rightarrow> string \<Rightarrow> OnionLayer" where
  "relay_layer a b nxt frm payload =
     zero_layer\<lparr>Type := ''RELAY'', MsgID := a @ colon # b, Next := nxt, From := frm, Data := payload\<rparr>"

fun peels ::
  "('g \<Rightarrow> string \<Rightarrow> bytes \<Rightarrow> bool) \<Rightarrow> OnionLayer \<Rightarrow> string \<Rightarrow> (string \<times> 'g) list \<Rightarrow> string list \<Rightarrow> string \<Rightarrow> bool" where
  "peels opens inner frm [] nacks w = False"
| "peels opens inner frm [h] nacks w = opens (snd h) w (OnionlayerToString inner)"
| "peels opens inner frm (h # h' # hops) (a # b # nacks) w =
     (\<exists>w'. opens (snd h) w (OnionlayerToString (relay_layer a b (fst h') frm w')) \<and>
           peels opens inner (fst h) (h' # hops) (b # nacks) w')"
| "peels opens inner frm (h # h' # hops) nacks w = False"

text \<open>Whatever a seal makes a line be to its readers, wrapping makes of the whole path.\<close>

lemma wrap_loop_peels:
  assumes seal: "\<And>g p r w r'. seal g p r = Ok (w, r') \<Longrightarrow> opens g w p"
    and "i < length hops"
    and "peels opens inner (if 0 < i then fst (hops ! (i - 1)) else sender) (drop i hops) (drop i nacks) payload"
    and "wrap_loop seal hops sender nacks i payload r = Ok (w, r')"
  shows "peels opens inner sender hops nacks w"
  using assms(2-4)
proof (induction i arbitrary: payload r)
  case (Suc i)
  let ?frm = "if 0 < i then fst (hops ! (i - 1)) else sender"
  from Suc.prems(3) obtain payload' r1 where i: "Suc i < length nacks"
    and sealed: "seal (snd (hops ! i)) (OnionlayerToString
      (relay_layer (nacks ! i) (nacks ! Suc i) (fst (hops ! Suc i)) ?frm payload)) r = Ok (payload', r1)"
    and rest: "wrap_loop seal hops sender nacks i payload' r1 = Ok (w, r')"
    by (auto simp: bind_res_eq_Ok relay_layer_def cong: if_cong)
  have hops: "drop i hops = hops ! i # hops ! Suc i # drop (Suc (Suc i)) hops"
    using Suc.prems(1) by (simp add: Cons_nth_drop_Suc)
  have nacks: "drop i nacks = nacks ! i # nacks ! Suc i # drop (Suc (Suc i)) nacks"
    using i by (simp add: Cons_nth_drop_Suc)
  have "peels opens inner (fst (hops ! i)) (drop (Suc i) hops) (drop (Suc i) nacks) payload"
    using Suc.prems(2) by simp
  then have "peels opens inner ?frm (drop i hops) (drop i nacks) payload'"
    using seal [OF sealed] hops nacks i Suc.prems(1)
    by (auto simp: Cons_nth_drop_Suc [symmetric] simp del: Cons_nth_drop_Suc)
  from Suc.IH [OF _ this rest] Suc.prems(1) show ?case by simp
qed simp

lemma wrap_peels:
  assumes seal: "\<And>g p r w r'. seal g p r = Ok (w, r') \<Longrightarrow> opens g w p"
    and "wrap seal inner hops sender nacks r = Ok (w, r')"
  shows "peels opens inner sender hops nacks w"
proof -
  let ?i = "length hops - 1"
  from assms(2) obtain payload r1 where i: "?i < length hops"
    and sealed: "seal (snd (hops ! ?i)) (OnionlayerToString inner) r = Ok (payload, r1)"
    and rest: "wrap_loop seal hops sender nacks ?i payload r1 = Ok (w, r')"
    by (auto simp: wrap_def bind_res_eq_Ok)
  have "drop ?i hops = [hops ! ?i]" using i by (cases hops rule: rev_cases) auto
  with seal [OF sealed] show ?thesis by (intro wrap_loop_peels [where seal = seal, OF seal i _ rest]) simp_all
qed

context envelope
begin

abbreviation opens where "opens \<equiv> opens_with unseal holds_key"

lemma opens_seal: "seal g p r = Ok (w, r') \<Longrightarrow> opens g w p"
  by (auto simp: opens_with_def unseal_seal seal_line)

lemma sealed_wrap: "wrap seal inner hops sender nacks r = Ok (w, r') \<Longrightarrow> peels opens inner sender hops nacks w"
  by (rule wrap_peels [where seal = seal, OF opens_seal])

end

context envelope_total
begin

lemma wrap_loop_ok:
  assumes "i < length hops" and "length hops \<le> length nacks"
    and "\<forall>h \<in> set hops. usable (snd h)" and "sum_list (map (\<lambda>h. cost (snd h)) (take i hops)) \<le> length r"
  shows "\<exists>w. wrap_loop seal hops sender nacks i payload r =
    Ok (w, drop (sum_list (map (\<lambda>h. cost (snd h)) (take i hops))) r)"
  using assms
proof (induction i arbitrary: payload r)
  case (Suc i)
  let ?c = "cost (snd (hops ! i))" and ?s = "sum_list (map (\<lambda>h. cost (snd h)) (take i hops))"
  let ?p = "OnionlayerToString (zero_layer\<lparr>Type := ''RELAY'', MsgID := nacks ! i @ colon # nacks ! (i + 1),
    Next := fst (hops ! (i + 1)), From := (if 0 < i then fst (hops ! (i - 1)) else sender), Data := payload\<rparr>)"
  have cost: "sum_list (map (\<lambda>h. cost (snd h)) (take (Suc i) hops)) = ?s + ?c"
    using Suc.prems(1) by (simp add: take_Suc_conv_app_nth)
  have "usable (snd (hops ! i))" using Suc.prems(1,3) by simp
  moreover have c: "?c \<le> length r" and s: "?s \<le> length (drop ?c r)"
    using Suc.prems(4) unfolding cost by simp_all
  ultimately obtain p' where p': "seal (snd (hops ! i)) ?p r = Ok (p', drop ?c r)"
    using seal_ok by blast
  from Suc.IH [OF _ Suc.prems(2,3) s, of p'] Suc.prems(1) obtain w where
    "wrap_loop seal hops sender nacks i p' (drop ?c r) = Ok (w, drop ?s (drop ?c r))" by auto
  moreover have "wrap_loop seal hops sender nacks (Suc i) payload r =
    wrap_loop seal hops sender nacks i p' (drop ?c r)"
    using p' Suc.prems(1,2) by (simp cong: if_cong)
  ultimately show ?case unfolding cost by (auto simp: add.commute)
qed simp

lemma wrap_ok:
  assumes "hops \<noteq> []" and "length hops \<le> length nacks" and "\<forall>h \<in> set hops. usable (snd h)"
    and "sum_list (map (\<lambda>h. cost (snd h)) hops) \<le> length r"
  shows "\<exists>w. wrap seal inner hops sender nacks r = Ok (w, drop (sum_list (map (\<lambda>h. cost (snd h)) hops)) r)"
proof -
  obtain hs h where h: "hops = hs @ [h]" using assms(1) by (cases hops rule: rev_cases) auto
  have c: "cost (snd h) \<le> length r"
    and s: "sum_list (map (\<lambda>h. cost (snd h)) (take (length hs) hops)) \<le> length (drop (cost (snd h)) r)"
    using assms(4) h by simp_all
  from assms(3) h c obtain p where p: "seal (snd h) (OnionlayerToString inner) r = Ok (p, drop (cost (snd h)) r)"
    using seal_ok [of "snd h" r "OnionlayerToString inner"] by auto
  from wrap_loop_ok [OF _ assms(2,3) s, of sender p] h obtain w where
    "wrap_loop seal hops sender nacks (length hs) p (drop (cost (snd h)) r) =
     Ok (w, drop (sum_list (map (\<lambda>h. cost (snd h)) hs)) (drop (cost (snd h)) r))" by auto
  with p h show ?thesis by (auto simp: wrap_def add.commute)
qed

end

sublocale crypto_laws \<subseteq> cached_env: envelope_total
  "encrypt_cached C" "\<lambda>sk w. BroadcastDecrypt C w sk" "\<lambda>sk k. k = Some (PublicOf C sk)"
  "\<lambda>k. \<exists>sk. k = Some (PublicOf C sk)" "\<lambda>k. 76"
proof unfold_locales
  fix k p r w r' sk
  assume "encrypt_cached C k p r = Ok (w, r')"
  then obtain pk where "k = Some pk" and sealed: "encryptForNode C p pk r = Ok (w, r')"
    by (auto simp: encrypt_cached_def bind_res_eq_Ok split: option.splits)
  then show "onion_line w" and "k = Some (PublicOf C sk) \<Longrightarrow> BroadcastDecrypt C w sk = Ok p"
    using node_env.seal_line node_env.unseal_seal by blast+
next
  fix k p and r :: rng
  assume "\<exists>sk. k = Some (PublicOf C sk)" and "76 \<le> length r"
  then obtain sk where "k = Some (PublicOf C sk)" by blast
  with \<open>76 \<le> length r\<close> show "\<exists>w. encrypt_cached C k p r = Ok (w, drop 76 r)"
    using node_env.seal_ok [of "PublicOf C sk" r p] by (auto simp: encrypt_cached_def)
qed

context crypto_laws
begin

lemmas cached_wrap = cached_env.sealed_wrap and cached_wrap_ok = cached_env.wrap_ok

end

context crypto_sep
begin

lemmas group_wrap = group_env.sealed_wrap and group_wrap_ok = group_env.wrap_ok

end


section \<open>Identifiers on the wire\<close>

definition wire_id :: "string \<Rightarrow> bool" where
  "wire_id i \<longleftrightarrow> i \<noteq> [] \<and> printable (last i) \<and> colon \<notin> set i \<and> pipe \<notin> set i \<and> nl \<notin> set i"

lemma GenerateMsgID_wire_id:
  assumes "GenerateMsgID prefix r = Ok (i, r')"
    and "colon \<notin> set (concat prefix)" "pipe \<notin> set (concat prefix)" "nl \<notin> set (concat prefix)"
  shows "wire_id i"
proof -
  from GenerateMsgID_shape [OF assms(1)] obtain ds where
    i: "i = (if prefix \<noteq> [] \<and> hd prefix \<noteq> [] then hd prefix @ ''-'' else ''msg-'') @ ds"
    and len: "length ds = 10" and ds: "\<forall>c \<in> set ds. \<exists>d < 10. c = digit d" by blast
  have "ds \<noteq> []" using len by auto
  with ds obtain d where "d < 10" "last ds = digit d" by fastforce
  then have "printable (last ds)" by simp
  moreover have "set (hd prefix) \<subseteq> set (concat prefix)" if "prefix \<noteq> []" using that by (cases prefix) auto
  moreover have "colon \<notin> set ds" "pipe \<notin> set ds" "nl \<notin> set ds" using digits_avoid [OF ds] by simp_all
  ultimately show ?thesis using assms(2-4) \<open>ds \<noteq> []\<close> by (auto simp: wire_id_def i)
qed

lemma nack_ids_shape: "nack_ids k r = Ok (ids, r') \<Longrightarrow> length ids = k \<and> list_all wire_id ids"
proof (induction k arbitrary: r ids r')
  case (Suc k)
  then obtain i r1 ids' where "GenerateMsgID [''nack''] r = Ok (i, r1)" "nack_ids k r1 = Ok (ids', r')"
    "ids = i # ids'" by (auto simp: bind_res_eq_Ok)
  with Suc.IH GenerateMsgID_wire_id show ?case by fastforce
qed simp

lemma inv_nacks_rev: "inv_nacks (length nacks) nacks = rev nacks"
  by (rule nth_equalityI) (simp_all add: inv_nacks_def rev_nth)


section \<open>The builders refine the specification\<close>

abbreviation node_opens :: "('pk, 'sk) crypto \<Rightarrow> 'pk option \<Rightarrow> string \<Rightarrow> bytes \<Rightarrow> bool" where
  "node_opens C \<equiv> opens_with (\<lambda>sk w. BroadcastDecrypt C w sk) (\<lambda>sk k. k = Some (PublicOf C sk))"

abbreviation group_opens :: "('pk, 'sk) crypto \<Rightarrow> 'pk list \<Rightarrow> string \<Rightarrow> bytes \<Rightarrow> bool" where
  "group_opens C \<equiv> opens_with (\<lambda>sk w. BroadcastDecrypt C w sk) (\<lambda>sk pks. PublicOf C sk \<in> set pks)"

definition final_layer :: "string \<Rightarrow> string \<Rightarrow> string \<Rightarrow> string \<Rightarrow> string \<Rightarrow> OnionLayer" where
  "final_layer msgID nxt ret frag message =
     zero_layer\<lparr>Type := ''FINAL'', MsgID := msgID, Next := nxt, Data := ret, Frag := frag, Message := message\<rparr>"

definition ack_layer :: "string \<Rightarrow> OnionLayer" where
  "ack_layer msgID = zero_layer\<lparr>Type := ''ACK'', MsgID := msgID\<rparr>"

text \<open>
  The whole package a sender emits: a forward onion whose innermost FINAL layer carries the return
  onion, whose innermost layer is the ACK; the return path uses the NACK identifiers in reverse.
\<close>

definition package ::
  "('g \<Rightarrow> string \<Rightarrow> bytes \<Rightarrow> bool) \<Rightarrow> (string \<times> 'g) list \<Rightarrow> (string \<times> 'g) list \<Rightarrow> string \<Rightarrow> string \<Rightarrow> string \<Rightarrow>
   string \<Rightarrow> string list \<Rightarrow> string \<Rightarrow> bool" where
  "package opens hops ret_hops sender frag message msgID nacks onion \<longleftrightarrow>
     length nacks = length hops \<and> list_all wire_id (msgID # nacks) \<and>
     (\<exists>ret. peels opens (final_layer msgID (if ret_hops = [] then [] else fst (hd ret_hops)) ret frag message) sender hops nacks onion \<and>
        (if ret_hops = [] then ret = [] else peels opens (ack_layer msgID) (fst (last ret_hops)) ret_hops (rev nacks) ret))"

lemma Encapsulator_func_ok:
  assumes "crypto_laws C" and "fetch_keys C ask clock 0 (route @ returnRoute) cache = (cache', Ok ())"
    and "GenerateMsgID [] r = Ok (msgID, r1)" and "nack_ids (length route) r1 = Ok (nacks, r2)"
    and "route \<noteq> []" and "length returnRoute \<le> length route"
    and keys: "\<forall>a \<in> set (route @ returnRoute). \<exists>sk. cached_key cache' a = Some (PublicOf C sk)"
    and rand: "76 * (length route + length returnRoute) \<le> length r2"
  shows "\<exists>onion. Encapsulator_func C ask clock message frag route returnRoute cache sender r =
    (cache', Ok ((onion, msgID, hd nacks), drop (76 * (length route + length returnRoute)) r2))"
proof -
  note ok = crypto_laws.cached_wrap_ok [OF assms(1)]
  have cost: "(\<Sum>h\<leftarrow>node_hops cache' as. 76) = 76 * length as" for as :: "addr list" by (induction as) auto
  have len: "length nacks = length route" using nack_ids_shape [OF assms(4)] by simp
  obtain ret where ret: "(if returnRoute \<noteq> []
      then wrap (encrypt_cached C) (ack_layer msgID) (node_hops cache' returnRoute)
        (last returnRoute) (inv_nacks (length route) nacks) r2 else Ok ([], r2)) = Ok (ret, drop (76 * length returnRoute) r2)"
  proof (cases "returnRoute = []")
    case False
    then show ?thesis
      using that ok [of "node_hops cache' returnRoute" "rev nacks" r2 "ack_layer msgID" "last returnRoute"] len keys rand assms(6) inv_nacks_rev [of nacks]
      unfolding cost by auto
  qed (use that in auto)
  have "76 * length route \<le> length (drop (76 * length returnRoute) r2)" using rand by simp
  with ok [of "node_hops cache' route" nacks "drop (76 * length returnRoute) r2"
      "final_layer msgID (if returnRoute \<noteq> [] then hd returnRoute else []) ret frag message" sender] len keys assms(5)
  obtain onion where "wrap (encrypt_cached C)
      (final_layer msgID (if returnRoute \<noteq> [] then hd returnRoute else []) ret frag message)
      (node_hops cache' route) sender nacks (drop (76 * length returnRoute) r2) =
    Ok (onion, drop (76 * length route) (drop (76 * length returnRoute) r2))" unfolding cost by auto
  moreover have "nacks ! 0 = hd nacks" using len assms(5) by (cases nacks) auto
  ultimately show ?thesis using ret assms(2-5) len
    by (auto simp: Encapsulator_func_def encryptOnionLayers_wrap ack_layer_def final_layer_def Let_def
        last_conv_nth hd_conv_nth add.commute distrib_left split: if_splits)
qed

lemma builder_chain:
  assumes "bind_res f (\<lambda>_. bind_res A (\<lambda>(m, r1). bind_res (B r1) (\<lambda>(ns, r2).
    bind_res (R m ns r2) (\<lambda>(ret, r3). bind_res (W m ns ret r3) (\<lambda>(w, r4).
    bind_res (index ns 0) (\<lambda>k. Ok ((w, m, k), r4))))))) = Ok ((onion, msgID, first), r')"
  shows "\<exists>r1 ns r2 ret r3. A = Ok (msgID, r1) \<and> B r1 = Ok (ns, r2) \<and> R msgID ns r2 = Ok (ret, r3) \<and>
    W msgID ns ret r3 = Ok (onion, r') \<and> ns \<noteq> [] \<and> ns ! 0 = first"
proof -
  from assms obtain m r1 where a: "A = Ok (m, r1)" by (cases f; cases A) auto
  with assms obtain ns r2 where b: "B r1 = Ok (ns, r2)" by (cases f; cases "B r1") auto
  with assms a obtain ret r3 where c: "R m ns r2 = Ok (ret, r3)" by (cases f; cases "R m ns r2") auto
  with assms a b obtain w r4 where d: "W m ns ret r3 = Ok (w, r4)" by (cases f; cases "W m ns ret r3") auto
  from assms a b c d show ?thesis by (cases f; cases "ns = []") auto
qed

lemma Encapsulator_wraps:
  assumes "Encapsulator_func C ask clock message frag route returnRoute cache sender r =
      (cache', Ok ((onion, msgID, firstNack), r'))"
  shows "\<exists>nacks r1 r2 ret r3. GenerateMsgID [] r = Ok (msgID, r1) \<and> nack_ids (length route) r1 = Ok (nacks, r2) \<and>
    (if returnRoute \<noteq> [] then wrap (encrypt_cached C) (ack_layer msgID) (node_hops cache' returnRoute)
        (last returnRoute) (inv_nacks (length route) nacks) r2 = Ok (ret, r3) else ret = [] \<and> r3 = r2) \<and>
    wrap (encrypt_cached C) (final_layer msgID (if returnRoute \<noteq> [] then hd returnRoute else []) ret frag message)
        (node_hops cache' route) sender nacks r3 = Ok (onion, r') \<and>
    nacks \<noteq> [] \<and> firstNack = hd nacks"
proof -
  obtain c f where f: "fetch_keys C ask clock 0 (route @ returnRoute) cache = (c, f)" by fastforce
  let ?returning = "\<lambda>m ns r2. if returnRoute \<noteq> []
      then wrap (encrypt_cached C) (ack_layer m) (node_hops c returnRoute) (last returnRoute) (inv_nacks (length route) ns) r2
      else Ok ([], r2)"
  let ?forward = "\<lambda>m ns ret r3. wrap (encrypt_cached C)
      (final_layer m (if returnRoute \<noteq> [] then hd returnRoute else []) ret frag message) (node_hops c route) sender ns r3"
  have e: "Encapsulator_func C ask clock message frag route returnRoute cache sender r =
      (c, bind_res f (\<lambda>_. bind_res (GenerateMsgID [] r) (\<lambda>(m, r1). bind_res (nack_ids (length route) r1) (\<lambda>(ns, r2).
        bind_res (?returning m ns r2) (\<lambda>(ret, r3). bind_res (?forward m ns ret r3) (\<lambda>(w, r4).
        bind_res (index ns 0) (\<lambda>k. Ok ((w, m, k), r4))))))))"
    unfolding Encapsulator_func_def f Let_def encryptOnionLayers_wrap
    by (simp add: ack_layer_def final_layer_def last_conv_nth hd_conv_nth cong: if_cong)
  note cb = assms [unfolded e prod.inject]
  note c = cb [THEN conjunct1] and b = cb [THEN conjunct2]
  from builder_chain [where R = ?returning and W = ?forward, OF b] obtain r1 ns r2 ret r3 where
    w: "GenerateMsgID [] r = Ok (msgID, r1)" "nack_ids (length route) r1 = Ok (ns, r2)"
      "?returning msgID ns r2 = Ok (ret, r3)" "?forward msgID ns ret r3 = Ok (onion, r')" "ns \<noteq> []" "ns ! 0 = firstNack" by blast
  then show ?thesis unfolding c
    by (intro exI [of _ ns] exI [of _ r1] exI [of _ r2] exI [of _ ret] exI [of _ r3]) (auto simp: hd_conv_nth)
qed

lemma encapsulated_package:
  assumes "crypto_laws C"
    and "Encapsulator_func C ask clock message frag route returnRoute cache sender r =
      (cache', Ok ((onion, msgID, firstNack), r'))"
  shows "\<exists>nacks. package (node_opens C) (node_hops cache' route) (node_hops cache' returnRoute)
      sender frag message msgID nacks onion \<and> nacks \<noteq> [] \<and> firstNack = hd nacks \<and>
    (\<exists>r1 r2. GenerateMsgID [] r = Ok (msgID, r1) \<and> nack_ids (length route) r1 = Ok (nacks, r2))"
proof -
  note peel = crypto_laws.cached_wrap [OF assms(1)]
  from Encapsulator_wraps [OF assms(2)] obtain nacks r1 r2 ret r3 where
    msgID: "GenerateMsgID [] r = Ok (msgID, r1)" and nacks: "nack_ids (length route) r1 = Ok (nacks, r2)"
    and ret: "if returnRoute \<noteq> [] then wrap (encrypt_cached C) (ack_layer msgID) (node_hops cache' returnRoute)
        (last returnRoute) (inv_nacks (length route) nacks) r2 = Ok (ret, r3) else ret = [] \<and> r3 = r2"
    and fwd: "wrap (encrypt_cached C) (final_layer msgID (if returnRoute \<noteq> [] then hd returnRoute else []) ret frag message)
        (node_hops cache' route) sender nacks r3 = Ok (onion, r')"
    and first: "nacks \<noteq> []" "firstNack = hd nacks" by blast
  have ids: "wire_id msgID" "length nacks = length route" "list_all wire_id nacks"
    using GenerateMsgID_wire_id [OF msgID] nack_ids_shape [OF nacks] by simp_all
  have "peels (node_opens C) (ack_layer msgID) (last returnRoute) (node_hops cache' returnRoute) (rev nacks) ret"
    if "returnRoute \<noteq> []" using that ret peel inv_nacks_rev [of nacks] ids(2) by simp
  with ret peel [OF fwd] ids first msgID nacks show ?thesis
    by (auto simp: package_def last_map hd_map intro!: exI [of _ nacks] exI [of _ ret])
qed

text \<open>
  C14: what \<open>Encapsulator_func\<close> returns is such a package for the keys now in the cache: every hop,
  and nobody who lacks its key is needed, opens its layer to the previous and next hop, and the
  identifiers returned to the sender are those of the FINAL layer and of the first hop.
\<close>

theorem encapsulator_refines_package:
  assumes "crypto_laws C"
    and "Encapsulator_func C ask clock message frag route returnRoute cache sender r =
      (cache', Ok ((onion, msgID, firstNack), r'))"
  shows "\<exists>nacks. package (node_opens C) (node_hops cache' route) (node_hops cache' returnRoute)
      sender frag message msgID nacks onion \<and> nacks \<noteq> [] \<and> firstNack = hd nacks"
  using encapsulated_package [OF assms] by blast

text \<open>Three nodes, their keys in the cache, and a random source whose bytes count up.\<close>

definition demo_cache :: "nat KeyCache" where
  "demo_cache = [''b:2'' \<mapsto> \<lparr>Key = 2, ExpiresAt = 100\<rparr>, ''d:4'' \<mapsto> \<lparr>Key = 4, ExpiresAt = 100\<rparr>,
     ''a:1'' \<mapsto> \<lparr>Key = 1, ExpiresAt = 100\<rparr>]"

definition demo_rng :: rng where
  "demo_rng = replicate 10 (CHR ''0'') @ replicate 10 (CHR ''1'') @ replicate 10 (CHR ''2'') @ replicate 400 (CHR ''r'')"

abbreviation demo_encapsulation where
  "demo_encapsulation \<equiv> Encapsulator_func ideal_crypto (\<lambda>_ _. Err ErrNet) (\<lambda>_. (5, 5)) ''hello'' [] [''b:2'', ''d:4'']
     [''b:2'', ''a:1''] demo_cache ''a:1'' demo_rng"

lemma id_digits_replicate:
  "d = of_char b mod 16 \<Longrightarrow> d < 10 \<Longrightarrow> id_digits n (replicate n b @ r) = Ok (replicate n (digit d), r)"
  by (induction n) (simp_all add: Let_def)

lemma demo_ids:
  "GenerateMsgID [] demo_rng = Ok (''msg-'' @ replicate 10 (digit 0), drop 10 demo_rng)"
  "nack_ids 2 (drop 10 demo_rng) =
     Ok ([''nack-'' @ replicate 10 (digit 1), ''nack-'' @ replicate 10 (digit 2)], drop 30 demo_rng)"
  by (simp_all add: demo_rng_def GenerateMsgID_def numeral_2_eq_2
      id_digits_replicate [of 0 "CHR ''0''"] id_digits_replicate [of 1 "CHR ''1''"] id_digits_replicate [of 2 "CHR ''2''"])

lemma demo_encapsulation_ok:
  "\<exists>onion. demo_encapsulation =
     (demo_cache, Ok ((onion, ''msg-'' @ replicate 10 (digit 0), ''nack-'' @ replicate 10 (digit 1)),
       drop 304 (drop 30 demo_rng)))"
proof -
  have "fetch_keys ideal_crypto (\<lambda>_ _. Err ErrNet) (\<lambda>_. (5, 5)) 0 ([''b:2'', ''d:4''] @ [''b:2'', ''a:1'']) demo_cache =
    (demo_cache, Ok ())" by (simp add: demo_cache_def get_def)
  moreover have "nack_ids (length [''b:2'', ''d:4'']) (drop 10 demo_rng) =
    Ok ([''nack-'' @ replicate 10 (digit 1), ''nack-'' @ replicate 10 (digit 2)], drop 30 demo_rng)"
    using demo_ids(2) by (simp add: numeral_2_eq_2 del: nack_ids.simps)
  moreover have "\<forall>a \<in> set ([''b:2'', ''d:4''] @ [''b:2'', ''a:1'']).
    \<exists>sk. cached_key demo_cache a = Some (PublicOf ideal_crypto sk)"
    by (simp add: demo_cache_def get_def ideal_crypto_def)
  moreover have "76 * (length [''b:2'', ''d:4''] + length [''b:2'', ''a:1'']) \<le> length (drop 30 demo_rng)"
    by (simp add: demo_rng_def)
  ultimately show ?thesis
    using Encapsulator_func_ok [OF ideal.crypto_laws_axioms _ demo_ids(1), of "\<lambda>_ _. Err ErrNet" "\<lambda>_. (5, 5)" "[''b:2'', ''d:4'']"
        "[''b:2'', ''a:1'']" demo_cache demo_cache _ _ "''hello''" "[]" "''a:1''"]
    by (simp del: nack_ids.simps fetch_keys.simps)
qed

theorem encapsulator_refines_package_witness:
  "\<exists>onion nacks. fst (demo_encapsulation) = demo_cache \<and>
     package (node_opens ideal_crypto) (node_hops demo_cache [''b:2'', ''d:4'']) (node_hops demo_cache [''b:2'', ''a:1''])
       ''a:1'' [] ''hello'' (''msg-'' @ replicate 10 (digit 0)) nacks onion"
proof -
  from demo_encapsulation_ok obtain onion where d: "demo_encapsulation =
     (demo_cache, Ok ((onion, ''msg-'' @ replicate 10 (digit 0), ''nack-'' @ replicate 10 (digit 1)),
       drop 304 (drop 30 demo_rng)))" by blast
  from encapsulator_refines_package [OF ideal.crypto_laws_axioms d] d show ?thesis by auto
qed


section \<open>What each hop sees\<close>

text \<open>\<open>carried C w w'\<close>: peeling some layers off the line \<open>w\<close>, with whatever keys, leaves the line \<open>w'\<close>.\<close>

inductive carried :: "('pk, 'sk) crypto \<Rightarrow> string \<Rightarrow> string \<Rightarrow> bool" for C where
  here: "carried C w w"
| inside: "BroadcastDecrypt C w sk = Ok p \<Longrightarrow> StringToOnionLayer p = Ok l \<Longrightarrow> carried C (Data l) w' \<Longrightarrow> carried C w w'"

lemma carried_trans: "carried C w w' \<Longrightarrow> carried C w' w'' \<Longrightarrow> carried C w w''"
  by (induction rule: carried.induct) (auto intro: carried.intros)

lemma peels_line: "peels (opens_with unseal holds) inner frm hops nacks w \<Longrightarrow> onion_line w"
  by (cases "(opens_with unseal holds, inner, frm, hops, nacks, w)" rule: peels.cases) (auto simp: opens_with_def)

lemma onion_line_no_pipe: "onion_line w \<Longrightarrow> pipe \<notin> set w"
  by (simp add: onion_line_def)

lemma relay_layer_simps [simp]:
  "Type (relay_layer a b n f d) = ''RELAY''" "MsgID (relay_layer a b n f d) = a @ colon # b"
  "Next (relay_layer a b n f d) = n" "From (relay_layer a b n f d) = f" "Data (relay_layer a b n f d) = d"
  "Frag (relay_layer a b n f d) = []" "Message (relay_layer a b n f d) = []"
  by (simp_all add: relay_layer_def zero_layer_def)

lemma final_layer_simps [simp]:
  "Type (final_layer i n d f m) = ''FINAL''" "MsgID (final_layer i n d f m) = i"
  "Next (final_layer i n d f m) = n" "From (final_layer i n d f m) = []" "Data (final_layer i n d f m) = d"
  "Frag (final_layer i n d f m) = f" "Message (final_layer i n d f m) = m"
  by (simp_all add: final_layer_def zero_layer_def)

lemma ack_layer_simps [simp]:
  "Type (ack_layer i) = ''ACK''" "MsgID (ack_layer i) = i" "Next (ack_layer i) = []" "From (ack_layer i) = []"
  "Data (ack_layer i) = []" "Frag (ack_layer i) = []" "Message (ack_layer i) = []"
  by (simp_all add: ack_layer_def zero_layer_def)

lemma parse_relay_layer:
  assumes "wire_id a" "wire_id b" "pipe \<notin> set n" "pipe \<notin> set f" "pipe \<notin> set d"
  shows "StringToOnionLayer (OnionlayerToString (relay_layer a b n f d)) = Ok (relay_layer a b n f d)"
  using assms by (intro StringToOnionLayer_print) (auto simp: wire_id_def)

lemma parse_final_layer:
  assumes "wire_id i" "pipe \<notin> set n" "pipe \<notin> set d" "pipe \<notin> set f"
  shows "StringToOnionLayer (OnionlayerToString (final_layer i n d f m)) = Ok (final_layer i n d f m)"
  using assms by (intro StringToOnionLayer_print) (auto simp: wire_id_def)

lemma peels_carried:
  assumes "peels (opens_with (\<lambda>sk w. BroadcastDecrypt C w sk) holds) inner frm hops nacks w"
    and "\<forall>h \<in> set hops. pipe \<notin> set (fst h) \<and> (\<exists>sk. holds sk (snd h))" and "pipe \<notin> set frm"
    and "list_all wire_id nacks" and "i < length hops"
  shows "\<exists>wi. carried C w wi \<and> peels (opens_with (\<lambda>sk w. BroadcastDecrypt C w sk) holds) inner
    (if i = 0 then frm else fst (hops ! (i - 1))) (drop i hops) (drop i nacks) wi"
  using assms
proof (induction i arbitrary: frm hops nacks w)
  case (Suc i)
  then obtain h h' hs where hops: "hops = h # h' # hs" by (cases hops rule: remdups_adj.cases) auto
  with Suc.prems(1) obtain a b ns where nacks: "nacks = a # b # ns" by (cases nacks rule: remdups_adj.cases) auto
  let ?opens = "opens_with (\<lambda>sk w. BroadcastDecrypt C w sk) holds"
  from Suc.prems(1) hops nacks obtain w' where
    w': "?opens (snd h) w (OnionlayerToString (relay_layer a b (fst h') frm w'))"
    and rest: "peels ?opens inner (fst h) (h' # hs) (b # ns) w'" by auto
  from Suc.prems(2) hops obtain sk where "holds sk (snd h)" by auto
  with w' have dec: "BroadcastDecrypt C w sk = Ok (OnionlayerToString (relay_layer a b (fst h') frm w'))"
    by (simp add: opens_with_def)
  have "StringToOnionLayer (OnionlayerToString (relay_layer a b (fst h') frm w')) = Ok (relay_layer a b (fst h') frm w')"
    using Suc.prems hops nacks onion_line_no_pipe [OF peels_line [OF rest]] by (intro parse_relay_layer) auto
  from carried.inside [OF dec this] have step: "carried C w' wi \<Longrightarrow> carried C w wi" for wi by simp
  have "\<exists>wi. carried C w' wi \<and> peels ?opens inner (if i = 0 then fst h else fst ((h' # hs) ! (i - 1)))
    (drop i (h' # hs)) (drop i (b # ns)) wi"
    using Suc.prems hops nacks rest by (intro Suc.IH) auto
  then show ?case using step hops nacks by (cases i) auto
qed (auto intro: carried.here)

text \<open>
  C13: with the routes \<open>SendWithRetry\<close> builds (the return route is the relays backwards and then the
  sender), the last relay's key opens its forward layer, which names the recipient as next hop, and
  its layer of the return onion, which names the sender as previous hop; the two carry the same pair
  of NACK identifiers, swapped, so the relay can match them. The README's claim that no relay learns
  both ends does not hold.
\<close>

theorem exit_relay_learns_both:
  assumes "crypto_laws C"
    and "Encapsulator_func C ask clock message frag (rs @ [x, dest]) (x # rev rs @ [sender]) cache sender r =
      (cache', Ok ((onion, msgID, firstNack), r'))"
    and "\<forall>a \<in> {x, dest, sender} \<union> set rs. pipe \<notin> set a \<and> (\<exists>sk. cached_key cache' a = Some (PublicOf C sk))"
    and "pipe \<notin> set frag"
  shows "\<exists>a b prev nxt w1 w2 d1 d2. carried C onion w1 \<and> carried C onion w2 \<and>
    node_opens C (cached_key cache' x) w1 (OnionlayerToString (relay_layer a b dest prev d1)) \<and>
    node_opens C (cached_key cache' x) w2 (OnionlayerToString (relay_layer b a nxt sender d2))"
proof -
  let ?f = "node_hops cache' (rs @ [x, dest])" and ?r = "node_hops cache' (x # rev rs @ [sender])"
  from encapsulated_package [OF assms(1,2)] obtain nacks ret where len: "length nacks = Suc (Suc (length rs))"
    and ids: "list_all wire_id (msgID # nacks)"
    and fwd: "peels (node_opens C) (final_layer msgID x ret frag message) sender ?f nacks onion"
    and ret: "peels (node_opens C) (ack_layer msgID) sender ?r (rev nacks) ret"
    by (auto simp: package_def)
  obtain ns a b where nacks: "nacks = ns @ [a, b]" "length ns = length rs"
    using len by (auto simp: length_Suc_conv_rev)
  have hops: "\<forall>h \<in> set ?f. pipe \<notin> set (fst h) \<and> (\<exists>sk. snd h = Some (PublicOf C sk))" and sender: "pipe \<notin> set sender"
    using assms(3) by auto
  note at = peels_carried [OF fwd hops sender]
  from at [of "length rs"] ids nacks obtain w1 prev d1 where
    "carried C onion w1" "node_opens C (cached_key cache' x) w1 (OnionlayerToString (relay_layer a b dest prev d1))"
    by auto
  moreover from at [of "Suc (length rs)"] ids nacks obtain wl where wl: "carried C onion wl"
    "node_opens C (cached_key cache' dest) wl (OnionlayerToString (final_layer msgID x ret frag message))"
    by (auto simp: nth_append)
  from wl(2) assms(3) obtain sk where "BroadcastDecrypt C wl sk = Ok (OnionlayerToString (final_layer msgID x ret frag message))"
    by (auto simp: opens_with_def)
  note opened = this
  have "StringToOnionLayer (OnionlayerToString (final_layer msgID x ret frag message)) = Ok (final_layer msgID x ret frag message)"
    using ids assms(3,4) onion_line_no_pipe [OF peels_line [OF ret]] by (intro parse_final_layer) auto
  from carried.inside [OF opened this carried.here] have "carried C wl ret" by simp
  from carried_trans [OF wl(1) this] have "carried C onion ret" .
  moreover from ret nacks obtain nxt d2 where
    "node_opens C (cached_key cache' x) ret (OnionlayerToString (relay_layer b a nxt sender d2))"
    by (cases rs rule: rev_cases) auto
  ultimately show ?thesis by blast
qed

theorem exit_relay_learns_both_witness:
  "\<exists>onion a b prev nxt w1 w2 d1 d2. fst demo_encapsulation = demo_cache \<and>
    carried ideal_crypto onion w1 \<and> carried ideal_crypto onion w2 \<and>
    BroadcastDecrypt ideal_crypto w1 2 = Ok (OnionlayerToString (relay_layer a b ''d:4'' prev d1)) \<and>
    BroadcastDecrypt ideal_crypto w2 2 = Ok (OnionlayerToString (relay_layer b a nxt ''a:1'' d2))"
proof -
  from demo_encapsulation_ok obtain onion where d: "demo_encapsulation =
     (demo_cache, Ok ((onion, ''msg-'' @ replicate 10 (digit 0), ''nack-'' @ replicate 10 (digit 1)),
       drop 304 (drop 30 demo_rng)))" by blast
  have pub: "PublicOf ideal_crypto sk = sk" for sk by (simp add: ideal_crypto_def)
  then have "node_opens ideal_crypto (cached_key demo_cache ''b:2'') w p \<Longrightarrow> BroadcastDecrypt ideal_crypto w 2 = Ok p" for w p
    by (simp add: opens_with_def demo_cache_def get_def)
  moreover have "\<forall>a \<in> {''b:2'', ''d:4'', ''a:1''} \<union> set []. pipe \<notin> set a \<and>
      (\<exists>sk. cached_key demo_cache a = Some (PublicOf ideal_crypto sk))"
    by (simp add: demo_cache_def get_def pub)
  ultimately show ?thesis
    using exit_relay_learns_both [OF ideal.crypto_laws_axioms, of "\<lambda>_ _. Err ErrNet" "\<lambda>_. (5, 5)" "''hello''" "[]" "[]"
        "''b:2''" "''d:4''" "''a:1''" demo_cache demo_rng demo_cache onion] d
    by (simp del: ball_simps) blast
qed


section \<open>Refreshing keys\<close>

lemma fetch_keys_spec:
  assumes "fetch_keys C ask clock k addrs cache = (cache', out)"
  shows "(\<forall>a. a \<notin> set addrs \<longrightarrow> get cache' a = get cache a) \<and>
    (out = Ok () \<longrightarrow> (\<forall>a \<in> set addrs. \<exists>ck i. get cache' a = Some ck \<and>
       (get cache a = Some ck \<and> fst (clock i) \<le> ExpiresAt ck \<or>
        FetchKeyFromServer C (ask i) a = Ok (Key ck) \<and> ExpiresAt ck = snd (clock i) + 30 * Second))) \<and>
    (\<forall>e. out = Err e \<longrightarrow> (\<exists>a \<in> set addrs. \<exists>i e'. e = ErrFetch a \<and> FetchKeyFromServer C (ask i) a = Err e'))"
  using assms
proof (induction C ask clock k addrs cache rule: fetch_keys.induct)
  case (2 C ask clock i port ports publicKeys)
  let ?stale = "case get publicKeys port of None \<Rightarrow> True | Some cached \<Rightarrow> ExpiresAt cached < fst (clock i)"
  show ?case
  proof (cases ?stale)
    case True
    show ?thesis
    proof (cases "FetchKeyFromServer C (ask i) port")
      case (Ok key)
      let ?ck = "\<lparr>Key = key, ExpiresAt = snd (clock i) + 30 * Second\<rparr>"
      from True Ok "2.prems" have "fetch_keys C ask clock (Suc i) ports (set_key port ?ck publicKeys) = (cache', out)" by simp
      note IH = "2.IH"(1) [OF True Ok this]
      have g: "get (set_key port ?ck publicKeys) a = (if a = port then Some ?ck else get publicKeys a)" for a
        by (simp add: get_def set_key_def)
      show ?thesis
        using IH Ok unfolding g by (auto split: if_splits) (metis CachedKey.select_convs)+
    qed (use True "2.prems" in auto)
  next
    case False
    then obtain cached where "get publicKeys port = Some cached" "fst (clock i) \<le> ExpiresAt cached"
      by (auto split: option.splits)
    with False "2.IH"(2) "2.prems" show ?thesis by (cases "port \<in> set ports") (auto split: if_splits, metis option.inject)
  qed
qed auto

text \<open>
  When the keys of a route have been refreshed, every address of it has a cache entry that had not
  expired when it was checked or was just fetched from the directory and lives 30 seconds more, and no
  other entry has changed; the only error is a failed fetch, reported for an address of the route.
\<close>

theorem fetch_keys_fresh:
  assumes "fetch_keys C ask clock k addrs cache = (cache', out)"
  shows "(\<forall>a. a \<notin> set addrs \<longrightarrow> get cache' a = get cache a) \<and>
    (out = Ok () \<longrightarrow> (\<forall>a \<in> set addrs. \<exists>ck i. get cache' a = Some ck \<and>
       (get cache a = Some ck \<and> fst (clock i) \<le> ExpiresAt ck \<or>
        FetchKeyFromServer C (ask i) a = Ok (Key ck) \<and> ExpiresAt ck = snd (clock i) + 30 * Second))) \<and>
    (\<forall>e. out = Err e \<longrightarrow> (\<exists>a \<in> set addrs. \<exists>i e'. e = ErrFetch a \<and> FetchKeyFromServer C (ask i) a = Err e'))"
  using fetch_keys_spec [OF assms] .

theorem fetch_keys_fresh_witness:
  "\<exists>cache'. fetch_keys ideal_crypto (\<lambda>_ _. Ok (''KEY:'' @ EncodeToString ''kkk'' @ [nl])) (\<lambda>_. (50, 60)) 0 [''b:2'', ''c:3'']
       demo_cache = (cache', Ok ()) \<and>
     get cache' ''b:2'' = Some \<lparr>Key = 2, ExpiresAt = 100\<rparr> \<and>
     (\<exists>ck. get cache' ''c:3'' = Some ck \<and> ExpiresAt ck = 60 + 30 * Second)"
proof -
  have "FetchKeyFromServer ideal_crypto (\<lambda>_. Ok (''KEY:'' @ EncodeToString ''kkk'' @ [nl])) ''c:3'' = Ok 3"
    by (rule FetchKey_reply [OF ideal.crypto_laws_axioms, where b = "''kkk''"])
      (simp_all add: ideal_crypto_def numeral_3_eq_3)
  then have f: "fetch_keys ideal_crypto (\<lambda>_ _. Ok (''KEY:'' @ EncodeToString ''kkk'' @ [nl])) (\<lambda>_. (50, 60)) 0 [''b:2'', ''c:3'']
    demo_cache = (demo_cache(''c:3'' \<mapsto> \<lparr>Key = 3, ExpiresAt = 60 + 30 * Second\<rparr>), Ok ())"
    by (simp add: demo_cache_def get_def set_key_def)
  from fetch_keys_fresh [OF f] f show ?thesis by (auto simp: demo_cache_def get_def)
qed

end
