(* ===== verification/SuperOnion.thy ===== *)
theory SuperOnion
  imports Onion
begin

text \<open>
  Onions for clusters, \<open>Encapsulator_func_super\<close> of \<open>node/super_send.go\<close>: what it builds is a package in
  the sense of \<open>Onion\<close>, and it succeeds exactly when every cluster has a member.
\<close>

section \<open>The package\<close>

lemma super_parts:
  assumes "Encapsulator_func_super C message route returnRoute sender r = Ok ((onion, msgID, firstNack), r')"
  obtains nacks r1 r2 ret r3 where "GenerateMsgID [] r = Ok (msgID, r1)" "nack_ids (length route) r1 = Ok (nacks, r2)"
    "if returnRoute \<noteq> [] then wrap (\<lambda>pks p r. BroadcastEncrypt C p pks r) (ack_layer msgID) (group_hops returnRoute)
        (JoinAddresses (Addrs (last returnRoute))) (rev nacks) r2 = Ok (ret, r3) else ret = [] \<and> r3 = r2"
    "wrap (\<lambda>pks p r. BroadcastEncrypt C p pks r)
        (final_layer msgID (if returnRoute \<noteq> [] then JoinAddresses (Addrs (hd returnRoute)) else []) ret [] message)
        (group_hops route) sender nacks r3 = Ok (onion, r')"
    "nacks \<noteq> []" "firstNack = hd nacks"
proof -
  from assms obtain nacks r1 r2 ret r3 where ids: "GenerateMsgID [] r = Ok (msgID, r1)" "nack_ids (length route) r1 = Ok (nacks, r2)"
    and ret: "if returnRoute \<noteq> [] then wrap (\<lambda>pks p r. BroadcastEncrypt C p pks r) (ack_layer msgID) (group_hops returnRoute)
        (JoinAddresses (Addrs (last returnRoute))) (inv_nacks (length route) nacks) r2 = Ok (ret, r3) else ret = [] \<and> r3 = r2"
    and fwd: "wrap (\<lambda>pks p r. BroadcastEncrypt C p pks r)
        (final_layer msgID (if returnRoute \<noteq> [] then JoinAddresses (Addrs (hd returnRoute)) else []) ret [] message)
        (group_hops route) sender nacks r3 = Ok (onion, r')"
    and first: "nacks \<noteq> []" "firstNack = hd nacks"
    by (auto simp: Encapsulator_func_super_def encryptOnionLayersGroup_wrap bind_res_eq_Ok Let_def ack_layer_def
        final_layer_def zero_layer_def last_conv_nth hd_conv_nth split: prod.splits if_splits)
  have "inv_nacks (length route) nacks = rev nacks"
    using inv_nacks_rev [of nacks] nack_ids_shape [OF ids(2)] by simp
  with ret have "if returnRoute \<noteq> [] then wrap (\<lambda>pks p r. BroadcastEncrypt C p pks r) (ack_layer msgID) (group_hops returnRoute)
        (JoinAddresses (Addrs (last returnRoute))) (rev nacks) r2 = Ok (ret, r3) else ret = [] \<and> r3 = r2" by (simp split: if_splits)
  from that [OF ids this fwd first] show thesis .
qed

lemma super_encapsulated_package:
  assumes "crypto_sep C"
    and "Encapsulator_func_super C message route returnRoute sender r = Ok ((onion, msgID, firstNack), r')"
  shows "\<exists>nacks. package (group_opens C) (group_hops route) (group_hops returnRoute) sender [] message msgID nacks onion \<and>
    nacks \<noteq> [] \<and> firstNack = hd nacks \<and>
    (\<exists>r1 r2. GenerateMsgID [] r = Ok (msgID, r1) \<and> nack_ids (length route) r1 = Ok (nacks, r2))"
proof -
  note peel = crypto_sep.group_wrap [OF assms(1)]
  from assms(2) show ?thesis
  proof (cases rule: super_parts)
    case (1 nacks r1 r2 ret r3)
    have ids: "wire_id msgID" "length nacks = length route" "list_all wire_id nacks"
      using GenerateMsgID_wire_id [OF 1(1)] nack_ids_shape [OF 1(2)] by simp_all
    with 1 peel [OF 1(4)] peel show ?thesis
      by (auto simp: package_def last_map hd_map intro!: exI [of _ nacks] exI [of _ ret] split: if_splits)
  qed
qed

text \<open>
  C27: what the cluster variant returns is a package whose layers every member of the respective
  cluster can open.
\<close>

theorem super_encapsulator_refines_package:
  assumes "crypto_sep C"
    and "Encapsulator_func_super C message route returnRoute sender r = Ok ((onion, msgID, firstNack), r')"
  shows "\<exists>nacks. package (group_opens C) (group_hops route) (group_hops returnRoute) sender [] message msgID nacks onion \<and>
    nacks \<noteq> [] \<and> firstNack = hd nacks"
  using super_encapsulated_package [OF assms] by blast


section \<open>When it succeeds\<close>

lemma wrap_loop_seals:
  "wrap_loop seal hops sender nacks i payload r = Ok (w, r') \<Longrightarrow> j < i \<Longrightarrow> \<exists>p r w r'. seal (snd (hops ! j)) p r = Ok (w, r')"
proof (induction i arbitrary: payload r)
  case (Suc i)
  then show ?case by (cases "j = i") (fastforce simp: bind_res_eq_Ok)+
qed simp

lemma wrap_seals:
  assumes "wrap seal inner hops sender nacks r = Ok (w, r')" and "h \<in> set hops"
  shows "\<exists>p r w r'. seal (snd h) p r = Ok (w, r')"
proof -
  from assms(2) obtain j where j: "j < length hops" "h = hops ! j" by (auto simp: in_set_conv_nth)
  show ?thesis
  proof (cases "j = length hops - 1")
    case True
    with assms(1) j show ?thesis by (auto simp: wrap_def bind_res_eq_Ok)
  next
    case False
    from assms(1) obtain p r1 where "wrap_loop seal hops sender nacks (length hops - 1) p r1 = Ok (w, r')"
      by (auto simp: wrap_def bind_res_eq_Ok)
    from wrap_loop_seals [OF this, of j] False j show ?thesis by simp
  qed
qed

lemma wrap_group_members:
  assumes "wrap (\<lambda>pks p r. BroadcastEncrypt C p pks r) inner (group_hops route) sender nacks r = Ok (w, r')"
    and "g \<in> set route"
  shows "PubKeys g \<noteq> []"
  using wrap_seals [OF assms(1), of "(JoinAddresses (Addrs g), PubKeys g)"] assms(2)
  by (auto simp: BroadcastEncrypt_def)

definition group_cost :: "'pk LayerGroup list \<Rightarrow> nat" where
  "group_cost gs = sum_list (map (\<lambda>g. 44 + 32 * length (PubKeys g)) gs)"

lemma group_hops_cost: "(\<Sum>h\<leftarrow>group_hops gs. 44 + 32 * length (snd h)) = group_cost gs"
  by (simp add: group_cost_def o_def)

lemma group_wrap_build:
  assumes "crypto_sep C" and "gs \<noteq> []" and "length gs \<le> length nacks" and "group_cost gs \<le> length r"
    and "\<forall>g \<in> set gs. PubKeys g \<noteq> [] \<and> list_all (\<lambda>pk. \<exists>sk. pk = PublicOf C sk) (PubKeys g)"
  shows "\<exists>w. wrap (\<lambda>pks p r. BroadcastEncrypt C p pks r) inner (group_hops gs) sender nacks r = Ok (w, drop (group_cost gs) r)"
  using crypto_sep.group_wrap_ok [OF assms(1), of "group_hops gs" nacks r inner sender] assms(2-)
  unfolding group_hops_cost by auto

lemma super_iff_members:
  assumes "crypto_sep C" and "GenerateMsgID [] r = Ok (msgID, r1)" and "nack_ids (length route) r1 = Ok (nacks, r2)"
    and "route \<noteq> []" and "length returnRoute \<le> length route"
    and keys: "\<forall>g \<in> set route \<union> set returnRoute. list_all (\<lambda>pk. \<exists>sk. pk = PublicOf C sk) (PubKeys g)"
    and rand: "group_cost route + group_cost returnRoute \<le> length r2"
  shows "(\<exists>x. Encapsulator_func_super C message route returnRoute sender r = Ok x) \<longleftrightarrow>
    (\<forall>g \<in> set route \<union> set returnRoute. PubKeys g \<noteq> [])"
proof
  assume "\<exists>x. Encapsulator_func_super C message route returnRoute sender r = Ok x"
  then obtain onion i n r' where "Encapsulator_func_super C message route returnRoute sender r = Ok ((onion, i, n), r')"
    by auto
  then show "\<forall>g \<in> set route \<union> set returnRoute. PubKeys g \<noteq> []"
    by (cases rule: super_parts) (auto dest: wrap_group_members split: if_splits)
next
  assume members: "\<forall>g \<in> set route \<union> set returnRoute. PubKeys g \<noteq> []"
  have len: "length nacks = length route" using nack_ids_shape [OF assms(3)] by simp
  obtain ret where ret: "(if returnRoute \<noteq> []
      then wrap (\<lambda>pks p r. BroadcastEncrypt C p pks r) (ack_layer msgID) (group_hops returnRoute)
        (JoinAddresses (Addrs (last returnRoute))) (inv_nacks (length route) nacks) r2 else Ok ([], r2))
      = Ok (ret, drop (group_cost returnRoute) r2)"
  proof (cases "returnRoute = []")
    case False
    then show ?thesis
      using group_wrap_build [OF assms(1) False, of "rev nacks" r2 "ack_layer msgID" "JoinAddresses (Addrs (last returnRoute))"]
        that len rand assms(5) keys members inv_nacks_rev [of nacks] by auto
  qed (use that in \<open>auto simp: group_cost_def\<close>)
  have "group_cost route \<le> length (drop (group_cost returnRoute) r2)" using rand by simp
  from group_wrap_build [OF assms(1,4) _ this, of nacks
      "final_layer msgID (if returnRoute \<noteq> [] then JoinAddresses (Addrs (hd returnRoute)) else []) ret [] message" sender]
  obtain w where "wrap (\<lambda>pks p r. BroadcastEncrypt C p pks r)
      (final_layer msgID (if returnRoute \<noteq> [] then JoinAddresses (Addrs (hd returnRoute)) else []) ret [] message)
      (group_hops route) sender nacks (drop (group_cost returnRoute) r2)
      = Ok (w, drop (group_cost route) (drop (group_cost returnRoute) r2))"
    using len keys members by auto
  then show "\<exists>x. Encapsulator_func_super C message route returnRoute sender r = Ok x"
    using ret assms(2-4) len
    by (auto simp: Encapsulator_func_super_def encryptOnionLayersGroup_wrap ack_layer_def final_layer_def zero_layer_def
        Let_def last_conv_nth hd_conv_nth split: if_splits)
qed

text \<open>
  Given identifiers, enough random bytes and usable keys, and a return route no longer than the
  route, building for clusters succeeds exactly when no cluster of the two routes is empty.
\<close>

theorem super_succeeds_iff_members:
  assumes "crypto_sep C" and "GenerateMsgID [] r = Ok (msgID, r1)" and "nack_ids (length route) r1 = Ok (nacks, r2)"
    and "route \<noteq> []" and "length returnRoute \<le> length route"
    and keys: "\<forall>g \<in> set route \<union> set returnRoute. list_all (\<lambda>pk. \<exists>sk. pk = PublicOf C sk) (PubKeys g)"
    and rand: "group_cost route + group_cost returnRoute \<le> length r2"
  shows "(\<exists>x. Encapsulator_func_super C message route returnRoute sender r = Ok x) \<longleftrightarrow>
    (\<forall>g \<in> set route \<union> set returnRoute. PubKeys g \<noteq> [])"
  using assms by (rule super_iff_members)


section \<open>A concrete package\<close>

definition demo_groups :: "nat LayerGroup list" where
  "demo_groups = [\<lparr>Addrs = [''b:2'', ''c:3''], PubKeys = [2, 3]\<rparr>, \<lparr>Addrs = [''d:4''], PubKeys = [4]\<rparr>]"

definition demo_return :: "nat LayerGroup list" where
  "demo_return = [\<lparr>Addrs = [''b:2'', ''c:3''], PubKeys = [2, 3]\<rparr>, \<lparr>Addrs = [''a:1''], PubKeys = [1]\<rparr>]"

lemmas demo_group_defs = demo_groups_def demo_return_def

lemma demo_group_ids:
  "nack_ids (length demo_groups) (drop 10 demo_rng) =
     Ok ([''nack-'' @ replicate 10 (digit 1), ''nack-'' @ replicate 10 (digit 2)], drop 30 demo_rng)"
  using demo_ids(2) by (simp add: demo_groups_def numeral_2_eq_2 del: nack_ids.simps)

theorem super_succeeds_iff_members_witness:
  "(\<exists>x. Encapsulator_func_super ideal_crypto ''hello'' demo_groups demo_return ''a:1'' demo_rng = Ok x) \<and>
   \<not> (\<exists>x. Encapsulator_func_super ideal_crypto ''hello'' (demo_groups[0 := \<lparr>Addrs = [], PubKeys = []\<rparr>]) demo_return
        ''a:1'' demo_rng = Ok x)"
proof -
  have pub: "PublicOf ideal_crypto sk = sk" for sk by (simp add: ideal_crypto_def)
  let ?gs = "demo_groups[0 := \<lparr>Addrs = [], PubKeys = []\<rparr>]"
  from demo_group_ids have ids': "nack_ids (length ?gs) (drop 10 demo_rng) =
    Ok ([''nack-'' @ replicate 10 (digit 1), ''nack-'' @ replicate 10 (digit 2)], drop 30 demo_rng)" by simp
  have "(\<exists>x. Encapsulator_func_super ideal_crypto ''hello'' demo_groups demo_return ''a:1'' demo_rng = Ok x) \<longleftrightarrow>
    (\<forall>g \<in> set demo_groups \<union> set demo_return. PubKeys g \<noteq> [])"
    by (rule super_succeeds_iff_members [OF ideal.crypto_sep_axioms demo_ids(1) demo_group_ids])
      (simp_all add: demo_group_defs pub group_cost_def demo_rng_def)
  moreover have "(\<exists>x. Encapsulator_func_super ideal_crypto ''hello'' ?gs demo_return ''a:1'' demo_rng = Ok x) \<longleftrightarrow>
    (\<forall>g \<in> set ?gs \<union> set demo_return. PubKeys g \<noteq> [])"
    by (rule super_succeeds_iff_members [OF ideal.crypto_sep_axioms demo_ids(1) ids'])
      (simp_all add: demo_group_defs pub group_cost_def demo_rng_def)
  ultimately show ?thesis by (simp add: demo_group_defs)
qed

lemma demo_super_ok:
  "\<exists>onion msgID nack r'. Encapsulator_func_super ideal_crypto ''hello'' demo_groups demo_return ''a:1'' demo_rng =
     Ok ((onion, msgID, nack), r')"
proof -
  have pub: "PublicOf ideal_crypto sk = sk" for sk by (simp add: ideal_crypto_def)
  have "(\<exists>x. Encapsulator_func_super ideal_crypto ''hello'' demo_groups demo_return ''a:1'' demo_rng = Ok x) \<longleftrightarrow>
    (\<forall>g \<in> set demo_groups \<union> set demo_return. PubKeys g \<noteq> [])"
    by (rule super_iff_members [OF ideal.crypto_sep_axioms demo_ids(1) demo_group_ids])
      (simp_all add: demo_group_defs pub group_cost_def demo_rng_def)
  then show ?thesis by (auto simp: demo_group_defs)
qed

theorem super_encapsulator_refines_package_witness:
  "\<exists>onion msgID nack r' nacks.
     Encapsulator_func_super ideal_crypto ''hello'' demo_groups demo_return ''a:1'' demo_rng = Ok ((onion, msgID, nack), r') \<and>
     package (group_opens ideal_crypto) (group_hops demo_groups) (group_hops demo_return) ''a:1'' [] ''hello'' msgID nacks onion"
  using demo_super_ok super_encapsulator_refines_package [OF ideal.crypto_sep_axioms] by blast

end
