(* ===== verification/Network.thy ===== *)
theory Network
  imports SuperOnion
begin

text \<open>
  Nodes connected by the network. A connection to an address that accepts it carries one line to
  the node behind it; what the node sends in turn joins the lines in flight. Each step takes the
  draws of the node's random generator and the time of day from the outside, so a statement about
  every environment covers every shuffle and every clock.

  The properties put the sender, the relays and the recipient together: an onion whose hops are
  reachable delivers the message and brings the acknowledgement back, for single relays and for
  clusters with a reachable member; when a hop is unreachable the NACK travels back to the sender.
\<close>

section \<open>Nodes and lines in flight\<close>

type_synonym ('pk, 'sk) net = "addr \<rightharpoonup> ('pk, 'sk) Node"
type_synonym env = "(draws \<times> time) list"

definition serve ::
  "('pk, 'sk) crypto \<Rightarrow> (addr \<Rightarrow> bool) \<Rightarrow> draws \<times> time \<Rightarrow> addr \<times> string \<Rightarrow> ('pk, 'sk) net \<Rightarrow>
   (('pk, 'sk) net \<times> (addr \<times> string) list) res" where
  "serve C up e msg net =
     (case net (fst msg) of
        None \<Rightarrow> Ok (net, [])
      | Some n \<Rightarrow>
          bind_res (handlerroutine C (\<lambda>_. up) (fst e) (snd e) (snd msg @ [nl]) n) (\<lambda>(n', log, rep).
            Ok (net(fst msg \<mapsto> n'), delivered log)))"

fun run_net ::
  "('pk, 'sk) crypto \<Rightarrow> (addr \<Rightarrow> bool) \<Rightarrow> env \<Rightarrow> (addr \<times> string) list \<Rightarrow> ('pk, 'sk) net \<Rightarrow>
   (('pk, 'sk) net \<times> (addr \<times> string) list) res" where
  "run_net C up [] q net = Ok (net, q)"
| "run_net C up (e # es) [] net = Ok (net, [])"
| "run_net C up (e # es) (msg # q) net =
     bind_res (serve C up e msg net) (\<lambda>(net', out). run_net C up es (q @ out) net')"

lemma run_net_idle [simp]: "run_net C up es [] net = Ok (net, [])"
  by (cases es) auto

lemma run_net_append:
  "run_net C up (es @ es') q net = bind_res (run_net C up es q net) (\<lambda>(net', q'). run_net C up es' q' net')"
proof (induction C up es q net rule: run_net.induct)
  case (3 C up e es msg q net)
  then show ?case by (cases "serve C up e msg net") auto
qed auto

lemma run_net_one: "run_net C up [e] [msg] net = serve C up e msg net"
  by (cases "serve C up e msg net") auto


section \<open>One hop\<close>

text \<open>The nodes a hop's address text names, and what makes a hop usable.\<close>

abbreviation members :: "string \<times> 'g \<Rightarrow> addr set" where
  "members h \<equiv> set (ParseAddresses (fst h))"

definition good_hop ::
  "('sk \<Rightarrow> 'g \<Rightarrow> bool) \<Rightarrow> (addr \<Rightarrow> bool) \<Rightarrow> ('pk, 'sk) net \<Rightarrow> string \<times> 'g \<Rightarrow> bool" where
  "good_hop holds up net h \<longleftrightarrow> colon \<in> set (fst h) \<and> pipe \<notin> set (fst h) \<and> (\<exists>b \<in> members h. up b) \<and>
     (\<forall>b \<in> members h. up b \<longrightarrow> (\<exists>n. net b = Some n \<and> holds (PrivateKey n) (snd h)))"

lemma good_hop_cong:
  "good_hop holds up net h \<Longrightarrow> (\<And>b. b \<in> members h \<Longrightarrow> up b \<Longrightarrow> net' b = net b) \<Longrightarrow> good_hop holds up net' h"
  by (auto simp: good_hop_def)

text \<open>What carrying a message may change in a relay.\<close>

definition quiet :: "string set \<Rightarrow> ('pk, 'sk) Node \<Rightarrow> ('pk, 'sk) Node \<Rightarrow> bool" where
  "quiet ids n n' \<longleftrightarrow> n' = n\<lparr>SeenMsgs := SeenMsgs n', PendingRelays := PendingRelays n'\<rparr> \<and>
     (\<forall>m. m \<notin> ids \<longrightarrow> SeenMsgs n' m = SeenMsgs n m)"

lemma quiet_same:
  assumes "quiet ids n n'"
  shows "PrivateKey n' = PrivateKey n" "PendingACKs n' = PendingACKs n" "Chans n' = Chans n"
    "ReceivedMsgs n' = ReceivedMsgs n" "m \<notin> ids \<Longrightarrow> SeenMsgs n' m = SeenMsgs n m"
  using assms by (cases n; cases n'; auto simp: quiet_def)+

lemma quiet_mono: "quiet ids n n' \<Longrightarrow> ids \<subseteq> ids' \<Longrightarrow> quiet ids' n n'"
  by (auto simp: quiet_def)

lemma first_up:
  assumes "\<exists>b \<in> set as. up b"
  shows "\<exists>c \<in> set as. up c \<and> (case filter up (fst (Shuffle ds as)) of [] \<Rightarrow> [] | a # _ \<Rightarrow> [(a, msg)]) = [(c, msg)]"
proof -
  have "filter up (fst (Shuffle ds as)) \<noteq> []" using assms by (auto simp: filter_empty_conv)
  then obtain c cs where c: "filter up (fst (Shuffle ds as)) = c # cs" by (cases "filter up (fst (Shuffle ds as))") auto
  have "c \<in> set (filter up (fst (Shuffle ds as)))" unfolding c by simp
  then have "c \<in> set as" "up c" by simp_all
  with c show ?thesis by auto
qed

lemma serve_onion:
  assumes "net b = Some n" and "opens_with (\<lambda>sk w. BroadcastDecrypt C w sk) holds g w (OnionlayerToString l)"
    and "holds (PrivateKey n) g" and "StringToOnionLayer (OnionlayerToString l) = Ok l"
  shows "serve C up (ds, now) (b, w) net =
    bind_res (handle_layer (\<lambda>_. up) ds now l n) (\<lambda>(n', log, rep). Ok (net(b \<mapsto> n'), delivered log))"
  using assms handlerroutine_onion [of w C n l "\<lambda>_. up" ds now] by (simp add: serve_def opens_with_def)

lemma serve_relay:
  assumes "net b = Some n"
    and "opens_with (\<lambda>sk w. BroadcastDecrypt C w sk) holds g w (OnionlayerToString (relay_layer x y nxt frm w'))"
    and "holds (PrivateKey n) g" and "wire_id x" "wire_id y" "pipe \<notin> set nxt" "pipe \<notin> set frm" "pipe \<notin> set w'"
    and "colon \<in> set nxt" and "\<exists>c \<in> set (ParseAddresses nxt). up c" and "SeenMsgs n (x @ colon # y) = None"
  shows "\<exists>c \<in> set (ParseAddresses nxt). up c \<and> (\<exists>n'. serve C up e (b, w) net = Ok (net(b \<mapsto> n'), [(c, w')]) \<and>
    quiet {x @ colon # y} n n' \<and> PendingRelays n' = (PendingRelays n)(y \<mapsto> \<lparr>PrevNackID = x, PrevNodeAddr = frm\<rparr>))"
proof -
  obtain ds now where e: "e = (ds, now)" by (cases e)
  have split: "SplitN colon 2 (x @ colon # y) = [x, y]" using assms(4) by (simp add: numeral_2_eq_2 wire_id_def)
  from first_up [where ds = ds and msg = w', OF assms(10)] obtain c where c: "c \<in> set (ParseAddresses nxt)" "up c"
    "(case filter up (fst (Shuffle ds (ParseAddresses nxt))) of [] \<Rightarrow> [] | a # _ \<Rightarrow> [(a, w')]) = [(c, w')]" by blast
  let ?send = "send_first (\<lambda>_. up) (fst (Shuffle ds (ParseAddresses nxt))) w' []"
  have sent: "fst ?send" using assms(10) by (simp add: send_first_up)
  have out: "delivered (snd ?send) = [(c, w')]" using c(3) by (simp add: delivered_send_first_up)
  let ?n = "n\<lparr>SeenMsgs := (SeenMsgs n)(x @ colon # y \<mapsto> now),
    PendingRelays := (PendingRelays n)(y \<mapsto> \<lparr>PrevNackID = x, PrevNodeAddr = frm\<rparr>)\<rparr>"
  have "handle_layer (\<lambda>_. up) ds now (relay_layer x y nxt frm w') n = Ok (?n, snd ?send, [])"
    using sent assms(9,11) split by (simp add: handle_layer_def handle_relay_def seenMsg_def case_prod_beta)
  moreover have "StringToOnionLayer (OnionlayerToString (relay_layer x y nxt frm w')) = Ok (relay_layer x y nxt frm w')"
    using assms(4-8) by (rule parse_relay_layer)
  ultimately have "serve C up e (b, w) net = Ok (net(b \<mapsto> ?n), [(c, w')])"
    using serve_onion [where net = net and b = b and holds = holds and g = g, OF assms(1-3)] out by (simp add: e)
  moreover have "quiet {x @ colon # y} n ?n" by (auto simp: quiet_def)
  ultimately show ?thesis using c(1,2) by (intro bexI [of _ c] conjI exI [of _ ?n]) simp_all
qed



section \<open>A whole path\<close>

definition pair_id :: "string list \<Rightarrow> nat \<Rightarrow> string" where
  "pair_id nacks i = nacks ! i @ colon # nacks ! Suc i"

definition pair_ids :: "string list \<Rightarrow> string set" where
  "pair_ids nacks = pair_id nacks ` {i. Suc i < length nacks}"

lemma pair_ids_Cons [simp]: "pair_ids (a # b # ns) = insert (a @ colon # b) (pair_ids (b # ns))"
proof -
  have "{i. Suc i < length (a # b # ns)} = insert 0 (Suc ` {i. Suc i < length (b # ns)})"
    by (auto simp: image_iff less_Suc_eq_0_disj)
  then show ?thesis by (simp add: pair_ids_def pair_id_def image_image)
qed

definition fresh :: "string set \<Rightarrow> ('pk, 'sk) net \<Rightarrow> addr set \<Rightarrow> bool" where
  "fresh ids net as \<longleftrightarrow> (\<forall>a \<in> as. \<forall>n. net a = Some n \<longrightarrow> (\<forall>m \<in> ids. SeenMsgs n m = None))"

abbreviation all_members :: "(string \<times> 'g) list \<Rightarrow> addr list" where
  "all_members hops \<equiv> concat (map (\<lambda>h. ParseAddresses (fst h)) hops)"

lemma fresh_upd:
  "fresh ids net as \<Longrightarrow> b \<notin> as' \<Longrightarrow> ids' \<subseteq> ids \<Longrightarrow> as' \<subseteq> as \<Longrightarrow> fresh ids' (net(b \<mapsto> n')) as'"
  unfolding fresh_def by (metis fun_upd_other subsetD)

text \<open>Relaying changes relays only, and those only quietly.\<close>

definition relayed :: "string set \<Rightarrow> addr set \<Rightarrow> ('pk, 'sk) net \<Rightarrow> ('pk, 'sk) net \<Rightarrow> bool" where
  "relayed ids as net net' \<longleftrightarrow> (\<forall>a. a \<notin> as \<longrightarrow> net' a = net a) \<and> (\<forall>a. net a = None \<longrightarrow> net' a = None) \<and>
     (\<forall>a n. net a = Some n \<longrightarrow> (\<exists>n'. net' a = Some n' \<and> quiet ids n n'))"

lemma quiet_refl [simp]: "quiet ids n n"
  by (simp add: quiet_def)

lemma quiet_trans: "quiet ids n n' \<Longrightarrow> quiet ids n' n'' \<Longrightarrow> quiet ids n n''"
  by (cases n; cases n'; cases n'') (auto simp: quiet_def)

lemma relayed_step:
  assumes "net b = Some n" and "quiet {i} n n'" and "relayed ids as (net(b \<mapsto> n')) net'"
  shows "relayed (insert i ids) (insert b as) net net'"
proof -
  have more: "quiet ids m m' \<Longrightarrow> quiet (insert i ids) m m'" for m m' :: "('a, 'b) Node" by (erule quiet_mono) auto
  have n: "quiet (insert i ids) n n'" using assms(2) by (rule quiet_mono) simp
  have "\<exists>m'. net' a = Some m' \<and> quiet (insert i ids) m m'" if a: "net a = Some m" for a m
  proof (cases "a = b")
    case True
    have "(net(b \<mapsto> n')) b = Some n'" by simp
    with True obtain m' where "net' a = Some m'" "quiet ids n' m'" using assms(3) unfolding relayed_def by blast
    with True a assms(1) show ?thesis using quiet_trans [OF n more] by auto
  next
    case False
    then have "(net(b \<mapsto> n')) a = Some m" using a by simp
    then show ?thesis using assms(3) more unfolding relayed_def by metis
  qed
  moreover have "net' a = None" if "net a = None" for a
  proof -
    have "(net(b \<mapsto> n')) a = None" using that assms(1) by auto
    then show ?thesis using assms(3) unfolding relayed_def by blast
  qed
  ultimately show ?thesis using assms(3) by (auto simp: relayed_def)
qed

lemma relayed_mono: "relayed ids as net net' \<Longrightarrow> as \<subseteq> as' \<Longrightarrow> relayed ids as' net net'"
  by (auto simp: relayed_def)

text \<open>The outermost layer of an onion with hops to go.\<close>

lemma peels_relay:
  assumes "peels (opens_with unseal holds) inner frm (h # hs) nacks w" and "hs \<noteq> []"
  obtains x y ns w' where "nacks = x # y # ns" "opens_with unseal holds (snd h) w (OnionlayerToString (relay_layer x y (fst (hd hs)) frm w'))"
    and "peels (opens_with unseal holds) inner (fst h) hs (y # ns) w'" and "pipe \<notin> set w'"
proof -
  from assms obtain x y ns where n: "nacks = x # y # ns" by (cases hs; cases nacks rule: remdups_adj.cases) auto
  with assms obtain w' where w': "opens_with unseal holds (snd h) w (OnionlayerToString (relay_layer x y (fst (hd hs)) frm w'))"
    "peels (opens_with unseal holds) inner (fst h) hs (y # ns) w'" by (cases hs) auto
  show thesis by (rule that [OF n w' onion_line_no_pipe [OF peels_line [OF w'(2)]]])
qed

lemma good_hops_other:
  assumes "\<forall>k \<in> set hops. good_hop holds up net k" and "b \<notin> set (all_members hops)"
  shows "\<forall>k \<in> set hops. good_hop holds up (net(b \<mapsto> n')) k"
proof
  fix k
  assume k: "k \<in> set hops"
  then have "b \<notin> members k" using assms(2) by auto
  with k assms(1) show "good_hop holds up (net(b \<mapsto> n')) k" by (metis good_hop_cong fun_upd_other)
qed

lemma relay_path:
  assumes "peels (opens_with (\<lambda>sk w. BroadcastDecrypt C w sk) holds) inner frm hops nacks w"
    and "\<forall>h \<in> set hops. good_hop holds up net h" and "distinct (all_members hops)"
    and "list_all wire_id nacks" and "pipe \<notin> set frm" and "fresh (pair_ids nacks) net (set (all_members (butlast hops)))"
    and "b \<in> members (hd hops)" and "up b" and "length es = length hops - 1"
  shows "\<exists>net' c w'. run_net C up es [(b, w)] net = Ok (net', [(c, w')]) \<and> c \<in> members (last hops) \<and> up c \<and>
    opens_with (\<lambda>sk w. BroadcastDecrypt C w sk) holds (snd (last hops)) w' (OnionlayerToString inner) \<and>
    relayed (pair_ids nacks) (set (all_members (butlast hops))) net net'"
  using assms
proof (induction hops arbitrary: frm nacks w b net es)
  case (Cons h hops)
  let ?opens = "opens_with (\<lambda>sk w. BroadcastDecrypt C w sk) holds"
  show ?case
  proof (cases hops)
    case Nil
    with Cons.prems show ?thesis by (auto simp: relayed_def)
  next
    case (Cons h' hs)
    obtain e es' where es: "es = e # es'" using Cons.prems(9) Cons by (cases es) auto
    obtain x y ns w' where nacks: "nacks = x # y # ns"
      and opened: "?opens (snd h) w (OnionlayerToString (relay_layer x y (fst h') frm w'))"
      and rest: "peels ?opens inner (fst h) (h' # hs) (y # ns) w'" and w': "pipe \<notin> set w'"
      by (rule peels_relay [OF Cons.prems(1)]) (use Cons in auto)
    from Cons.prems(2,7,8) obtain n where n: "net b = Some n" "holds (PrivateKey n) (snd h)" by (auto simp: good_hop_def)
    have ids: "wire_id x" "wire_id y" "pipe \<notin> set frm" and h': "good_hop holds up net h'"
      using Cons.prems(2,4,5) nacks Cons by auto
    have "SeenMsgs n (x @ colon # y) = None"
      using Cons.prems(6,7) Cons nacks n(1) by (auto simp: fresh_def)
    from serve_relay [where net = net and b = b and holds = holds and g = "snd h" and up = up and e = e,
        OF n(1) opened n(2) ids(1,2) _ ids(3) w' _ _ this] h'
    obtain c n' where c: "c \<in> members h'" "up c" and step: "serve C up e (b, w) net = Ok (net(b \<mapsto> n'), [(c, w')])"
      and n': "quiet {x @ colon # y} n n'" by (auto simp: good_hop_def)
    have b: "b \<notin> set (all_members (h' # hs))" using Cons.prems(3,7) Cons by auto
    have "\<exists>net' d v. run_net C up es' [(c, w')] (net(b \<mapsto> n')) = Ok (net', [(d, v)]) \<and> d \<in> members (last (h' # hs)) \<and>
      up d \<and> ?opens (snd (last (h' # hs))) v (OnionlayerToString inner) \<and>
      relayed (pair_ids (y # ns)) (set (all_members (butlast (h' # hs)))) (net(b \<mapsto> n')) net'"
    proof (rule Cons.IH [unfolded Cons, OF rest])
      show "\<forall>k \<in> set (h' # hs). good_hop holds up (net(b \<mapsto> n')) k"
        by (rule good_hops_other [OF _ b]) (use Cons.prems(2) \<open>hops = h' # hs\<close> in simp)
      have "set (all_members (butlast (h' # hs))) \<subseteq> set (all_members (h' # hs))"
        by (metis append_butlast_last_id concat_append list.distinct(1) map_append set_append sup_ge1)
      with b have "b \<notin> set (all_members (butlast (h' # hs)))" by blast
      then show "fresh (pair_ids (y # ns)) (net(b \<mapsto> n')) (set (all_members (butlast (h' # hs))))"
        by (rule fresh_upd [OF Cons.prems(6)]) (auto simp: nacks \<open>hops = h' # hs\<close>)
      show "pipe \<notin> set (fst h)" using Cons.prems(2) by (simp add: good_hop_def)
    qed (use Cons.prems Cons nacks es c in auto)
    then obtain net' d v where "run_net C up es' [(c, w')] (net(b \<mapsto> n')) = Ok (net', [(d, v)])"
      and "d \<in> members (last (h' # hs))" "up d" "?opens (snd (last (h' # hs))) v (OnionlayerToString inner)"
      and "relayed (pair_ids (y # ns)) (set (all_members (butlast (h' # hs)))) (net(b \<mapsto> n')) net'" by blast
    moreover from relayed_mono [OF relayed_step [OF n(1) n' this(5)]]
    have "relayed (pair_ids nacks) (set (all_members (butlast (h # hops)))) net net'"
      using Cons Cons.prems(7) nacks by auto
    ultimately show ?thesis using step Cons es by (intro exI [of _ net'] exI [of _ d] exI [of _ v]) simp
  qed
qed simp



section \<open>There and back\<close>

lemma serve_final:
  assumes "net c = Some n"
    and "opens_with (\<lambda>sk w. BroadcastDecrypt C w sk) holds g w (OnionlayerToString (final_layer msgID nxt ret [] message))"
    and "holds (PrivateKey n) g" and "wire_id msgID" "pipe \<notin> set nxt" "pipe \<notin> set ret" "ret \<noteq> []"
    and "\<exists>d \<in> set (ParseAddresses nxt). up d" and "SeenMsgs n msgID = None"
  shows "\<exists>d \<in> set (ParseAddresses nxt). up d \<and> serve C up e (c, w) net =
    Ok (net(c \<mapsto> n\<lparr>SeenMsgs := (SeenMsgs n)(msgID \<mapsto> snd e), ReceivedMsgs := ReceivedMsgs n @ [message]\<rparr>), [(d, ret)])"
proof -
  obtain ds now where e: "e = (ds, now)" by (cases e)
  let ?l = "final_layer msgID nxt ret [] message"
  let ?n = "n\<lparr>SeenMsgs := (SeenMsgs n)(msgID \<mapsto> now), ReceivedMsgs := ReceivedMsgs n @ [message]\<rparr>"
  from first_up [where ds = ds and msg = ret, OF assms(8)] obtain d where d: "d \<in> set (ParseAddresses nxt)" "up d"
    "(case filter up (fst (Shuffle ds (ParseAddresses nxt))) of [] \<Rightarrow> [] | a # _ \<Rightarrow> [(a, ret)]) = [(d, ret)]" by blast
  let ?send = "send_first (\<lambda>_. up) (fst (Shuffle ds (ParseAddresses nxt))) ret []"
  have sent: "fst ?send" using assms(8) by (simp add: send_first_up)
  have out: "delivered (snd ?send) = [(d, ret)]" using d(3) by (simp add: delivered_send_first_up)
  have "nxt \<noteq> []" using assms(8) by (auto simp: ParseAddresses_def)
  then have "handle_layer (\<lambda>_. up) ds now ?l n = Ok (?n, snd ?send, [])"
    using sent assms(7,9) by (simp add: handle_layer_def handle_final_def seenMsg_def send_ack_def case_prod_beta)
  moreover have "StringToOnionLayer (OnionlayerToString ?l) = Ok ?l" using assms(4-6) by (intro parse_final_layer) auto
  ultimately have "serve C up e (c, w) net = Ok (net(c \<mapsto> ?n), [(d, ret)])"
    using serve_onion [where net = net and b = c and holds = holds and g = g, OF assms(1-3)] out by (simp add: e)
  with d(1,2) show ?thesis by (auto simp: e)
qed

lemma serve_ack:
  assumes "net s = Some n"
    and "opens_with (\<lambda>sk w. BroadcastDecrypt C w sk) holds g w (OnionlayerToString (ack_layer msgID))"
    and "holds (PrivateKey n) g" and "wire_id msgID" and "PendingACKs n msgID = Some ch" and "Chans n ch = []"
  shows "serve C up e (s, w) net = Ok (net(s \<mapsto> n\<lparr>Chans := (Chans n)(ch := [True]),
      PendingACKs := (PendingACKs n)(msgID := None)\<rparr>), [])"
proof -
  obtain ds now where e: "e = (ds, now)" by (cases e)
  have "StringToOnionLayer (OnionlayerToString (ack_layer msgID)) = Ok (ack_layer msgID)"
    using assms(4) by (intro StringToOnionLayer_print) (auto simp: wire_id_def)
  moreover have "handle_layer (\<lambda>_. up) ds now (ack_layer msgID) n =
    Ok (n\<lparr>Chans := (Chans n)(ch := [True]), PendingACKs := (PendingACKs n)(msgID := None)\<rparr>, [], [])"
    using assms(5,6) by (simp add: handle_layer_def handle_ack_def chan_send_def)
  ultimately show ?thesis
    using serve_onion [where net = net and b = s and holds = holds and g = g, OF assms(1-3)] by (simp add: e)
qed

lemma before_sep: "x @ c # y = x' @ c # y' \<Longrightarrow> c \<notin> set x \<Longrightarrow> c \<notin> set x' \<Longrightarrow> x = x' \<and> y = y'"
  by (induction x arbitrary: x') (auto simp: Cons_eq_append_conv)

lemma pair_ids_rev:
  assumes "distinct nacks" and "list_all wire_id nacks"
  shows "pair_ids nacks \<inter> pair_ids (rev nacks) = {}"
proof -
  have False if i: "Suc i < length nacks" and j: "Suc j < length nacks" and eq: "pair_id nacks i = pair_id (rev nacks) j" for i j
  proof -
    let ?k = "length nacks - Suc j" and ?k' = "length nacks - Suc (Suc j)"
    have no: "colon \<notin> set (nacks ! m)" if "m < length nacks" for m
      using assms(2) that by (auto simp: list_all_length wire_id_def)
    have "nacks ! i @ colon # nacks ! Suc i = nacks ! ?k @ colon # nacks ! ?k'"
      using eq i j by (simp add: pair_id_def rev_nth)
    from before_sep [OF this] no i j have "nacks ! i = nacks ! ?k" "nacks ! Suc i = nacks ! ?k'" by auto
    with assms(1) i j have "i = ?k" "Suc i = ?k'" by (auto simp: nth_eq_iff_index_eq)
    with i j show False by linarith
  qed
  then show ?thesis by (auto simp: pair_ids_def)
qed


lemma good_hop_keys:
  assumes "good_hop holds up net h" and "\<And>b n. net b = Some n \<Longrightarrow> \<exists>n'. net' b = Some n' \<and> PrivateKey n' = PrivateKey n"
  shows "good_hop holds up net' h"
  using assms unfolding good_hop_def by metis

text \<open>
  A package whose return route is its forward route backwards. \<open>sender_ready\<close> is the state the sender
  is in once it has registered the channel.
\<close>

definition sender_ready :: "addr \<Rightarrow> string \<Rightarrow> nat \<Rightarrow> ('pk, 'sk) net \<Rightarrow> bool" where
  "sender_ready sender i ch net \<longleftrightarrow> ParseAddresses sender = [sender] \<and>
     (\<exists>n. net sender = Some n \<and> PendingACKs n i = Some ch \<and> Chans n ch = [])"

definition acknowledged :: "addr \<Rightarrow> string \<Rightarrow> nat \<Rightarrow> bool \<Rightarrow> ('pk, 'sk) net \<Rightarrow> bool" where
  "acknowledged sender i ch v net \<longleftrightarrow>
     (\<exists>n. net sender = Some n \<and> PendingACKs n i = None \<and> Chans n ch = [v])"

text \<open>Nothing else has happened to the sender.\<close>

definition only_acked :: "addr \<Rightarrow> string \<Rightarrow> nat \<Rightarrow> ('pk, 'sk) net \<Rightarrow> ('pk, 'sk) net \<Rightarrow> bool" where
  "only_acked sender i ch net net' \<longleftrightarrow> (\<forall>n. net sender = Some n \<longrightarrow>
     net' sender = Some (n\<lparr>Chans := (Chans n)(ch := [True]), PendingACKs := (PendingACKs n)(i := None)\<rparr>))"

definition receives :: "addr \<Rightarrow> string \<Rightarrow> ('pk, 'sk) net \<Rightarrow> ('pk, 'sk) net \<Rightarrow> bool" where
  "receives c message net net' \<longleftrightarrow>
     (\<forall>a n. net a = Some n \<longrightarrow>
        map_option ReceivedMsgs (net' a) = Some (ReceivedMsgs n @ (if a = c then [message] else [])))"

lemma split_env:
  assumes "length es = 2 * k + 2"
  obtains es1 e1 es2 e2 where "es = es1 @ [e1] @ es2 @ [e2]" "length es1 = k" "length es2 = k"
proof -
  have "length (drop k es) = Suc (Suc k)" using assms by simp
  then obtain e rest where e: "drop k es = e # rest" "length rest = Suc k" by (cases "drop k es") auto
  then obtain es' e' where es': "rest = es' @ [e']" "length es' = k" by (auto simp: length_Suc_conv_rev)
  have "es = take k es @ [e] @ es' @ [e']" using e(1) es'(1) append_take_drop_id [of k es] by simp
  from that [OF this _ es'(2)] assms show thesis by simp
qed

lemma relayed_field:
  assumes "relayed ids as net net'" and "net a = Some n"
  shows "map_option PrivateKey (net' a) = Some (PrivateKey n)" "map_option ReceivedMsgs (net' a) = Some (ReceivedMsgs n)"
proof -
  from assms obtain n' where "net' a = Some n'" "quiet ids n n'" unfolding relayed_def by blast
  with quiet_same show "map_option PrivateKey (net' a) = Some (PrivateKey n)"
    "map_option ReceivedMsgs (net' a) = Some (ReceivedMsgs n)" by auto
qed

lemma relayed_other: "relayed ids as net net' \<Longrightarrow> a \<notin> as \<Longrightarrow> net' a = net a"
  by (simp add: relayed_def)

lemma fresh_after:
  assumes "fresh ids net as" and "relayed ids' as' net net1" and "ids \<inter> ids' = {}" and "c \<notin> as"
  shows "fresh ids (net1(c \<mapsto> n)) as"
  unfolding fresh_def
proof (intro ballI allI impI)
  fix a n1 m
  assume a: "a \<in> as" "(net1(c \<mapsto> n)) a = Some n1" and m: "m \<in> ids"
  with assms(4) have n1: "net1 a = Some n1" by (auto split: if_splits)
  with assms(2) obtain n0 where n0: "net a = Some n0" unfolding relayed_def by (cases "net a") auto
  with assms(2) n1 have "quiet ids' n0 n1" unfolding relayed_def by fastforce
  with quiet_same(5) m assms(3) have "SeenMsgs n1 m = SeenMsgs n0 m" by blast
  with assms(1) a(1) n0 m show "SeenMsgs n1 m = None" by (simp add: fresh_def)
qed

lemma distinct_concat_rev: "distinct (concat (rev xss)) = distinct (concat xss)"
  by (induction xss) auto

lemma ack_returns:
  assumes "peels (opens_with (\<lambda>sk w. BroadcastDecrypt C w sk) holds) (ack_layer msgID) sender (rs @ [(sender, g)]) nacks ret"
    and good: "\<forall>h \<in> set (rs @ [(sender, g)]). good_hop holds up net h"
    and dist: "distinct (all_members (rs @ [(sender, g)]))" and ids: "wire_id msgID" "list_all wire_id nacks"
    and "fresh (pair_ids nacks) net (set (all_members rs))" and ready: "sender_ready sender msgID ch net"
    and b: "b \<in> members (hd (rs @ [(sender, g)]))" "up b" and "length es = length rs"
  shows "\<exists>net'. run_net C up (es @ [e]) [(b, ret)] net = Ok (net', []) \<and> acknowledged sender msgID ch True net' \<and>
    only_acked sender msgID ch net net' \<and>
    (\<forall>a n. net a = Some n \<longrightarrow> map_option ReceivedMsgs (net' a) = Some (ReceivedMsgs n))"
proof -
  let ?opens = "opens_with (\<lambda>sk w. BroadcastDecrypt C w sk) holds"
  have sender: "members (sender, g) = {sender}" "pipe \<notin> set sender" using ready good by (auto simp: sender_ready_def good_hop_def)
  from relay_path [where up = up and b = b and net = net and es = es, OF assms(1) good dist ids(2) sender(2) _ b]
    assms(6,10) sender(1) obtain net1 w where
    run1: "run_net C up es [(b, ret)] net = Ok (net1, [(sender, w)])"
    and w: "?opens g w (OnionlayerToString (ack_layer msgID))" and net1: "relayed (pair_ids nacks) (set (all_members rs)) net net1"
    and up: "up sender" by auto
  from dist sender(1) have "sender \<notin> set (all_members rs)" by auto
  with ready net1 obtain n where n: "net sender = Some n" "net1 sender = Some n" "PendingACKs n msgID = Some ch" "Chans n ch = []"
    by (auto simp: sender_ready_def relayed_def)
  have "holds (PrivateKey n) g" using good up n(1) sender(1) by (auto simp: good_hop_def)
  let ?net' = "net1(sender \<mapsto> n\<lparr>Chans := (Chans n)(ch := [True]), PendingACKs := (PendingACKs n)(msgID := None)\<rparr>)"
  have "serve C up e (sender, w) net1 = Ok (?net', [])"
    using serve_ack [where net = net1 and s = sender and holds = holds and g = g, OF n(2) w _ ids(1) n(3,4)]
      \<open>holds (PrivateKey n) g\<close> by simp
  moreover have "map_option ReceivedMsgs (?net' a) = Some (ReceivedMsgs m)" if "net a = Some m" for a m
    using relayed_field(2) [OF net1 that] that n(1) by auto
  ultimately show ?thesis
    using run1 n(1) by (intro exI [of _ ?net']) (simp add: run_net_append acknowledged_def only_acked_def)
qed

lemma good_hops_after:
  assumes "relayed ids as net net1" and "net c = Some n" "PrivateKey n2 = PrivateKey n" and "\<forall>h \<in> set hs. good_hop holds up net h"
  shows "\<forall>h \<in> set hs. good_hop holds up (net1(c \<mapsto> n2)) h"
proof -
  have "\<exists>m'. (net1(c \<mapsto> n2)) a = Some m' \<and> PrivateKey m' = PrivateKey m" if "net a = Some m" for a m
    using relayed_field(1) [OF assms(1) that] that assms(2,3) by auto
  then show ?thesis using assms(4) by (auto intro: good_hop_keys)
qed

lemma receives_passed:
  assumes "relayed ids as net net1" and "net c = Some n" "ReceivedMsgs n2 = ReceivedMsgs n @ [message]"
    and "\<forall>a m. (net1(c \<mapsto> n2)) a = Some m \<longrightarrow> map_option ReceivedMsgs (net' a) = Some (ReceivedMsgs m)"
  shows "receives c message net net'"
  unfolding receives_def
proof (intro allI impI)
  fix a m
  assume a: "net a = Some m"
  then obtain m2 where m2: "(net1(c \<mapsto> n2)) a = Some m2" using assms(1) unfolding relayed_def by fastforce
  moreover have "ReceivedMsgs m2 = ReceivedMsgs m @ (if a = c then [message] else [])"
    using m2 a assms(2,3) relayed_field(2) [OF assms(1) a] by (auto split: if_splits)
  ultimately show "map_option ReceivedMsgs (net' a) = Some (ReceivedMsgs m @ (if a = c then [message] else []))"
    using assms(4) by metis
qed


lemma round_trip:
  fixes net :: "('pk, 'sk) net"
  assumes pkg: "package (opens_with (\<lambda>sk w. BroadcastDecrypt C w sk) holds) (rs @ [d]) (rev rs @ [(sender, g)])
      sender [] message msgID nacks onion"
    and good: "\<forall>h \<in> set (rs @ [d, (sender, g)]). good_hop holds up net h"
    and dist: "distinct (all_members (rs @ [d, (sender, g)]))" and nd: "distinct nacks"
    and unseen: "fresh (insert msgID (pair_ids nacks \<union> pair_ids (rev nacks))) net (set (all_members (rs @ [d])))"
    and ready: "sender_ready sender msgID ch net"
    and b: "b \<in> members (hd (rs @ [d]))" "up b" and env: "length es = 2 * length rs + 2"
  shows "\<exists>net' c. run_net C up es [(b, onion)] net = Ok (net', []) \<and> c \<in> members d \<and>
    receives c message net net' \<and> acknowledged sender msgID ch True net' \<and> only_acked sender msgID ch net net'"
proof -
  let ?opens = "opens_with (\<lambda>sk w. BroadcastDecrypt C w sk) holds"
  let ?s = "(sender, g)"
  from env obtain es1 e1 es2 e2 where es: "es = es1 @ [e1] @ es2 @ [e2]" "length es1 = length rs" "length es2 = length rs"
    by (rule split_env)
  have sender: "members ?s = {sender}" "pipe \<notin> set sender" using ready good by (auto simp: sender_ready_def good_hop_def)
  from pkg obtain ret where ids: "wire_id msgID" "list_all wire_id nacks" "list_all wire_id (rev nacks)"
    and fwd: "peels ?opens (final_layer msgID (fst (hd (rev rs @ [?s]))) ret [] message) sender (rs @ [d]) nacks onion"
    and ret: "peels ?opens (ack_layer msgID) sender (rev rs @ [?s]) (rev nacks) ret"
    by (auto simp: package_def)
  have "fresh (pair_ids nacks) net (set (all_members (butlast (rs @ [d]))))"
    using unseen by (auto simp: fresh_def)
  moreover have dists: "distinct (all_members (rs @ [d]))" "distinct (all_members (rev rs @ [?s]))"
    using dist distinct_concat_rev by (auto simp flip: rev_map)
  ultimately obtain net1 c w1 where
    run1: "run_net C up es1 [(b, onion)] net = Ok (net1, [(c, w1)])" and c: "c \<in> members d" "up c"
    and w1: "?opens (snd d) w1 (OnionlayerToString (final_layer msgID (fst (hd (rev rs @ [?s]))) ret [] message))"
    and net1: "relayed (pair_ids nacks) (set (all_members rs)) net net1"
    using relay_path [where up = up and b = b and net = net and es = es1, OF fwd _ _ ids(2) sender(2) _ b] good es(2) by auto
  from dist c(1) sender(1) have c': "c \<notin> set (all_members rs)" "c \<noteq> sender" "sender \<notin> set (all_members rs)" by auto
  from good c obtain n where n: "net c = Some n" "holds (PrivateKey n) (snd d)" by (auto simp: good_hop_def)
  have n1: "net1 c = Some n" using relayed_other [OF net1 c'(1)] n by simp
  have "hd (rev rs @ [?s]) \<in> set (rs @ [d, ?s])" by (cases rs rule: rev_cases) auto
  with good have nxt: "good_hop holds up net (hd (rev rs @ [?s]))" by blast
  have line: "pipe \<notin> set ret" "ret \<noteq> []" using peels_line [OF ret] by (auto simp: onion_line_def)
  have "SeenMsgs n msgID = None" using unseen c(1) n(1) by (auto simp: fresh_def)
  from serve_final [where net = net1 and c = c and holds = holds and g = "snd d" and up = up and e = e1,
      OF n1 w1 n(2) ids(1) _ line _ this] nxt
  obtain b2 n2 where b2: "b2 \<in> members (hd (rev rs @ [?s]))" "up b2"
    and run2: "serve C up e1 (c, w1) net1 = Ok (net1(c \<mapsto> n2), [(b2, ret)])"
    and n2: "PrivateKey n2 = PrivateKey n" "ReceivedMsgs n2 = ReceivedMsgs n @ [message]" by (auto simp: good_hop_def)
  let ?net2 = "net1(c \<mapsto> n2)"
  have good2: "\<forall>h \<in> set (rev rs @ [?s]). good_hop holds up ?net2 h"
    using good by (intro good_hops_after [OF net1 n(1) n2(1)]) auto
  have "fresh (pair_ids (rev nacks)) net (set (all_members (rev rs)))" using unseen by (auto simp: fresh_def)
  from fresh_after [OF this net1] have unseen2: "fresh (pair_ids (rev nacks)) ?net2 (set (all_members (rev rs)))"
    using pair_ids_rev [OF nd ids(2)] c'(1) by auto
  have ready2: "sender_ready sender msgID ch ?net2"
    using ready c'(2) relayed_other [OF net1 c'(3)] by (simp add: sender_ready_def)
  obtain net' where run3: "run_net C up (es2 @ [e2]) [(b2, ret)] ?net2 = Ok (net', [])"
    and ack: "acknowledged sender msgID ch True net'" "only_acked sender msgID ch ?net2 net'"
    and same: "\<forall>a n. ?net2 a = Some n \<longrightarrow> map_option ReceivedMsgs (net' a) = Some (ReceivedMsgs n)"
    using ack_returns [where net = ?net2 and up = up and b = b2 and es = es2 and e = e2, 
        OF ret good2 dists(2) ids(1,3) unseen2 ready2 b2] es(3) by auto
  have "receives c message net net'" by (rule receives_passed [OF net1 n(1) n2(2) same])
  moreover have "only_acked sender msgID ch net net'"
    using ack(2) c'(2) relayed_other [OF net1 c'(3)] by (simp add: only_acked_def)
  ultimately show ?thesis using run1 run2 run3 es(1) c(1) ack(1)
    by (intro exI [of _ net'] exI [of _ c]) (simp add: run_net_append)
qed

end
