(* ===== verification/EndToEnd.thy ===== *)
theory EndToEnd
  imports Network
begin

text \<open>
  The guarantees a sender gets from the whole network: delivery and acknowledgement over single
  relays and over clusters, and the NACK that comes back when a hop is unreachable.
\<close>

section \<open>The way back of a NACK\<close>

lemma serve_nack:
  assumes "net a = Some n" and "wire_id i"
  shows "serve C up (ds, now) (a, ''NACK:'' @ i) net =
    bind_res (handle_nack (\<lambda>_. up) i n) (\<lambda>(n', log, rep). Ok (net(a \<mapsto> n'), delivered log))"
  using assms handlerroutine_nack [of i C "\<lambda>_. up" ds now n] by (simp add: serve_def wire_id_def)

lemma serve_nack_relay:
  assumes "net a = Some n" and "wire_id y" and "PendingACKs n y = None"
    and "PendingRelays n y = Some \<lparr>PrevNackID = x, PrevNodeAddr = frm\<rparr>" and "ParseAddresses frm = [frm]" and "up frm"
  shows "serve C up e (a, ''NACK:'' @ y) net =
    Ok (net(a \<mapsto> n\<lparr>PendingRelays := (PendingRelays n)(y := None)\<rparr>), [(frm, ''NACK:'' @ x)])"
  using assms serve_nack [where net = net and a = a, OF assms(1,2), of C up "fst e" "snd e"]
  by (simp add: handle_nack_def SendTo_def Let_def)

lemma serve_nack_sender:
  assumes "net a = Some n" and "wire_id y" and "PendingACKs n y = Some ch" and "Chans n ch = []"
  shows "serve C up e (a, ''NACK:'' @ y) net = Ok (net(a \<mapsto> n\<lparr>Chans := (Chans n)(ch := [False]),
    PendingACKs := (PendingACKs n)(y := None)\<rparr>), [])"
  using assms serve_nack [where net = net and a = a, OF assms(1,2), of C up "fst e" "snd e"]
  by (simp add: handle_nack_def chan_send_def)

lemma serve_relay_fail:
  assumes "net b = Some n"
    and "opens_with (\<lambda>sk w. BroadcastDecrypt C w sk) holds g w (OnionlayerToString (relay_layer x y nxt frm w'))"
    and "holds (PrivateKey n) g" and "wire_id x" "wire_id y" "pipe \<notin> set nxt" "pipe \<notin> set frm" "pipe \<notin> set w'"
    and "colon \<in> set nxt" and "ParseAddresses nxt = [nxt]" "\<not> up nxt" and "ParseAddresses frm = [frm]" "up frm"
    and "SeenMsgs n (x @ colon # y) = None"
  shows "serve C up e (b, w) net = Ok (net(b \<mapsto> n\<lparr>SeenMsgs := (SeenMsgs n)(x @ colon # y \<mapsto> snd e),
    PendingRelays := (PendingRelays n)(y := None)\<rparr>), [(frm, ''NACK:'' @ x)])"
proof -
  obtain ds now where e: "e = (ds, now)" by (cases e)
  have split: "SplitN colon 2 (x @ colon # y) = [x, y]" using assms(4) by (simp add: numeral_2_eq_2 wire_id_def)
  have "handle_layer (\<lambda>_. up) ds now (relay_layer x y nxt frm w') n =
    Ok (n\<lparr>SeenMsgs := (SeenMsgs n)(x @ colon # y \<mapsto> now), PendingRelays := (PendingRelays n)(y := None)\<rparr>,
      [(nxt, w', False), (frm, ''NACK:'' @ x, True)], [])"
    using assms(9-14) split by (simp add: handle_layer_def handle_relay_def seenMsg_def SendTo_def Let_def)
  moreover have "StringToOnionLayer (OnionlayerToString (relay_layer x y nxt frm w')) = Ok (relay_layer x y nxt frm w')"
    using assms(4-8) by (rule parse_relay_layer)
  ultimately show ?thesis
    using serve_onion [where net = net and b = b and holds = holds and g = g, OF assms(1-3)] by (simp add: e)
qed

text \<open>After a failed attempt nobody has received anything and no relay keeps an entry it did not have.\<close>

definition undone :: "addr set \<Rightarrow> ('pk, 'sk) net \<Rightarrow> ('pk, 'sk) net \<Rightarrow> bool" where
  "undone as net net' \<longleftrightarrow> (\<forall>a. a \<notin> as \<longrightarrow> net' a = net a) \<and>
     (\<forall>a n. net a = Some n \<longrightarrow> (\<exists>n'. net' a = Some n' \<and> ReceivedMsgs n' = ReceivedMsgs n \<and>
        PendingRelays n' \<subseteq>\<^sub>m PendingRelays n))"

abbreviation single :: "addr \<Rightarrow> bool" where
  "single a \<equiv> ParseAddresses a = [a]"

lemma undone_step:
  assumes "undone as (net(b \<mapsto> n1)) net'" and "b \<notin> as" and "net b = Some n"
    and "ReceivedMsgs n2 = ReceivedMsgs n" and "PendingRelays n2 \<subseteq>\<^sub>m PendingRelays n"
  shows "undone (insert b as) net (net'(b \<mapsto> n2))"
  using assms unfolding undone_def by (auto split: if_splits)

lemma good_hop_single:
  "good_hop holds up net h \<Longrightarrow> single (fst h) \<Longrightarrow> b \<noteq> fst h \<Longrightarrow> good_hop holds up (net(b \<mapsto> n)) h"
  by (auto simp: good_hop_def)

text \<open>A relay that has passed an onion on gets its NACK and passes it back.\<close>

lemma nack_out_and_back:
  assumes "net a = Some n" and "wire_id y" and "single frm" "up frm" and "PendingACKs n y = None" and "a \<notin> as"
    and step: "serve C up e (a, w) net = Ok (net(a \<mapsto> n1), [(k, w')])" and n1: "quiet {i} n n1"
    and pr: "PendingRelays n1 = (PendingRelays n)(y \<mapsto> \<lparr>PrevNackID = x, PrevNodeAddr = frm\<rparr>)"
    and run: "run_net C up es [(k, w')] (net(a \<mapsto> n1)) = Ok (net2, [(a, ''NACK:'' @ y)])"
    and undone: "undone as (net(a \<mapsto> n1)) net2"
  shows "\<exists>net'. run_net C up (e # es @ [e']) [(a, w)] net = Ok (net', [(frm, ''NACK:'' @ x)]) \<and> undone (insert a as) net net'"
proof -
  let ?n2 = "n1\<lparr>PendingRelays := (PendingRelays n1)(y := None)\<rparr>"
  have "net2 a = Some n1" using undone assms(6) by (simp add: undone_def)
  moreover have "PendingACKs n1 y = None" using quiet_same(2) [OF n1] assms(5) by simp
  ultimately have "serve C up e' (a, ''NACK:'' @ y) net2 = Ok (net2(a \<mapsto> ?n2), [(frm, ''NACK:'' @ x)])"
    using serve_nack_relay [where net = net2 and a = a] assms(2-4) pr by simp
  moreover have "undone (insert a as) net (net2(a \<mapsto> ?n2))"
    using quiet_same(4) [OF n1] pr assms(1,6) by (intro undone_step [OF undone]) (auto simp: map_le_def)
  ultimately show ?thesis using step run by (auto simp: run_net_append)
qed

lemma nack_path:
  assumes "peels (opens_with (\<lambda>sk w. BroadcastDecrypt C w sk) holds) inner frm (rs @ d # rest) nacks w"
    and "rs \<noteq> []" and "\<forall>h \<in> set rs. good_hop holds up net h \<and> single (fst h)"
    and "colon \<in> set (fst d)" "pipe \<notin> set (fst d)" "single (fst d)" "\<not> up (fst d)"
    and "distinct (map fst rs)" and "list_all wire_id nacks" and "fresh (pair_ids nacks) net (fst ` set rs)"
    and "\<forall>h \<in> set rs. \<forall>n. net (fst h) = Some n \<longrightarrow> (\<forall>i \<in> set nacks. PendingACKs n i = None)"
    and "single frm" "up frm" "pipe \<notin> set frm" and "length es = 2 * length rs - 1"
  shows "\<exists>net'. run_net C up es [(fst (hd rs), w)] net = Ok (net', [(frm, ''NACK:'' @ hd nacks)]) \<and>
    undone (fst ` set rs) net net'"
  using assms
proof (induction rs arbitrary: frm nacks w net es)
  case (Cons h rs)
  let ?opens = "opens_with (\<lambda>sk w. BroadcastDecrypt C w sk) holds"
  let ?k = "hd (rs @ d # rest)"
  obtain x y ns w' where nacks: "nacks = x # y # ns"
    and opened: "?opens (snd h) w (OnionlayerToString (relay_layer x y (fst ?k) frm w'))"
    and rest': "peels ?opens inner (fst h) (rs @ d # rest) (y # ns) w'" and w': "pipe \<notin> set w'"
    by (rule peels_relay [OF Cons.prems(1) [unfolded append_Cons]]) auto
  from Cons.prems(3) obtain n where n: "net (fst h) = Some n" "holds (PrivateKey n) (snd h)" "up (fst h)"
    by (auto simp: good_hop_def)
  have ids: "wire_id x" "wire_id y" and acks: "PendingACKs n y = None" using Cons.prems(9,11) nacks n(1) by auto
  have seen: "SeenMsgs n (x @ colon # y) = None" using Cons.prems(10) nacks n(1) by (auto simp: fresh_def)
  show ?case
  proof (cases rs)
    case Nil
    then obtain e where es: "es = [e]" using Cons.prems(15) by (auto simp: length_Suc_conv)
    have "serve C up e (fst h, w) net = Ok (net(fst h \<mapsto> n\<lparr>SeenMsgs := (SeenMsgs n)(x @ colon # y \<mapsto> snd e),
      PendingRelays := (PendingRelays n)(y := None)\<rparr>), [(frm, ''NACK:'' @ x)])"
      using serve_relay_fail [where net = net and b = "fst h" and holds = holds and g = "snd h" and up = up and e = e,
          OF n(1) opened n(2) ids _ Cons.prems(14) w' _ _ _ Cons.prems(12,13) seen] Cons.prems(4-7) Nil by simp
    then show ?thesis
      using n(1) by (auto simp: es Nil nacks undone_def map_le_def split: if_splits)
  next
    case (Cons k ks)
    have k: "?k = k" "good_hop holds up net k" "single (fst k)" using Cons Cons.prems(3) by auto
    then have upk: "up (fst k)" by (auto simp: good_hop_def)
    have "length es = Suc (Suc (2 * length rs - 1))" using Cons.prems(15) Cons by simp
    then obtain e es' e' where es: "es = e # es' @ [e']" "length es' = 2 * length rs - 1"
      by (cases es; cases "tl es" rule: rev_cases) auto
    from serve_relay [where net = net and b = "fst h" and holds = holds and g = "snd h" and up = up and e = e,
        OF n(1) opened n(2) ids _ Cons.prems(14) w' _ _ seen] k upk
    obtain n1 where step: "serve C up e (fst h, w) net = Ok (net(fst h \<mapsto> n1), [(fst k, w')])" and n1: "quiet {x @ colon # y} n n1"
      and pr: "PendingRelays n1 = (PendingRelays n)(y \<mapsto> \<lparr>PrevNackID = x, PrevNodeAddr = frm\<rparr>)"
      by (auto simp: good_hop_def)
    have h: "fst h \<notin> fst ` set rs" using Cons.prems(8) by auto
    have "\<exists>net2. run_net C up es' [(fst (hd rs), w')] (net(fst h \<mapsto> n1)) = Ok (net2, [(fst h, ''NACK:'' @ hd (y # ns))]) \<and>
      undone (fst ` set rs) (net(fst h \<mapsto> n1)) net2"
    proof (rule Cons.IH [OF rest'])
      show "\<forall>g \<in> set rs. good_hop holds up (net(fst h \<mapsto> n1)) g \<and> single (fst g)"
        using Cons.prems(3) h by (metis good_hop_single image_eqI list.set_intros(2))
      show "fresh (pair_ids (y # ns)) (net(fst h \<mapsto> n1)) (fst ` set rs)"
        by (rule fresh_upd [OF Cons.prems(10) h]) (auto simp: nacks)
      show "\<forall>g \<in> set rs. \<forall>m. (net(fst h \<mapsto> n1)) (fst g) = Some m \<longrightarrow> (\<forall>i \<in> set (y # ns). PendingACKs m i = None)"
        using Cons.prems(11) h nacks by (metis fun_upd_other image_eqI list.set_intros(2))
      show "list_all wire_id (y # ns)" using Cons.prems(9) nacks by simp
      show "single (fst h)" "pipe \<notin> set (fst h)" using Cons.prems(3) by (auto simp: good_hop_def)
    qed (use Cons.prems(4-8) es(2) n(3) Cons in simp_all)
    then obtain net2 where "run_net C up es' [(fst k, w')] (net(fst h \<mapsto> n1)) = Ok (net2, [(fst h, ''NACK:'' @ y)])"
      and "undone (fst ` set rs) (net(fst h \<mapsto> n1)) net2" using Cons by auto
    from nack_out_and_back [OF n(1) ids(2) Cons.prems(12,13) acks h step n1 pr this] show ?thesis
      unfolding es(1) nacks by simp
  qed
qed simp


section \<open>Delivery over single relays\<close>

definition wire_addr :: "addr \<Rightarrow> bool" where
  "wire_addr a \<longleftrightarrow> colon \<in> set a \<and> comma \<notin> set a \<and> pipe \<notin> set a"

lemma wire_addr_single: "wire_addr a \<Longrightarrow> single a"
  using ParseAddresses_JoinAddresses [of "[a]"] by (cases a) (auto simp: wire_addr_def JoinAddresses_def)

definition node_ready :: "('pk, 'sk) crypto \<Rightarrow> 'pk KeyCache \<Rightarrow> (addr \<Rightarrow> bool) \<Rightarrow> ('pk, 'sk) net \<Rightarrow> addr \<Rightarrow> bool" where
  "node_ready C cache up net a \<longleftrightarrow> wire_addr a \<and> up a \<and>
     (\<exists>n. net a = Some n \<and> cached_key cache a = Some (PublicOf C (PrivateKey n)))"

lemma node_ready_hop:
  "node_ready C cache up net a \<Longrightarrow> good_hop (\<lambda>sk k. k = Some (PublicOf C sk)) up net (a, cached_key cache a)"
  using wire_addr_single [of a] by (auto simp: node_ready_def good_hop_def wire_addr_def)

lemma single_members:
  "\<forall>a \<in> set as. wire_addr a \<Longrightarrow> all_members (node_hops cache as) = as"
  using wire_addr_single by (induction as) auto

lemma onion_delivers:
  assumes "crypto_laws C"
    and enc: "Encapsulator_func C ask clock message [] (rs @ [dest]) (rev rs @ [sender]) cache sender r =
      (cache', Ok ((onion, msgID, firstNack), r'))"
    and ids: "GenerateMsgID [] r = Ok (msgID, r1)" "nack_ids (Suc (length rs)) r1 = Ok (nacks, r2)" "distinct nacks"
    and "distinct (rs @ [dest, sender])" and ready: "\<forall>a \<in> set (rs @ [dest, sender]). node_ready C cache' up net a"
    and unseen: "fresh (insert msgID (pair_ids nacks \<union> pair_ids (rev nacks))) net (set (rs @ [dest]))"
    and "sender_ready sender msgID ch net" and "length es = 2 * length rs + 2"
  shows "\<exists>net'. run_net C up es [(hd (rs @ [dest]), onion)] net = Ok (net', []) \<and>
    receives dest message net net' \<and> acknowledged sender msgID ch True net' \<and> only_acked sender msgID ch net net'"
proof -
  let ?hop = "\<lambda>a. (a, cached_key cache' a)" and ?holds = "\<lambda>sk k. k = Some (PublicOf C sk)"
  have pkg: "package (opens_with (\<lambda>sk w. BroadcastDecrypt C w sk) ?holds) (map ?hop rs @ [?hop dest])
    (rev (map ?hop rs) @ [?hop sender]) sender [] message msgID nacks onion"
    using encapsulated_package [OF assms(1) enc] ids by (auto simp: rev_map)
  have wire: "\<forall>a \<in> set (rs @ [dest, sender]). wire_addr a" using ready by (auto simp: node_ready_def)
  have members: "all_members (map ?hop rs @ [?hop dest, ?hop sender]) = rs @ [dest, sender]"
    "all_members (map ?hop rs @ [?hop dest]) = rs @ [dest]"
    using single_members [of "rs @ [dest, sender]" cache'] single_members [of "rs @ [dest]" cache'] wire by auto
  have hd: "hd (map ?hop rs @ [?hop dest]) = ?hop (hd (rs @ [dest]))" by (cases rs) auto
  have h: "hd (rs @ [dest]) \<in> set (rs @ [dest, sender])" by (cases rs) auto
  have "\<exists>net' c. run_net C up es [(hd (rs @ [dest]), onion)] net = Ok (net', []) \<and> c \<in> members (?hop dest) \<and>
    receives c message net net' \<and> acknowledged sender msgID ch True net' \<and> only_acked sender msgID ch net net'"
  proof (rule round_trip [OF pkg])
    show "\<forall>h \<in> set (map ?hop rs @ [?hop dest, ?hop sender]). good_hop ?holds up net h"
      using ready by (auto intro!: node_ready_hop)
    show "hd (rs @ [dest]) \<in> members (hd (map ?hop rs @ [?hop dest]))"
      using wire_addr_single wire h unfolding hd by auto
    show "up (hd (rs @ [dest]))" using ready h by (auto simp: node_ready_def)
  qed (use assms members in simp_all)
  then show ?thesis using wire wire_addr_single [of dest] by auto
qed

text \<open>
  C1: when every node of the route and the sender are reachable with the keys the sender used, and
  none has seen the fresh identifiers, sending the onion to the first hop makes the recipient, and
  nobody else, receive the message, and brings a positive acknowledgement to the sender's channel,
  in exactly two connections per relay and two more, whatever the clocks and the shuffles.
\<close>

theorem send_delivers_and_acks:
  assumes "crypto_laws C"
    and enc: "Encapsulator_func C ask clock message [] (rs @ [dest]) (rev rs @ [sender]) cache sender r =
      (cache', Ok ((onion, msgID, firstNack), r'))"
    and ids: "GenerateMsgID [] r = Ok (msgID, r1)" "nack_ids (Suc (length rs)) r1 = Ok (nacks, r2)" "distinct nacks"
    and "distinct (rs @ [dest, sender])" and ready: "\<forall>a \<in> set (rs @ [dest, sender]). node_ready C cache' up net a"
    and unseen: "fresh (insert msgID (pair_ids nacks \<union> pair_ids (rev nacks))) net (set (rs @ [dest]))"
    and "sender_ready sender msgID ch net" and "length es = 2 * length rs + 2"
  shows "\<exists>net'. run_net C up es [(hd (rs @ [dest]), onion)] net = Ok (net', []) \<and>
    receives dest message net net' \<and> acknowledged sender msgID ch True net'"
  using onion_delivers [OF assms] by blast


section \<open>A hop that is down\<close>

text \<open>
  C2: when some hop after the first is unreachable and the relays before it are up, the NACK
  travels back along the route, each relay rewriting its identifier, until the sender's channel gets
  a negative result under the identifier of the first hop, in two connections per relay; nobody
  has received anything and no relay has kept an entry for the failed attempt.
\<close>

theorem nack_reaches_sender:
  assumes "crypto_laws C"
    and enc: "Encapsulator_func C ask clock message frag (rs @ x # rest) returnRoute cache sender r =
      (cache', Ok ((onion, msgID, firstNack), r'))"
    and ids: "GenerateMsgID [] r = Ok (msgID, r1)" "nack_ids (length (rs @ x # rest)) r1 = Ok (nacks, r2)"
    and rs: "rs \<noteq> []" "distinct (sender # rs)" and ready: "\<forall>a \<in> set rs. node_ready C cache' up net a"
    and down: "wire_addr x" "\<not> up x" and sender: "wire_addr sender" "up sender"
    and unseen: "fresh (pair_ids nacks) net (set rs)"
    and relays: "\<forall>a \<in> set rs. \<forall>n. net a = Some n \<longrightarrow> (\<forall>i \<in> set nacks. PendingACKs n i = None)"
    and ch: "sender_ready sender firstNack ch net" and len: "length es = 2 * length rs"
  shows "\<exists>net'. run_net C up es [(hd rs, onion)] net = Ok (net', []) \<and> acknowledged sender firstNack ch False net' \<and>
    (\<forall>a n. net a = Some n \<longrightarrow> (\<exists>n'. net' a = Some n' \<and> ReceivedMsgs n' = ReceivedMsgs n \<and>
       PendingRelays n' \<subseteq>\<^sub>m PendingRelays n))"
proof -
  let ?hop = "\<lambda>a. (a, cached_key cache' a)" and ?holds = "\<lambda>sk k. k = Some (PublicOf C sk)"
  obtain ret where wire: "list_all wire_id nacks" and first: "firstNack = hd nacks" "nacks \<noteq> []"
    and fwd: "peels (opens_with (\<lambda>sk w. BroadcastDecrypt C w sk) ?holds)
      (final_layer msgID (if returnRoute = [] then [] else hd returnRoute) ret frag message)
      sender (map ?hop rs @ ?hop x # map ?hop rest) nacks onion"
    using encapsulated_package [OF assms(1) enc] ids by (auto simp: package_def hd_map cong: if_cong)
  have "es \<noteq> []" using len rs(1) by auto
  then obtain es1 e where es: "es = es1 @ [e]" by (metis rev_exhaust)
  have good: "\<forall>h \<in> set (map ?hop rs). good_hop ?holds up net h \<and> single (fst h)"
    using ready wire_addr_single by (auto intro!: node_ready_hop simp: node_ready_def)
  have "\<exists>net'. run_net C up es1 [(fst (hd (map ?hop rs)), onion)] net = Ok (net', [(sender, ''NACK:'' @ hd nacks)]) \<and>
    undone (fst ` set (map ?hop rs)) net net'"
    by (rule nack_path [OF fwd _ good])
      (use rs down sender wire_addr_single wire unseen relays len es in
        \<open>auto simp: wire_addr_def image_image o_def\<close>)
  then obtain net1 where run: "run_net C up es1 [(hd rs, onion)] net = Ok (net1, [(sender, ''NACK:'' @ firstNack)])"
    and net1: "undone (set rs) net net1" using rs(1) first by (auto simp: image_image hd_map)
  from ch net1 rs(2) obtain n where n: "net sender = Some n" "net1 sender = Some n" "PendingACKs n firstNack = Some ch" "Chans n ch = []"
    by (auto simp: sender_ready_def undone_def)
  let ?net' = "net1(sender \<mapsto> n\<lparr>Chans := (Chans n)(ch := [False]), PendingACKs := (PendingACKs n)(firstNack := None)\<rparr>)"
  have "wire_id firstNack" using wire first by (cases nacks) auto
  from serve_nack_sender [where net = net1 and a = sender, OF n(2) this n(3,4)]
  have "run_net C up es [(hd rs, onion)] net = Ok (?net', [])" using run by (simp add: es run_net_append)
  moreover have "\<exists>n'. ?net' a = Some n' \<and> ReceivedMsgs n' = ReceivedMsgs m \<and> PendingRelays n' \<subseteq>\<^sub>m PendingRelays m"
    if "net a = Some m" for a m using net1 that n(1) by (auto simp: undone_def)
  ultimately show ?thesis by (intro exI [of _ ?net']) (simp add: acknowledged_def)
qed


section \<open>Delivery over clusters\<close>

definition group_ready :: "('pk, 'sk) crypto \<Rightarrow> (addr \<Rightarrow> bool) \<Rightarrow> ('pk, 'sk) net \<Rightarrow> 'pk LayerGroup \<Rightarrow> bool" where
  "group_ready C up net g \<longleftrightarrow> (\<forall>a \<in> set (Addrs g). wire_addr a) \<and> (\<exists>a \<in> set (Addrs g). up a) \<and>
     (\<forall>a \<in> set (Addrs g). up a \<longrightarrow> (\<exists>n. net a = Some n \<and> PublicOf C (PrivateKey n) \<in> set (PubKeys g)))"

lemma group_addresses:
  assumes "\<forall>a \<in> set (Addrs g). wire_addr a"
  shows "ParseAddresses (JoinAddresses (Addrs g)) = Addrs g"
  using assms by (intro ParseAddresses_JoinAddresses) (auto simp: wire_addr_def)

lemma piece_in_Join: "x \<in> set xs \<Longrightarrow> set x \<subseteq> set (Join xs sep)"
  by (induction xs sep rule: Join.induct) auto

lemma group_ready_hop:
  assumes "group_ready C up net g"
  shows "good_hop (\<lambda>sk pks. PublicOf C sk \<in> set pks) up net (JoinAddresses (Addrs g), PubKeys g)"
proof -
  have wire: "\<forall>a \<in> set (Addrs g). wire_addr a" using assms by (simp add: group_ready_def)
  from assms obtain a where a: "a \<in> set (Addrs g)" "wire_addr a" by (auto simp: group_ready_def)
  have "colon \<in> set (JoinAddresses (Addrs g))"
    using piece_in_Join [OF a(1), of "[comma]"] a(2) by (auto simp: JoinAddresses_def wire_addr_def)
  moreover have "pipe \<notin> set (JoinAddresses (Addrs g))"
    using set_Join [of "Addrs g" "[comma]"] wire by (auto simp: JoinAddresses_def wire_addr_def)
  ultimately show ?thesis using assms group_addresses [OF wire] by (auto simp: good_hop_def group_ready_def)
qed

lemma group_members:
  "\<forall>g \<in> set gs. \<forall>a \<in> set (Addrs g). wire_addr a \<Longrightarrow> all_members (group_hops gs) = concat (map Addrs gs)"
  by (induction gs) (simp_all add: group_addresses)

lemma group_onion_delivers:
  assumes "crypto_sep C"
    and enc: "Encapsulator_func_super C message (gs @ [dest]) (rev gs @ [me]) sender r = Ok ((onion, msgID, firstNack), r')"
    and ids: "GenerateMsgID [] r = Ok (msgID, r1)" "nack_ids (Suc (length gs)) r1 = Ok (nacks, r2)" "distinct nacks"
    and groups: "Addrs dest = [d]" "Addrs me = [sender]"
    and dist: "distinct (concat (map Addrs (gs @ [dest, me])))" and ready: "\<forall>g \<in> set (gs @ [dest, me]). group_ready C up net g"
    and unseen: "fresh (insert msgID (pair_ids nacks \<union> pair_ids (rev nacks))) net (set (concat (map Addrs (gs @ [dest]))))"
    and "sender_ready sender msgID ch net" and "length es = 2 * length gs + 2"
    and b: "b \<in> set (Addrs (hd (gs @ [dest])))" "up b"
  shows "\<exists>net'. run_net C up es [(b, onion)] net = Ok (net', []) \<and>
    receives d message net net' \<and> acknowledged sender msgID ch True net' \<and> only_acked sender msgID ch net net'"
proof -
  let ?hop = "\<lambda>g. (JoinAddresses (Addrs g), PubKeys g)" and ?holds = "\<lambda>sk pks. PublicOf C sk \<in> set pks"
  have wire: "\<forall>g \<in> set (gs @ [dest, me]). \<forall>a \<in> set (Addrs g). wire_addr a" using ready by (auto simp: group_ready_def)
  have me: "?hop me = (sender, PubKeys me)" using groups(2) by (simp add: JoinAddresses_def)
  have pkg: "package (opens_with (\<lambda>sk w. BroadcastDecrypt C w sk) ?holds) (map ?hop gs @ [?hop dest])
    (rev (map ?hop gs) @ [(sender, PubKeys me)]) sender [] message msgID nacks onion"
    using super_encapsulated_package [OF assms(1) enc] ids me by (auto simp: rev_map)
  have members: "all_members (map ?hop gs @ [?hop dest, ?hop me]) = concat (map Addrs (gs @ [dest, me]))"
    "all_members (map ?hop gs @ [?hop dest]) = concat (map Addrs (gs @ [dest]))"
    using group_members [of "gs @ [dest, me]"] group_members [of "gs @ [dest]"] wire by auto
  have hd: "hd (map ?hop gs @ [?hop dest]) = ?hop (hd (gs @ [dest]))" by (cases gs) auto
  have h: "hd (gs @ [dest]) \<in> set (gs @ [dest, me])" by (cases gs) auto
  have "\<exists>net' c. run_net C up es [(b, onion)] net = Ok (net', []) \<and> c \<in> members (?hop dest) \<and>
    receives c message net net' \<and> acknowledged sender msgID ch True net' \<and> only_acked sender msgID ch net net'"
  proof (rule round_trip [OF pkg])
    show "\<forall>h \<in> set (map ?hop gs @ [?hop dest, (sender, PubKeys me)]). good_hop ?holds up net h"
      using ready unfolding me [symmetric] by (auto intro!: group_ready_hop)
    show "b \<in> members (hd (map ?hop gs @ [?hop dest]))"
      unfolding hd using b(1) group_addresses [of "hd (gs @ [dest])"] wire h by auto
    show "distinct (all_members (map ?hop gs @ [?hop dest, (sender, PubKeys me)]))"
      unfolding me [symmetric] members using dist .
  qed (use assms members in simp_all)
  then show ?thesis using group_addresses [of dest] wire groups(1) by auto
qed

text \<open>
  C3: with clusters it is enough that each has one reachable member (and every reachable member one of
  the cluster's keys): the message still reaches the recipient, once, and the acknowledgement comes
  back, whichever members the relays' random choices hit.
\<close>

theorem ssend_delivers_if_members_up:
  assumes "crypto_sep C"
    and enc: "Encapsulator_func_super C message (gs @ [dest]) (rev gs @ [me]) sender r = Ok ((onion, msgID, firstNack), r')"
    and ids: "GenerateMsgID [] r = Ok (msgID, r1)" "nack_ids (Suc (length gs)) r1 = Ok (nacks, r2)" "distinct nacks"
    and groups: "Addrs dest = [d]" "Addrs me = [sender]"
    and dist: "distinct (concat (map Addrs (gs @ [dest, me])))" and ready: "\<forall>g \<in> set (gs @ [dest, me]). group_ready C up net g"
    and unseen: "fresh (insert msgID (pair_ids nacks \<union> pair_ids (rev nacks))) net (set (concat (map Addrs (gs @ [dest]))))"
    and "sender_ready sender msgID ch net" and "length es = 2 * length gs + 2"
    and b: "b \<in> set (Addrs (hd (gs @ [dest])))" "up b"
  shows "\<exists>net'. run_net C up es [(b, onion)] net = Ok (net', []) \<and>
    receives d message net net' \<and> acknowledged sender msgID ch True net'"
  using group_onion_delivers [OF assms] by blast


section \<open>A concrete network\<close>

definition demo_node :: "nat \<Rightarrow> (nat, nat) Node" where
  "demo_node k = NewNode ideal_crypto ''n'' ''s:8080'' k 9000"

definition demo_net :: "string \<Rightarrow> (nat, nat) net" where
  "demo_net i = [''a:1'' \<mapsto> (demo_node 1)\<lparr>PendingACKs := [i \<mapsto> 0]\<rparr>, ''b:2'' \<mapsto> demo_node 2, ''c:3'' \<mapsto> demo_node 3,
     ''d:4'' \<mapsto> demo_node 4]"

abbreviation demo_env :: "nat \<Rightarrow> env" where
  "demo_env k \<equiv> replicate k ([1], 7)"

abbreviation demo_msgID :: string where "demo_msgID \<equiv> ''msg-'' @ replicate 10 (digit 0)"
abbreviation demo_nack :: string where "demo_nack \<equiv> ''nack-'' @ replicate 10 (digit 1)"

lemma demo_node_simps [simp]:
  "PrivateKey (demo_node k) = k" "SeenMsgs (demo_node k) = Map.empty" "PendingACKs (demo_node k) = Map.empty"
  "Chans (demo_node k) = (\<lambda>_. [])" "ReceivedMsgs (demo_node k) = []"
  by (simp_all add: demo_node_def NewNode_def)

lemma demo_net_fresh: "fresh ids (demo_net i) as"
  by (auto simp: fresh_def demo_net_def split: if_splits)

lemma demo_sender_ready: "sender_ready ''a:1'' i 0 (demo_net i)"
  by (simp add: sender_ready_def demo_net_def ParseAddresses_def)

lemma demo_node_ready:
  "a \<in> {''a:1'', ''b:2'', ''d:4''} \<Longrightarrow> up a \<Longrightarrow> node_ready ideal_crypto demo_cache up (demo_net i) a"
  by (auto simp: node_ready_def wire_addr_def demo_net_def demo_cache_def get_def ideal_crypto_def)

lemma demo_nacks: "nack_ids (Suc (length [''b:2''])) (drop 10 demo_rng) =
    Ok ([demo_nack, ''nack-'' @ replicate 10 (digit 2)], drop 30 demo_rng)"
  "distinct [demo_nack, ''nack-'' @ replicate 10 (digit 2)]"
  using demo_ids(2) by (simp_all add: numeral_2_eq_2 digit_def del: nack_ids.simps)

lemma demo_receives:
  assumes "receives ''d:4'' ''hello'' (demo_net i) net'"
  shows "map_option ReceivedMsgs (net' ''d:4'') = Some [''hello'']"
proof -
  have "demo_net i ''d:4'' = Some (demo_node 4)" by (simp add: demo_net_def)
  then have "map_option ReceivedMsgs (net' ''d:4'') = Some (ReceivedMsgs (demo_node 4) @ (if ''d:4'' = ''d:4'' then [''hello''] else []))"
    using assms unfolding receives_def by blast
  then show ?thesis by simp
qed

theorem send_delivers_and_acks_witness:
  "\<exists>onion net'. fst demo_encapsulation = demo_cache \<and>
     run_net ideal_crypto (\<lambda>_. True) (demo_env 4) [(''b:2'', onion)] (demo_net demo_msgID) = Ok (net', []) \<and>
     map_option ReceivedMsgs (net' ''d:4'') = Some [''hello''] \<and> acknowledged ''a:1'' demo_msgID 0 True net'"
proof -
  from demo_encapsulation_ok obtain onion where d: "demo_encapsulation =
     (demo_cache, Ok ((onion, demo_msgID, demo_nack), drop 304 (drop 30 demo_rng)))" by blast
  have "\<exists>net'. run_net ideal_crypto (\<lambda>_. True) (demo_env 4) [(hd ([''b:2''] @ [''d:4'']), onion)] (demo_net demo_msgID) = Ok (net', []) \<and>
    receives ''d:4'' ''hello'' (demo_net demo_msgID) net' \<and> acknowledged ''a:1'' demo_msgID 0 True net'"
    by (rule send_delivers_and_acks [OF ideal.crypto_laws_axioms _ demo_ids(1) demo_nacks])
      (use d demo_node_ready demo_net_fresh demo_sender_ready in \<open>auto simp del: Encapsulator_func_def\<close>)
  then obtain net' where
    run: "run_net ideal_crypto (\<lambda>_. True) (demo_env 4) [(''b:2'', onion)] (demo_net demo_msgID) = Ok (net', [])"
    and got: "receives ''d:4'' ''hello'' (demo_net demo_msgID) net'" "acknowledged ''a:1'' demo_msgID 0 True net'" by auto
  from d have "fst demo_encapsulation = demo_cache" by simp
  with run got demo_receives [OF got(1)] show ?thesis by blast
qed

theorem nack_reaches_sender_witness:
  "\<exists>onion net'. fst demo_encapsulation = demo_cache \<and>
     run_net ideal_crypto (\<lambda>a. a \<noteq> ''d:4'') (demo_env 2) [(''b:2'', onion)] (demo_net demo_nack) = Ok (net', []) \<and>
     acknowledged ''a:1'' demo_nack 0 False net'"
proof -
  from demo_encapsulation_ok obtain onion where d: "demo_encapsulation =
     (demo_cache, Ok ((onion, demo_msgID, demo_nack), drop 304 (drop 30 demo_rng)))" by blast
  have "\<exists>net'. run_net ideal_crypto (\<lambda>a. a \<noteq> ''d:4'') (demo_env 2) [(hd [''b:2''], onion)] (demo_net demo_nack) = Ok (net', []) \<and>
    acknowledged ''a:1'' demo_nack 0 False net' \<and>
    (\<forall>a n. demo_net demo_nack a = Some n \<longrightarrow> (\<exists>n'. net' a = Some n' \<and> ReceivedMsgs n' = ReceivedMsgs n \<and>
       PendingRelays n' \<subseteq>\<^sub>m PendingRelays n))"
    by (rule nack_reaches_sender [OF ideal.crypto_laws_axioms _ demo_ids(1), where x = "''d:4''" and rest = "[]"])
      (use d demo_nacks(1) demo_node_ready demo_net_fresh demo_sender_ready in
        \<open>auto simp: wire_addr_def demo_net_def split: if_splits\<close>)
  then show ?thesis using d by auto
qed

theorem ssend_delivers_if_members_up_witness:
  "\<exists>onion nack r' net'.
     Encapsulator_func_super ideal_crypto ''hello'' demo_groups demo_return ''a:1'' demo_rng = Ok ((onion, demo_msgID, nack), r') \<and>
     run_net ideal_crypto (\<lambda>a. a \<noteq> ''b:2'') (demo_env 4) [(''c:3'', onion)] (demo_net demo_msgID) = Ok (net', []) \<and>
     map_option ReceivedMsgs (net' ''d:4'') = Some [''hello''] \<and> acknowledged ''a:1'' demo_msgID 0 True net'"
proof -
  let ?g = "\<lparr>Addrs = [''b:2'', ''c:3''], PubKeys = [2, 3]\<rparr> :: nat LayerGroup" and ?dest = "\<lparr>Addrs = [''d:4''], PubKeys = [4]\<rparr> :: nat LayerGroup"
    and ?me = "\<lparr>Addrs = [''a:1''], PubKeys = [1]\<rparr> :: nat LayerGroup"
  obtain onion i nack r' where enc:
    "Encapsulator_func_super ideal_crypto ''hello'' demo_groups demo_return ''a:1'' demo_rng = Ok ((onion, i, nack), r')"
    using demo_super_ok by blast
  with super_encapsulated_package [OF ideal.crypto_sep_axioms enc] demo_ids(1) have i: "i = demo_msgID" by auto
  have enc': "Encapsulator_func_super ideal_crypto ''hello'' ([?g] @ [?dest]) (rev [?g] @ [?me]) ''a:1'' demo_rng =
    Ok ((onion, demo_msgID, nack), r')" using enc i by (simp add: demo_group_defs)
  have ready: "\<forall>g \<in> set ([?g] @ [?dest, ?me]). group_ready ideal_crypto (\<lambda>a. a \<noteq> ''b:2'') (demo_net demo_msgID) g"
    by (simp add: group_ready_def wire_addr_def demo_net_def ideal_crypto_def)
  have "\<exists>net'. run_net ideal_crypto (\<lambda>a. a \<noteq> ''b:2'') (demo_env 4) [(''c:3'', onion)] (demo_net demo_msgID) = Ok (net', []) \<and>
    receives ''d:4'' ''hello'' (demo_net demo_msgID) net' \<and> acknowledged ''a:1'' demo_msgID 0 True net'"
    by (rule ssend_delivers_if_members_up [OF ideal.crypto_sep_axioms enc' demo_ids(1) _ demo_nacks(2) _ _ _ ready
          demo_net_fresh demo_sender_ready])
      (use demo_nacks(1) in \<open>simp_all del: nack_ids.simps\<close>)
  with enc i demo_receives show ?thesis by blast
qed

end
