(* ===== verification/Directory.thy ===== *)
theory Directory
  imports KeyCache GoNumbers "HOL-Library.Signed_Division" "HOL-Library.Sublist"
begin

text \<open>
  The directory server: the node table of \<open>data/SQLManager.go\<close>, and \<open>List_Serveur/serveur.go\<close>, which
  answers \<open>INIT\<close>, \<open>UPDATE_KEY\<close>, \<open>GET_LIST\<close>, \<open>GET_KEY\<close> and \<open>QUIT\<close> and probes the registered nodes
  (\<open>TestPing\<close>).

  The database engine is a parameter: a record of functions that run the statements of the source,
  with the documented behaviour of those statements as the locale \<open>sqlite_laws\<close>; the locale is
  interpreted on a table kept as a list.
\<close>

section \<open>Registered nodes\<close>

record NodeInfo =
  Uuid :: string
  Name :: string
  Ip :: string
  InfoPort :: int
  InfoKey :: string
  AvailabilityScore :: int
  NetworkScore :: int


section \<open>The database\<close>

text \<open>The statements of \<open>SQLManager.go\<close>; a failing statement leaves the table as it was.\<close>

datatype sql =
    INSERT NodeInfo
  | UPDATE_publicKey string string              \<comment> \<open>new key, name\<close>
  | UPDATE_availability int string              \<comment> \<open>new score, name\<close>
  | DELETE_name string
  | DELETE_all
  | DELETE_sequence                             \<comment> \<open>\<open>DELETE FROM sqlite_sequence WHERE name='nodes'\<close>\<close>
  | CREATE_TABLE                                \<comment> \<open>\<open>IF NOT EXISTS\<close>\<close>
  | ADD_COLUMN string                           \<comment> \<open>\<open>INTEGER DEFAULT 0\<close>; a missing score reads as 0\<close>

record 'db sqlite =
  Exec :: "sql \<Rightarrow> 'db \<Rightarrow> 'db res"
  SelectWeighted :: "nat \<Rightarrow> draws \<Rightarrow> 'db \<Rightarrow> NodeInfo list res"

text \<open>The effect of a statement on the rows.\<close>

fun sql_rows :: "sql \<Rightarrow> NodeInfo list \<Rightarrow> NodeInfo list" where
  "sql_rows (INSERT i) rs = rs @ [i]"
| "sql_rows (UPDATE_publicKey k nm) rs = map (\<lambda>i. if Name i = nm then i\<lparr>InfoKey := k\<rparr> else i) rs"
| "sql_rows (UPDATE_availability s nm) rs = map (\<lambda>i. if Name i = nm then i\<lparr>AvailabilityScore := s\<rparr> else i) rs"
| "sql_rows (DELETE_name nm) rs = filter (\<lambda>i. Name i \<noteq> nm) rs"
| "sql_rows DELETE_all rs = []"
| "sql_rows DELETE_sequence rs = rs"
| "sql_rows CREATE_TABLE rs = rs"
| "sql_rows (ADD_COLUMN c) rs = rs"

text \<open>
  What is relied on: a statement that succeeds has its effect on the rows, and the query
  \<open>ORDER BY RANDOM() * ... DESC LIMIT n\<close> returns \<open>n\<close> of the rows, or all of them, in some order.
\<close>

locale sqlite_laws =
  fixes S :: "'db sqlite" and rows :: "'db \<Rightarrow> NodeInfo list"
  assumes exec_rows: "Exec S q db = Ok db' \<Longrightarrow> mset (rows db') = mset (sql_rows q (rows db))"
    and exec_total: "(\<exists>db'. Exec S q db = Ok db') \<or> (\<exists>e. Exec S q db = Err e)"
    and select_some: "SelectWeighted S n ds db = Ok rs \<Longrightarrow>
      mset rs \<subseteq># mset (rows db) \<and> length rs = min n (length (rows db))"
    and select_total: "(\<exists>rs. SelectWeighted S n ds db = Ok rs) \<or> (\<exists>e. SelectWeighted S n ds db = Err e)"
begin

lemma select_all:
  assumes "SelectWeighted S n ds db = Ok rs" and "length (rows db) \<le> n"
  shows "mset rs = mset (rows db)"
proof -
  from select_some [OF assms(1)] assms(2) have sub: "mset rs \<subseteq># mset (rows db)" and "size (mset rs) = size (mset (rows db))"
    by auto
  then show ?thesis by (metis mset_subset_size order_less_irrefl subset_mset.le_imp_less_or_eq)
qed

end

definition list_db :: "NodeInfo list sqlite" where
  "list_db = \<lparr>Exec = \<lambda>q rs. Ok (sql_rows q rs), SelectWeighted = \<lambda>n ds rs. Ok (take n (fst (Shuffle ds rs)))\<rparr>"

interpretation list_db: sqlite_laws list_db "\<lambda>rs. rs"
proof
  fix n ds rs and db :: "NodeInfo list"
  assume "SelectWeighted list_db n ds db = Ok rs"
  then have rs: "rs = take n (fst (Shuffle ds db))" by (simp add: list_db_def)
  have "mset (fst (Shuffle ds db)) = mset rs + mset (drop n (fst (Shuffle ds db)))"
    unfolding rs by (metis append_take_drop_id mset_append)
  then show "mset rs \<subseteq># mset db \<and> length rs = min n (length db)"
    unfolding mset_Shuffle by (simp add: rs)
qed (auto simp: list_db_def)


section \<open>Table operations\<close>

definition AddNode :: "'db sqlite \<Rightarrow> NodeInfo \<Rightarrow> 'db \<Rightarrow> 'db res" where
  "AddNode S node db = Exec S (INSERT node) db"

definition GetNodesList :: "'db sqlite \<Rightarrow> nat \<Rightarrow> draws \<Rightarrow> 'db \<Rightarrow> NodeInfo list res" where
  "GetNodesList S limit ds db = SelectWeighted S limit ds db"

definition UpdateNodeKey :: "'db sqlite \<Rightarrow> string \<Rightarrow> string \<Rightarrow> 'db \<Rightarrow> 'db res" where
  "UpdateNodeKey S nm newKey db = Exec S (UPDATE_publicKey newKey nm) db"

definition RemoveNode :: "'db sqlite \<Rightarrow> string \<Rightarrow> 'db \<Rightarrow> 'db res" where
  "RemoveNode S nodeID db = Exec S (DELETE_name nodeID) db"

definition UpdateAvailabilityScore :: "'db sqlite \<Rightarrow> string \<Rightarrow> int \<Rightarrow> 'db \<Rightarrow> 'db res" where
  "UpdateAvailabilityScore S nm score db = Exec S (UPDATE_availability score nm) db"

definition ClearTable :: "'db sqlite \<Rightarrow> 'db \<Rightarrow> 'db \<times> unit res" where
  "ClearTable S db =
     (case Exec S DELETE_all db of
        Ok db' \<Rightarrow> (case Exec S DELETE_sequence db' of Ok db'' \<Rightarrow> (db'', Ok ()) | Err e \<Rightarrow> (db', Err e)
                   | Panic \<Rightarrow> (db', Panic) | Blocked \<Rightarrow> (db', Blocked))
      | Err e \<Rightarrow> (db, Err e) | Panic \<Rightarrow> (db, Panic) | Blocked \<Rightarrow> (db, Blocked))"

text \<open>Callers that log an error and go on keep the old table.\<close>

definition or_keep :: "'db \<Rightarrow> 'db res \<Rightarrow> 'db" where
  "or_keep db r = (case r of Ok db' \<Rightarrow> db' | _ \<Rightarrow> db)"


text \<open>The two columns added for old tables; that they exist already is not an error.\<close>

definition InitTable :: "'db sqlite \<Rightarrow> 'db \<Rightarrow> 'db res" where
  "InitTable S db =
     bind_res (Exec S CREATE_TABLE db) (\<lambda>db1.
       let db2 = or_keep db1 (Exec S (ADD_COLUMN ''availability_score'') db1)
       in Ok (or_keep db2 (Exec S (ADD_COLUMN ''network_score'') db2)))"


section \<open>The list of nodes\<close>

abbreviation MaxSampleNodes :: nat where "MaxSampleNodes \<equiv> 500"

definition list_entry :: "NodeInfo \<Rightarrow> string" where
  "list_entry info = Name info @ pipe # Ip info @ pipe # Itoa (InfoPort info) @ pipe # InfoKey info @ pipe #
     Itoa (AvailabilityScore info) @ pipe # Itoa (NetworkScore info)"

definition getNodesList :: "'db sqlite \<Rightarrow> draws \<Rightarrow> 'db \<Rightarrow> string" where
  "getNodesList S ds db =
     (case GetNodesList S MaxSampleNodes ds db of
        Ok nodes \<Rightarrow> if nodes = [] then ''LIST:empty'' @ [nl]
                    else ''LIST:'' @ Join (map list_entry nodes) [comma] @ [nl]
      | _ \<Rightarrow> ''LIST:empty'' @ [nl])"


section \<open>Connections\<close>

text \<open>
  What a handler reads from its surroundings: the identifier \<open>uuid.New\<close> makes, the \<open>NODE_ADDR\<close>
  variable, the host part of the remote address, and the draws behind \<open>RANDOM()\<close>.
\<close>

record dir_env =
  NewUuid :: string
  NODE_ADDR :: string
  RemoteHost :: string
  Random :: draws

fun find_key :: "string \<Rightarrow> int \<Rightarrow> NodeInfo list \<Rightarrow> string option" where
  "find_key ip port [] = None"
| "find_key ip port (node # nodes) =
     (if Ip node = ip \<and> InfoPort node = port then Some (InfoKey node) else find_key ip port nodes)"

definition handle_INIT :: "'db sqlite \<Rightarrow> dir_env \<Rightarrow> string list \<Rightarrow> 'db \<Rightarrow> 'db \<times> bytes" where
  "handle_INIT S env parts db =
     (if length parts < 6 then (db, ''ERROR:Invalid format'' @ [nl])
      else let name = parts ! 1; port = fst (Atoi (parts ! 2)); key = parts ! 3;
               sa = fst (Atoi (parts ! 4)); sn = fst (Atoi (parts ! 5));
               host = (if NODE_ADDR env = [] then RemoteHost env else NODE_ADDR env);
               info = \<lparr>Uuid = NewUuid env, Name = name, Ip = host, InfoPort = port, InfoKey = key,
                       AvailabilityScore = sa, NetworkScore = sn\<rparr>
           in case AddNode S info db of
                Ok db' \<Rightarrow> (db', ''INIT_ACK:'' @ name @ '':'' @ host @ [nl])
              | _ \<Rightarrow> (db, []))"

definition handle_GET_KEY :: "'db sqlite \<Rightarrow> dir_env \<Rightarrow> string list \<Rightarrow> 'db \<Rightarrow> bytes" where
  "handle_GET_KEY S env parts db =
     (if length parts < 3 then ''ERROR:Invalid format'' @ [nl]
      else case Atoi (parts ! 2) of
        (port, Some _) \<Rightarrow> ''ERROR:Invalid port'' @ [nl]
      | (port, None) \<Rightarrow>
          (case find_key (parts ! 1) port
                  (case GetNodesList S MaxSampleNodes (Random env) db of Ok nodes \<Rightarrow> nodes | _ \<Rightarrow> []) of
             Some key \<Rightarrow> ''KEY:'' @ key @ [nl]
           | None \<Rightarrow> ''ERROR:Node not found'' @ [nl]))"

definition handle_command :: "'db sqlite \<Rightarrow> dir_env \<Rightarrow> string list \<Rightarrow> 'db \<Rightarrow> 'db \<times> bytes" where
  "handle_command S env parts db =
     (let cmd = parts ! 0 in
      if cmd = ''INIT'' then handle_INIT S env parts db
      else if cmd = ''UPDATE_KEY'' then
        (if length parts < 3 then (db, ''ERROR:Invalid format'' @ [nl])
         else (or_keep db (UpdateNodeKey S (parts ! 1) (parts ! 2) db), []))
      else if cmd = ''GET_LIST'' then (db, getNodesList S (Random env) db)
      else if cmd = ''GET_KEY'' then (db, handle_GET_KEY S env parts db)
      else if cmd = ''QUIT'' then
        (if length parts < 2 then (db, []) else (or_keep db (RemoveNode S (parts ! 1) db), []))
      else (db, ''ERROR:Unknown command'' @ [nl]))"

text \<open>\<open>strings.Split\<close> never returns an empty slice, so the test for one part is never taken.\<close>

definition handleConnection :: "'db sqlite \<Rightarrow> dir_env \<Rightarrow> bytes \<Rightarrow> 'db \<Rightarrow> 'db \<times> bytes" where
  "handleConnection S env conn db =
     (case ReadString conn of
        Ok line \<Rightarrow>
          (let parts = Split colon (TrimSpace line)
           in if length parts < 1 then (db, []) else handle_command S env parts db)
      | _ \<Rightarrow> (db, []))"


section \<open>Probing\<close>

definition JoinHostPort :: "string \<Rightarrow> string \<Rightarrow> string" where
  "JoinHostPort host port =
     (if colon \<in> set host then ''['' @ host @ '']:'' @ port else host @ '':'' @ port)"

definition ping_node :: "'db sqlite \<Rightarrow> (addr \<Rightarrow> bool) \<Rightarrow> NodeInfo \<Rightarrow> 'db \<Rightarrow> 'db" where
  "ping_node S up node db =
     (if \<not> up (JoinHostPort (Ip node) (Itoa (InfoPort node)))
      then let newScore = AvailabilityScore node sdiv 2
           in if newScore < 5 then or_keep db (RemoveNode S (Name node) db)
              else or_keep db (UpdateAvailabilityScore S (Name node) newScore db)
      else if AvailabilityScore node < 100
           then or_keep db (UpdateAvailabilityScore S (Name node) (min (AvailabilityScore node + 5) 100) db)
           else db)"

text \<open>One tick of \<open>TestPing\<close>.\<close>

definition TestPing :: "'db sqlite \<Rightarrow> (addr \<Rightarrow> bool) \<Rightarrow> draws \<Rightarrow> 'db \<Rightarrow> 'db" where
  "TestPing S up ds db =
     (case GetNodesList S MaxSampleNodes ds db of
        Ok nodes \<Rightarrow> fold (ping_node S up) nodes db
      | _ \<Rightarrow> db)"



section \<open>What a probe does to the table\<close>

definition working :: "'db sqlite \<Rightarrow> bool" where
  "working S \<longleftrightarrow> (\<forall>q db. \<exists>db'. Exec S q db = Ok db') \<and> (\<forall>n ds db. \<exists>rs. SelectWeighted S n ds db = Ok rs)"

text \<open>The effect of one tick on one row.\<close>

definition ping_row :: "(addr \<Rightarrow> bool) \<Rightarrow> NodeInfo \<Rightarrow> NodeInfo list" where
  "ping_row up i =
     (let s = AvailabilityScore i in
      if up (JoinHostPort (Ip i) (Itoa (InfoPort i)))
      then [i\<lparr>AvailabilityScore := if s < 100 then min (s + 5) 100 else s\<rparr>]
      else if s sdiv 2 < 5 then [] else [i\<lparr>AvailabilityScore := s sdiv 2\<rparr>])"

lemma distinct_sub: "subseq xs ys \<Longrightarrow> distinct ys \<Longrightarrow> distinct xs"
  by (metis distinct_nthsI subseq_conv_nths)

lemma mset_concat_map: "mset (concat (map g xs)) = sum_mset (image_mset (\<lambda>x. mset (g x)) (mset xs))"
  by (induction xs) simp_all

lemma mset_sql_rows_cong: "mset rs = mset rs' \<Longrightarrow> mset (sql_rows q rs) = mset (sql_rows q rs')"
  by (cases q) simp_all

lemma sql_rows_head:
  assumes "Name i \<notin> Name ` set rest"
  shows "sql_rows (DELETE_name (Name i)) (i # rest) = rest"
    and "sql_rows (UPDATE_availability v (Name i)) (i # rest) = i\<lparr>AvailabilityScore := v\<rparr> # rest"
  using assms by (auto intro!: map_idI filter_True simp: image_iff)

context sqlite_laws
begin

lemma ping_node_rows:
  assumes "working S" and "mset (rows db) = mset (i # rest)" and "Name i \<notin> Name ` set rest"
  shows "mset (rows (ping_node S up i db)) = mset (ping_row up i @ rest)"
proof -
  have step: "mset (rows (or_keep db (Exec S q db))) = mset (sql_rows q (i # rest))" for q
  proof -
    from assms(1) obtain db' where "Exec S q db = Ok db'" unfolding working_def by blast
    then show ?thesis using exec_rows mset_sql_rows_cong [OF assms(2)] by (auto simp: or_keep_def)
  qed
  have "i\<lparr>AvailabilityScore := AvailabilityScore i\<rparr> = i" by simp
  then show ?thesis
    using assms(2) step sql_rows_head [OF assms(3)]
    by (auto simp: ping_node_def ping_row_def Let_def RemoveNode_def UpdateAvailabilityScore_def)
qed

lemma fold_ping_rows:
  assumes "working S" and "mset (rows db) = mset (nodes @ done)" and "distinct (map Name (nodes @ done))"
  shows "mset (rows (fold (ping_node S up) nodes db)) = mset (concat (map (ping_row up) nodes) @ done)"
  using assms(2,3)
proof (induction nodes arbitrary: db "done")
  case (Cons i nodes)
  have "mset (rows (ping_node S up i db)) = mset (ping_row up i @ nodes @ done)"
    using Cons.prems by (intro ping_node_rows [OF assms(1)]) auto
  then have "mset (rows (ping_node S up i db)) = mset (nodes @ ping_row up i @ done)" by simp
  moreover have "distinct (map Name (nodes @ ping_row up i @ done))"
    using Cons.prems(2) by (auto simp: ping_row_def Let_def)
  ultimately show ?case using Cons.IH [of "ping_node S up i db" "ping_row up i @ done"] by (simp add: ac_simps)
qed simp

lemma TestPing_rows:
  assumes "working S" and "distinct (map Name (rows db))" and "length (rows db) \<le> MaxSampleNodes"
  shows "mset (rows (TestPing S up ds db)) = mset (concat (map (ping_row up) (rows db)))"
proof -
  from assms(1) obtain nodes where sel: "SelectWeighted S MaxSampleNodes ds db = Ok nodes" unfolding working_def by blast
  from select_all [OF this assms(3)] have nodes: "mset nodes = mset (rows db)" .
  have "distinct (map Name nodes)" using assms(2) nodes by (metis mset_eq_imp_distinct_iff mset_map)
  with fold_ping_rows [OF assms(1), of db nodes "[]"] nodes
  have "mset (rows (fold (ping_node S up) nodes db)) = mset (concat (map (ping_row up) nodes))" by simp
  moreover have "mset (concat (map (ping_row up) nodes)) = mset (concat (map (ping_row up) (rows db)))"
    using nodes by (simp only: mset_concat_map)
  ultimately show ?thesis using sel by (simp add: TestPing_def GetNodesList_def)
qed

end


text \<open>
  C28: with a working database, distinct names and at most 500 nodes, one tick of \<open>TestPing\<close> does to every
  row what it should, whatever the order of the sample: a reachable node gains five points up to 100,
  an unreachable one has its score halved, or is removed when the half is below five.
\<close>

theorem TestPing_refines_ping_row:
  assumes "sqlite_laws S rows" and "working S" and "distinct (map Name (rows db))"
    and "length (rows db) \<le> MaxSampleNodes"
  shows "mset (rows (TestPing S up ds db)) = mset (concat (map (ping_row up) (rows db)))"
  using sqlite_laws.TestPing_rows [OF assms] .


section \<open>Many probes\<close>

definition ping_rounds :: "(addr \<Rightarrow> bool) \<Rightarrow> nat \<Rightarrow> NodeInfo \<Rightarrow> NodeInfo list" where
  "ping_rounds up k i =
     (let s = AvailabilityScore i in
      if k = 0 then [i]
      else if up (JoinHostPort (Ip i) (Itoa (InfoPort i)))
      then [i\<lparr>AvailabilityScore := if s < 100 then min (s + 5 * int k) 100 else s\<rparr>]
      else if s div 2 ^ k < 5 then [] else [i\<lparr>AvailabilityScore := s div 2 ^ k\<rparr>])"

lemma sdiv_2: "s sdiv 2 = (if 0 \<le> s then s div 2 else - (- s div 2))" for s :: int
  by (auto simp: signed_divide_int_def sgn_if)

lemma div_Suc_power: "s div 2 ^ Suc k = s div 2 div 2 ^ k" for s :: int
  by (simp add: zdiv_zmult2_eq)

lemma ping_row_down:
  assumes "\<not> up (JoinHostPort (Ip i) (Itoa (InfoPort i)))"
  shows "concat (map (ping_rounds up k) (ping_row up i)) = ping_rounds up (Suc k) i"
proof -
  let ?s = "AvailabilityScore i"
  show ?thesis
  proof (cases "?s sdiv 2 < 5")
    case True
    then have "?s div 2 < 5" by (auto simp: sdiv_2 split: if_splits)
    then have "?s div 2 div 2 ^ k \<le> 4 div 2 ^ k" by (intro zdiv_mono1) auto
    also have "(4::int) div 2 ^ k \<le> 4" using zdiv_mono2 [of 4 1 "2 ^ k"] by simp
    finally have "?s div 2 div 2 ^ k < 5" by simp
    with True assms show ?thesis by (simp add: ping_row_def ping_rounds_def Let_def div_Suc_power del: power_Suc)
  next
    case False
    then have "0 \<le> ?s" "?s sdiv 2 = ?s div 2" "5 \<le> ?s div 2" by (auto simp: sdiv_2 split: if_splits)
    with False assms show ?thesis
      by (cases "k = 0") (simp_all add: ping_row_def ping_rounds_def Let_def div_Suc_power del: power_Suc)
  qed
qed

lemma ping_row_rounds: "concat (map (ping_rounds up k) (ping_row up i)) = ping_rounds up (Suc k) i"
proof (cases "up (JoinHostPort (Ip i) (Itoa (InfoPort i)))")
  case True
  then show ?thesis by (cases "k = 0") (auto simp: ping_row_def ping_rounds_def Let_def min_def)
next
  case False
  then show ?thesis by (rule ping_row_down)
qed

context sqlite_laws
begin

lemma TestPing_distinct:
  assumes "working S" and "distinct (map Name (rows db))" and "length (rows db) \<le> MaxSampleNodes"
  shows "distinct (map Name (rows (TestPing S up ds db)))" and "length (rows (TestPing S up ds db)) \<le> MaxSampleNodes"
proof -
  let ?new = "concat (map (ping_row up) (rows db))"
  have m: "mset (rows (TestPing S up ds db)) = mset ?new" using TestPing_rows [OF assms] .
  have sub: "subseq (map Name (concat (map (ping_row up) rs))) (map Name rs)" for rs
    by (induction rs) (auto simp: ping_row_def Let_def)
  have "distinct (map Name ?new)" using distinct_sub [OF sub] assms(2) by blast
  then show "distinct (map Name (rows (TestPing S up ds db)))"
    using m by (metis mset_eq_imp_distinct_iff mset_map)
  have "length ?new \<le> length (rows db)" using list_emb_length [OF sub [of "rows db"]] by simp
  then show "length (rows (TestPing S up ds db)) \<le> MaxSampleNodes"
    using assms(3) mset_eq_length [OF m] by simp
qed

lemma TestPing_rounds:
  assumes "working S" and "distinct (map Name (rows db))" and "length (rows db) \<le> MaxSampleNodes"
  shows "mset (rows (fold (TestPing S up) dss db)) = mset (concat (map (ping_rounds up (length dss)) (rows db)))"
  using assms(2,3)
proof (induction dss arbitrary: db)
  case Nil
  have "ping_rounds up 0 = (\<lambda>i. [i])" by (rule ext) (simp add: ping_rounds_def)
  then show ?case by simp
next
  case (Cons ds dss)
  let ?g = "ping_rounds up (length dss)"
  have "mset (rows (fold (TestPing S up) dss (TestPing S up ds db))) =
    sum_mset (image_mset (\<lambda>x. mset (?g x)) (mset (rows (TestPing S up ds db))))"
    using Cons.IH TestPing_distinct [OF assms(1) Cons.prems] by (simp only: mset_concat_map)
  also have "\<dots> = mset (concat (map ?g (concat (map (ping_row up) (rows db)))))"
    unfolding TestPing_rows [OF assms(1) Cons.prems] by (simp only: mset_concat_map)
  also have "concat (map ?g (concat (map (ping_row up) rs))) = concat (map (ping_rounds up (length (ds # dss))) rs)" for rs
    by (induction rs) (simp_all add: ping_row_rounds)
  finally show ?case by simp
qed

end

text \<open>
  C33: the effect of any number of ticks in closed form: after \<open>k\<close> of them a reachable node has gained
  \<open>5k\<close> points up to 100 and is never removed, while a node that stays unreachable has its score divided
  by \<open>2^k\<close> and is gone once that is below five (a node registered with at most 100 points after at
  most five ticks). Unreachable nodes are not evicted at once.
\<close>

theorem TestPing_closed_form:
  assumes "sqlite_laws S rows" and "working S" and "distinct (map Name (rows db))"
    and "length (rows db) \<le> MaxSampleNodes"
  shows "mset (rows (fold (TestPing S up) dss db)) = mset (concat (map (ping_rounds up (length dss)) (rows db)))"
  using sqlite_laws.TestPing_rounds [OF assms] .

definition demo_row :: "string \<Rightarrow> int \<Rightarrow> int \<Rightarrow> NodeInfo" where
  "demo_row nm port score = \<lparr>Uuid = ''u'', Name = nm, Ip = ''10.0.0.1'', InfoPort = port, InfoKey = ''k'',
     AvailabilityScore = score, NetworkScore = 50\<rparr>"

lemma list_db_working: "working list_db"
  by (simp add: working_def list_db_def)

lemma demo_addr: "JoinHostPort ''10.0.0.1'' (Itoa 2) \<noteq> JoinHostPort ''10.0.0.1'' (Itoa 1)"
  by (simp add: JoinHostPort_def Itoa_def nat_digits.simps digit_def)

theorem TestPing_refines_ping_row_witness:
  "mset (TestPing list_db (\<lambda>a. a = JoinHostPort ''10.0.0.1'' (Itoa 1)) [1] [demo_row ''n1'' 1 98, demo_row ''n2'' 2 9, demo_row ''n3'' 2 40])
     = mset [demo_row ''n1'' 1 100, demo_row ''n3'' 2 20]"
  using TestPing_refines_ping_row [OF list_db.sqlite_laws_axioms list_db_working,
      of "[demo_row ''n1'' 1 98, demo_row ''n2'' 2 9, demo_row ''n3'' 2 40]" "\<lambda>a. a = JoinHostPort ''10.0.0.1'' (Itoa 1)" "[1]"]
    demo_addr by (simp add: demo_row_def ping_row_def sdiv_2)

theorem TestPing_closed_form_witness:
  "fold (TestPing list_db (\<lambda>a. a = JoinHostPort ''10.0.0.1'' (Itoa 1))) [[], [1], [], [], []]
     [demo_row ''n1'' 1 15, demo_row ''n2'' 2 100] = [demo_row ''n1'' 1 40]"
  using TestPing_closed_form [OF list_db.sqlite_laws_axioms list_db_working,
      of "[demo_row ''n1'' 1 15, demo_row ''n2'' 2 100]" "\<lambda>a. a = JoinHostPort ''10.0.0.1'' (Itoa 1)" "[[], [1], [], [], []]"]
    demo_addr by (simp add: demo_row_def ping_rounds_def)

end
