(* ===== verification/Client.thy ===== *)
theory Client
  imports Node Directory
begin

text \<open>
  The node as a client of the directory: \<open>GetNodesList\<close>, \<open>JoinServerList\<close>, \<open>RegenerateKeys\<close> and
  \<open>Stop\<close> of \<open>model/Node.go\<close>, and the two sides put together: what registration, key rotation and a key
  query achieve when the request is answered by the directory's own handler.
\<close>

section \<open>Requests\<close>

definition Node_GetNodesList :: "directory \<Rightarrow> string res" where
  "Node_GetNodesList ask =
     bind_res (ask (''GET_LIST'' @ [nl])) (\<lambda>raw. bind_res (ReadString raw) (\<lambda>response. Ok (TrimSpace response)))"

definition init_line :: "string \<Rightarrow> int \<Rightarrow> bytes \<Rightarrow> int \<Rightarrow> int \<Rightarrow> string" where
  "init_line ident port pubBytes sa sn =
     Join [''INIT'', ident, Itoa port, EncodeToString pubBytes, Itoa sa, Itoa sn] '':'' @ [nl]"

definition JoinServerList ::
  "('pk, 'sk) crypto \<Rightarrow> directory \<Rightarrow> int \<Rightarrow> int \<Rightarrow> ('pk, 'sk) Node \<Rightarrow> ('pk, 'sk) Node \<times> unit res" where
  "JoinServerList C ask sa sn n =
     (case MarshalPKIX C (PublicKey n) of
        None \<Rightarrow> (n, Err ErrMarshal)
      | Some pubBytes \<Rightarrow>
          (case bind_res (ask (init_line (ID n) (Port n) pubBytes sa sn)) ReadString of
             Ok line \<Rightarrow>
               (let response = TrimSpace line in
                if HasPrefix response ''INIT_ACK''
                then let ackParts = SplitN colon 3 response
                     in (if 3 \<le> length ackParts then n\<lparr>NodeIP := ackParts ! 2\<rparr> else n, Ok ())
                else (n, Err (ErrServer response)))
           | Err e \<Rightarrow> (n, Err e) | Panic \<Rightarrow> (n, Panic) | Blocked \<Rightarrow> (n, Blocked)))"

definition update_line :: "string \<Rightarrow> bytes \<Rightarrow> string" where
  "update_line ident pubBytes = ''UPDATE_KEY:'' @ ident @ '':'' @ EncodeToString pubBytes @ [nl]"

text \<open>
  The generated private key, if generation succeeds, is an argument. The new keys are in place before
  the directory is told; its answer is not read.
\<close>

definition RegenerateKeys ::
  "('pk, 'sk) crypto \<Rightarrow> 'sk option \<Rightarrow> directory \<Rightarrow> ('pk, 'sk) Node \<Rightarrow> ('pk, 'sk) Node \<times> unit res" where
  "RegenerateKeys C newPriv tell n =
     (case newPriv of
        None \<Rightarrow> (n, Err ErrRand)
      | Some sk \<Rightarrow>
          (case MarshalPKIX C (PublicOf C sk) of
             None \<Rightarrow> (n, Err ErrMarshal)
           | Some pubBytes \<Rightarrow>
               (n\<lparr>PrivateKey := sk, PublicKey := PublicOf C sk\<rparr>,
                bind_res (tell (update_line (ID n) pubBytes)) (\<lambda>_. Ok ()))))"

text \<open>The line \<open>Stop\<close> sends when the directory accepts the connection.\<close>

definition Stop :: "('pk, 'sk) Node \<Rightarrow> string" where
  "Stop n = ''QUIT:'' @ ID n @ [nl]"


section \<open>The directory as its own handler\<close>

definition dir_ask :: "'db sqlite \<Rightarrow> dir_env \<Rightarrow> 'db \<Rightarrow> directory" where
  "dir_ask S env db line = Ok (snd (handleConnection S env line db))"

definition dir_after :: "'db sqlite \<Rightarrow> dir_env \<Rightarrow> 'db \<Rightarrow> string \<Rightarrow> 'db" where
  "dir_after S env db line = fst (handleConnection S env line db)"

text \<open>Names and hosts that survive the line protocol.\<close>

definition wire_name :: "string \<Rightarrow> bool" where
  "wire_name s \<longleftrightarrow> colon \<notin> set s \<and> nl \<notin> set s"

abbreviation int64 :: "int \<Rightarrow> bool" where
  "int64 i \<equiv> - (2 ^ 63) \<le> i \<and> i < 2 ^ 63"

lemma handleConnection_line:
  assumes "s \<noteq> []" and "printable (hd s)" and "printable (last s)" and "nl \<notin> set s"
  shows "handleConnection S env (s @ [nl]) db = handle_command S env (Split colon s) db"
  using assms TrimSpace_line [of s] by (simp add: handleConnection_def Let_def leD Suc_leI)

lemma nat_digits_printable: "c \<in> set (nat_digits k) \<Longrightarrow> printable c"
  using nat_digits_digits by fastforce

lemma Itoa_printable: "c \<in> set (Itoa i) \<Longrightarrow> printable c" and Itoa_neq_Nil: "Itoa i \<noteq> []"
  using nat_digits_printable by (auto simp: Itoa_def printable_def split: if_splits)

lemma handle_init:
  assumes "wire_name ident" and "int64 port" "int64 sa" "int64 sn"
  shows "handleConnection S env (init_line ident port b sa sn) db =
    handle_INIT S env [''INIT'', ident, Itoa port, EncodeToString b, Itoa sa, Itoa sn] db"
proof -
  let ?s = "Join [''INIT'', ident, Itoa port, EncodeToString b, Itoa sa, Itoa sn] '':''"
  have "last ?s = last (Itoa sn)" using Itoa_neq_Nil [of sn] by simp
  then have "printable (last ?s)" using Itoa_printable Itoa_neq_Nil by (metis last_in_set)
  moreover have "printable (hd ?s)" "?s \<noteq> []" by (simp_all add: printable_def)
  moreover have "nl \<notin> set ?s" using assms(1) by (auto simp: wire_name_def)
  moreover have "Split colon ?s = [''INIT'', ident, Itoa port, EncodeToString b, Itoa sa, Itoa sn]"
    using assms(1) by (intro Split_Join) (auto simp: wire_name_def)
  ultimately show ?thesis
    using handleConnection_line [of ?s S env db] by (simp add: init_line_def handle_command_def del: Join.simps)
qed



section \<open>Registration\<close>

text \<open>The host the directory records for a connection.\<close>

definition dir_host :: "dir_env \<Rightarrow> string" where
  "dir_host env = (if NODE_ADDR env = [] then RemoteHost env else NODE_ADDR env)"

definition registered :: "('pk, 'sk) Node \<Rightarrow> dir_env \<Rightarrow> bytes \<Rightarrow> int \<Rightarrow> int \<Rightarrow> NodeInfo" where
  "registered n env b sa sn = \<lparr>Uuid = NewUuid env, Name = ID n, Ip = dir_host env, InfoPort = Port n,
     InfoKey = EncodeToString b, AvailabilityScore = sa, NetworkScore = sn\<rparr>"

lemma handle_init_row:
  assumes "working S" and "wire_name (ID n)" and "int64 (Port n)" "int64 sa" "int64 sn"
  shows "\<exists>db'. Exec S (INSERT (registered n env b sa sn)) db = Ok db' \<and>
    handleConnection S env (init_line (ID n) (Port n) b sa sn) db =
      (db', ''INIT_ACK:'' @ ID n @ '':'' @ dir_host env @ [nl])"
proof -
  from assms(1) obtain db' where "Exec S (INSERT (registered n env b sa sn)) db = Ok db'" unfolding working_def by blast
  then show ?thesis
    using handle_init [OF assms(2-5), of S env b db] assms(3-5)
    by (simp add: handle_INIT_def Let_def AddNode_def registered_def dir_host_def Atoi_Itoa)
qed

lemma join_outcome:
  assumes "sqlite_laws S rows" and "working S" and "MarshalPKIX C (PublicKey n) = Some b"
    and "wire_name (ID n)" and "int64 (Port n)" "int64 sa" "int64 sn"
    and host: "dir_host env \<noteq> []" "printable (last (dir_host env))" "nl \<notin> set (dir_host env)"
  shows "JoinServerList C (dir_ask S env db) sa sn n = (n\<lparr>NodeIP := dir_host env\<rparr>, Ok ()) \<and>
    mset (rows (dir_after S env db (init_line (ID n) (Port n) b sa sn))) =
      add_mset (registered n env b sa sn) (mset (rows db))"
proof -
  from handle_init_row [OF assms(2,4-7)] obtain db' where
    db': "Exec S (INSERT (registered n env b sa sn)) db = Ok db'"
    and h: "handleConnection S env (init_line (ID n) (Port n) b sa sn) db =
      (db', ''INIT_ACK:'' @ ID n @ '':'' @ dir_host env @ [nl])" by blast
  let ?ack = "''INIT_ACK:'' @ ID n @ '':'' @ dir_host env"
  have ack: "nl \<notin> set ?ack" "printable (hd ?ack)" "printable (last ?ack)" "?ack \<noteq> []"
    using host assms(4) by (simp_all add: wire_name_def printable_def)
  then have "ReadString (?ack @ [nl]) = Ok (?ack @ [nl])" "TrimSpace (?ack @ [nl]) = ?ack"
    using ReadString_line [of ?ack "[]"] TrimSpace_line [of ?ack] by blast+
  moreover have "SplitN colon 3 ?ack = [''INIT_ACK'', ID n, dir_host env]"
    using assms(4) SplitN_append [of colon "''INIT_ACK''" "Suc 0" "ID n @ colon # dir_host env"]
    by (simp add: wire_name_def eval_nat_numeral)
  moreover have "HasPrefix ?ack ''INIT_ACK''" by (simp add: HasPrefix_def)
  ultimately have "JoinServerList C (dir_ask S env db) sa sn n = (n\<lparr>NodeIP := dir_host env\<rparr>, Ok ())"
    using assms(3) h by (simp add: JoinServerList_def dir_ask_def Let_def)
  moreover have "mset (rows db') = add_mset (registered n env b sa sn) (mset (rows db))"
    using sqlite_laws.exec_rows [OF assms(1) db'] by simp
  ultimately show ?thesis using h by (simp add: dir_after_def)
qed

text \<open>
  A node that registers with a working directory gets the address the directory saw it under, and
  the directory gains exactly one row, with the node's identifier, port, key and scores.
\<close>

theorem join_registers:
  assumes "sqlite_laws S rows" and "working S" and "MarshalPKIX C (PublicKey n) = Some b"
    and "wire_name (ID n)" and "int64 (Port n)" "int64 sa" "int64 sn"
    and host: "dir_host env \<noteq> []" "printable (last (dir_host env))" "nl \<notin> set (dir_host env)"
  shows "JoinServerList C (dir_ask S env db) sa sn n = (n\<lparr>NodeIP := dir_host env\<rparr>, Ok ()) \<and>
    mset (rows (dir_after S env db (init_line (ID n) (Port n) b sa sn))) =
      add_mset (registered n env b sa sn) (mset (rows db))"
  using assms by (rule join_outcome)


section \<open>Looking up a key\<close>

lemma find_key_some:
  assumes "i \<in> set rs" and "Ip i = ip" and "InfoPort i = port"
    and "\<forall>j \<in> set rs. Ip j = ip \<and> InfoPort j = port \<longrightarrow> InfoKey j = k"
  shows "find_key ip port rs = Some k"
  using assms by (induction rs) auto

lemma handle_get_key:
  assumes "sqlite_laws S rows" and "working S" and "length (rows db) \<le> MaxSampleNodes"
    and "wire_name ip" and "int64 port" and "i \<in> set (rows db)" "Ip i = ip" "InfoPort i = port"
    and "\<forall>j \<in> set (rows db). Ip j = ip \<and> InfoPort j = port \<longrightarrow> InfoKey j = k"
  shows "snd (handleConnection S env (''GET_KEY:'' @ (ip @ '':'' @ Itoa port) @ [nl]) db) = ''KEY:'' @ k @ [nl]"
proof -
  let ?s = "''GET_KEY:'' @ ip @ '':'' @ Itoa port"
  from assms(2) obtain nodes where sel: "SelectWeighted S MaxSampleNodes (Random env) db = Ok nodes"
    unfolding working_def by blast
  from sqlite_laws.select_all [OF assms(1) this assms(3)] have "set nodes = set (rows db)" by (metis set_mset_mset)
  with assms(6-9) have key: "find_key ip port nodes = Some k" by (intro find_key_some [of i]) auto
  have last: "printable (last ?s)" using Itoa_neq_Nil [of port] Itoa_printable by (simp add: last_in_set)
  have hd: "printable (hd ?s)" "?s \<noteq> []" by (simp_all add: printable_def)
  have "nl \<notin> set ?s" using assms(4) Itoa_printable by (auto simp: wire_name_def printable_def)
  then have "handleConnection S env (?s @ [nl]) db = handle_command S env (Split colon ?s) db"
    by (rule handleConnection_line [OF hd(2,1) last])
  moreover have "Split colon ?s = [''GET_KEY'', ip, Itoa port]"
    using assms(4) Split_append [of colon "''GET_KEY''" "ip @ colon # Itoa port"]
    by (simp add: wire_name_def Split_append Split_no_sep)
  ultimately show ?thesis
    using key sel assms(5) by (simp add: handle_command_def handle_GET_KEY_def GetNodesList_def Atoi_Itoa)
qed

lemma fetch_registered:
  assumes "crypto_laws C" and "sqlite_laws S rows" and "working S" and "length (rows db) \<le> MaxSampleNodes"
    and "MarshalPKIX C pk = Some b" "b \<noteq> []" and "i \<in> set (rows db)" "InfoKey i = EncodeToString b"
    and "wire_name (Ip i)" "int64 (InfoPort i)"
    and "\<forall>j \<in> set (rows db). Ip j = Ip i \<and> InfoPort j = InfoPort i \<longrightarrow> InfoKey j = InfoKey i"
  shows "FetchKeyFromServer C (dir_ask S env db) (Ip i @ '':'' @ Itoa (InfoPort i)) = Ok pk"
proof (rule FetchKey_reply [OF assms(1,5,6)])
  show "dir_ask S env db (''GET_KEY:'' @ (Ip i @ '':'' @ Itoa (InfoPort i)) @ [nl]) = Ok (''KEY:'' @ EncodeToString b @ [nl])"
    using handle_get_key [OF assms(2-4,9,10,7), of "EncodeToString b" env] assms(8,11) by (simp add: dir_ask_def)
qed

text \<open>
  A sender that asks the directory for the key of an address gets the public key the node there
  registered, when the table has at most 500 rows (the directory looks only in a sample of that size)
  and no row with the same address holds a different key.
\<close>

theorem fetch_finds_registered_key:
  assumes "crypto_laws C" and "sqlite_laws S rows" and "working S" and "length (rows db) \<le> MaxSampleNodes"
    and "MarshalPKIX C pk = Some b" "b \<noteq> []" and "i \<in> set (rows db)" "InfoKey i = EncodeToString b"
    and "wire_name (Ip i)" "int64 (InfoPort i)"
    and "\<forall>j \<in> set (rows db). Ip j = Ip i \<and> InfoPort j = InfoPort i \<longrightarrow> InfoKey j = InfoKey i"
  shows "FetchKeyFromServer C (dir_ask S env db) (Ip i @ '':'' @ Itoa (InfoPort i)) = Ok pk"
  using fetch_registered [OF assms] .


section \<open>Key rotation\<close>

lemma handle_update:
  assumes "wire_name ident" and "b \<noteq> []"
  shows "handleConnection S env (update_line ident b) db =
    (or_keep db (Exec S (UPDATE_publicKey (EncodeToString b) ident) db), [])"
proof -
  let ?s = "''UPDATE_KEY:'' @ ident @ '':'' @ EncodeToString b"
  have hd: "printable (hd ?s)" "?s \<noteq> []" by (simp_all add: printable_def)
  have last: "printable (last ?s)" using Encode_ends(2) [OF assms(2)] assms(2) by simp
  have "nl \<notin> set ?s" using assms(1) by (auto simp: wire_name_def)
  then have "handleConnection S env (?s @ [nl]) db = handle_command S env (Split colon ?s) db"
    by (rule handleConnection_line [OF hd(2,1) last])
  moreover have "Split colon ?s = [''UPDATE_KEY'', ident, EncodeToString b]"
    using assms(1) Split_append [of colon "''UPDATE_KEY''" "ident @ colon # EncodeToString b"]
    by (simp add: wire_name_def Split_append Split_no_sep)
  ultimately show ?thesis by (simp add: update_line_def handle_command_def UpdateNodeKey_def)
qed

text \<open>
  When a node rotates its keys and the directory answers, the node holds the new pair and every
  later query for its address yields the new public key, if the names of the table identify the rows
  at that address.
\<close>

theorem rotation_is_published:
  assumes "crypto_laws C" and "sqlite_laws S rows" and "working S" and "length (rows db) \<le> MaxSampleNodes"
    and "MarshalPKIX C (PublicOf C sk) = Some b" "b \<noteq> []" and "wire_name (ID n)"
    and "i \<in> set (rows db)" "Name i = ID n" "wire_name (Ip i)" "int64 (InfoPort i)"
    and "\<forall>j \<in> set (rows db). Ip j = Ip i \<and> InfoPort j = InfoPort i \<longrightarrow> Name j = ID n"
  shows "RegenerateKeys C (Some sk) (dir_ask S env db) n = (n\<lparr>PrivateKey := sk, PublicKey := PublicOf C sk\<rparr>, Ok ()) \<and>
    FetchKeyFromServer C (dir_ask S env' (dir_after S env db (update_line (ID n) b)))
      (Ip i @ '':'' @ Itoa (InfoPort i)) = Ok (PublicOf C sk)"
proof -
  let ?up = "\<lambda>j. if Name j = ID n then j\<lparr>InfoKey := EncodeToString b\<rparr> else j"
  let ?db = "dir_after S env db (update_line (ID n) b)"
  from assms(3) obtain db' where db': "Exec S (UPDATE_publicKey (EncodeToString b) (ID n)) db = Ok db'"
    unfolding working_def by blast
  then have after: "?db = db'" using handle_update [OF assms(7,6), of S env db] by (simp add: dir_after_def or_keep_def)
  have mset: "mset (rows ?db) = mset (map ?up (rows db))"
    using sqlite_laws.exec_rows [OF assms(2) db'] by (simp add: after)
  have rows: "set (rows ?db) = ?up ` set (rows db)" using mset_eq_setD [OF mset] by simp
  have len: "length (rows ?db) \<le> MaxSampleNodes" using mset_eq_length [OF mset] assms(4) by simp
  have "FetchKeyFromServer C (dir_ask S env' ?db) (Ip i @ '':'' @ Itoa (InfoPort i)) = Ok (PublicOf C sk)"
  proof (rule FetchKey_reply [OF assms(1,5,6)])
    show "dir_ask S env' ?db (''GET_KEY:'' @ (Ip i @ '':'' @ Itoa (InfoPort i)) @ [nl]) =
      Ok (''KEY:'' @ EncodeToString b @ [nl])"
      unfolding dir_ask_def
      by (rule arg_cong [of _ _ Ok], rule handle_get_key [OF assms(2,3) len assms(10,11), of "?up i"])
        (use rows assms(8,9,12) in \<open>auto split: if_splits\<close>)
  qed
  moreover have "RegenerateKeys C (Some sk) (dir_ask S env db) n = (n\<lparr>PrivateKey := sk, PublicKey := PublicOf C sk\<rparr>, Ok ())"
    using assms(5) by (simp add: RegenerateKeys_def dir_ask_def)
  ultimately show ?thesis by simp
qed

text \<open>
  C38: when the directory cannot be reached the rotation reports an error but has already replaced the
  keys, so that what senders encrypt to the key still published no longer opens at the node.
\<close>

theorem rotation_failure_loses_messages:
  assumes "crypto_sep C" and "MarshalPKIX C (PublicOf C sk) = Some b" and "tell (update_line (ID n) b) = Err e"
    and "PublicOf C sk \<noteq> PublicKey n" and "encryptForNode C p (PublicKey n) r = Ok (w, r')"
  shows "\<exists>n'. RegenerateKeys C (Some sk) tell n = (n', Err e) \<and>
    BroadcastDecrypt C w (PrivateKey n') = Err ErrNoMatchingKey"
  using assms crypto_sep.BroadcastDecrypt_BroadcastEncrypt [OF assms(1), of p "[PublicKey n]" r w r' sk]
  by (auto simp: RegenerateKeys_def encryptForNode_group_of_one)


section \<open>A concrete directory\<close>

definition demo_env :: dir_env where
  "demo_env = \<lparr>NewUuid = ''u1'', NODE_ADDR = [], RemoteHost = ''10.0.0.7'', Random = [1]\<rparr>"

definition demo_member :: "(nat, nat) Node" where
  "demo_member = NewNode ideal_crypto ''alice'' ''s:8080'' 3 9001"

definition demo_rows :: "NodeInfo list" where
  "demo_rows = [\<lparr>Uuid = ''u0'', Name = ''bob'', Ip = ''10.0.0.8'', InfoPort = 9000, InfoKey = EncodeToString ''kk'',
      AvailabilityScore = 60, NetworkScore = 85\<rparr>,
     \<lparr>Uuid = ''u1'', Name = ''alice'', Ip = ''10.0.0.7'', InfoPort = 9001, InfoKey = EncodeToString ''kkk'',
      AvailabilityScore = 100, NetworkScore = 100\<rparr>]"

lemmas demo_dir_defs = demo_env_def demo_member_def demo_rows_def NewNode_def wire_name_def dir_host_def

theorem join_registers_witness:
  "fst (JoinServerList ideal_crypto (dir_ask list_db demo_env []) 60 85 demo_member) = demo_member\<lparr>NodeIP := ''10.0.0.7''\<rparr>"
proof -
  have "JoinServerList ideal_crypto (dir_ask list_db demo_env []) 60 85 demo_member =
      (demo_member\<lparr>NodeIP := dir_host demo_env\<rparr>, Ok ()) \<and>
    mset (dir_after list_db demo_env [] (init_line (ID demo_member) (Port demo_member) ''kkk'' 60 85)) =
      add_mset (registered demo_member demo_env ''kkk'' 60 85) (mset [])"
    by (rule join_registers [OF list_db.sqlite_laws_axioms list_db_working])
      (simp_all add: demo_dir_defs ideal_crypto_def printable_def numeral_3_eq_3)
  then show ?thesis by (simp add: demo_env_def dir_host_def)
qed

theorem fetch_finds_registered_key_witness:
  "FetchKeyFromServer ideal_crypto (dir_ask list_db demo_env demo_rows) (''10.0.0.7'' @ '':'' @ Itoa 9001) = Ok 3"
  using fetch_finds_registered_key [OF ideal.crypto_laws_axioms list_db.sqlite_laws_axioms list_db_working,
      of demo_rows 3 "''kkk''" "demo_rows ! 1" demo_env]
  by (simp add: demo_dir_defs ideal_crypto_def numeral_3_eq_3)

theorem rotation_is_published_witness:
  "FetchKeyFromServer ideal_crypto (dir_ask list_db demo_env (dir_after list_db demo_env demo_rows (update_line ''alice'' ''k'')))
     (''10.0.0.7'' @ '':'' @ Itoa 9001) = Ok 1"
  using rotation_is_published [OF ideal.crypto_laws_axioms list_db.sqlite_laws_axioms list_db_working,
      of demo_rows 1 "''k''" demo_member "demo_rows ! 1" demo_env demo_env]
  by (simp add: demo_dir_defs ideal_crypto_def)

theorem rotation_failure_loses_messages_witness:
  "\<exists>w r' n'. encryptForNode ideal_crypto ''p'' 3 (replicate 76 (CHR ''r'')) = Ok (w, r') \<and>
     RegenerateKeys ideal_crypto (Some 5) (\<lambda>_. Err ErrNet) demo_member = (n', Err ErrNet) \<and>
     BroadcastDecrypt ideal_crypto w (PrivateKey n') = Err ErrNoMatchingKey"
proof -
  have pub: "PublicOf ideal_crypto k = k" for k by (simp add: ideal_crypto_def)
  have key: "PublicKey demo_member = 3" by (simp add: demo_member_def NewNode_def pub)
  have "\<exists>w. encryptForNode ideal_crypto ''p'' 3 (replicate 76 (CHR ''r'')) = Ok (w, drop 76 (replicate 76 (CHR ''r'')))"
    using ideal.BroadcastEncrypt_ok [of "[3]" "replicate 76 (CHR ''r'')" "''p''"] by (simp add: encryptForNode_group_of_one pub)
  then obtain w r' where "encryptForNode ideal_crypto ''p'' (PublicKey demo_member) (replicate 76 (CHR ''r'')) = Ok (w, r')"
    by (auto simp: key)
  moreover have "MarshalPKIX ideal_crypto (PublicOf ideal_crypto 5) = Some (replicate 5 (CHR ''k''))" by (simp add: ideal_crypto_def)
  ultimately show ?thesis
    using rotation_failure_loses_messages [OF ideal.crypto_sep_axioms, of 5 _ "\<lambda>_. Err ErrNet" demo_member ErrNet "''p''"]
    by (auto simp: key pub)
qed

end
