(* ===== verification/Cluster.thy ===== *)
theory Cluster
  imports Complex_Main Directory SuperOnion
begin

text \<open>
  \<open>node/cluster.go\<close>: building the clusters of a route from the candidate nodes.

  Scores are \<open>float64\<close> halves of integers in the source, exact far beyond the scores in use; they are
  rational numbers here. \<open>sort.Slice\<close> promises a sorted permutation and no more, so the sorter is a
  parameter with that contract, the locale \<open>score_sorter\<close>.
\<close>

section \<open>Scores and sorting\<close>

definition calculateNodeScore :: "NodeInfo \<Rightarrow> rat" where
  "calculateNodeScore n = of_int (AvailabilityScore n) * (1/2) + of_int (NetworkScore n) * (1/2)"

type_synonym sorter = "NodeInfo list \<Rightarrow> NodeInfo list"

locale score_sorter =
  fixes sortNodesByScore :: sorter
  assumes sort_mset: "mset (sortNodesByScore ns) = mset ns"
    and sort_sorted: "sorted_wrt (\<lambda>a b. calculateNodeScore b \<le> calculateNodeScore a) (sortNodesByScore ns)"

definition stable_sorter :: sorter where
  "stable_sorter ns = sort_key (\<lambda>n. - calculateNodeScore n) ns"

interpretation stable_sorter: score_sorter stable_sorter
proof
  fix ns
  have "sorted (map (\<lambda>n. - calculateNodeScore n) (stable_sorter ns))" by (simp add: stable_sorter_def)
  then show "sorted_wrt (\<lambda>a b. calculateNodeScore b \<le> calculateNodeScore a) (stable_sorter ns)"
    by (simp add: sorted_wrt_map)
qed (simp add: stable_sorter_def)


section \<open>Building clusters\<close>

definition node_addr :: "NodeInfo \<Rightarrow> addr" where
  "node_addr n = Ip n @ '':'' @ Itoa (InfoPort n)"

definition available :: "addr list \<Rightarrow> NodeInfo list \<Rightarrow> NodeInfo list" where
  "available blacklist nodes = filter (\<lambda>n. node_addr n \<notin> set blacklist) nodes"

text \<open>The weighted choice among the four best remaining nodes.\<close>

definition pick_offset :: "nat \<Rightarrow> draws \<Rightarrow> nat \<times> draws" where
  "pick_offset remaining ds =
     (if 2 \<le> remaining
      then let (r, ds') = Intn 100 ds
           in (if 70 \<le> r \<and> r < 85 then 1
               else if 85 \<le> r \<and> r < 95 \<and> 3 \<le> remaining then 2
               else if 95 \<le> r \<and> 4 \<le> remaining then 3 else 0, ds')
      else (0, ds))"

definition put :: "nat \<Rightarrow> NodeInfo \<Rightarrow> 'pk \<Rightarrow> 'pk LayerGroup list \<Rightarrow> 'pk LayerGroup list" where
  "put i n pk clusters =
     clusters[i := (clusters ! i)\<lparr>Addrs := Addrs (clusters ! i) @ [node_addr n], PubKeys := PubKeys (clusters ! i) @ [pk]\<rparr>]"

definition add_score :: "nat \<Rightarrow> NodeInfo \<Rightarrow> rat list \<Rightarrow> rat list" where
  "add_score i n scores = scores[i := scores ! i + calculateNodeScore n]"

text \<open>One node for each cluster; a node without a usable key is skipped and the cluster tried again.\<close>

function seed_loop ::
  "('pk, 'sk) crypto \<Rightarrow> nat \<Rightarrow> nat \<Rightarrow> NodeInfo list \<Rightarrow> nat \<Rightarrow> draws \<Rightarrow> 'pk LayerGroup list \<Rightarrow> rat list \<Rightarrow>
   NodeInfo list \<times> nat \<times> draws \<times> 'pk LayerGroup list \<times> rat list" where
  "seed_loop C numHops i sortedNodes nodeIdx ds clusters scores =
     (if i < numHops \<and> nodeIdx < length sortedNodes
      then let (off, ds') = pick_offset (length sortedNodes - nodeIdx) ds;
               sortedNodes' = (if 0 < off then swap nodeIdx (nodeIdx + off) sortedNodes else sortedNodes);
               n = sortedNodes' ! nodeIdx
           in case parsePublicKey C (InfoKey n) of
                None \<Rightarrow> seed_loop C numHops i sortedNodes' (nodeIdx + 1) ds' clusters scores
              | Some pk \<Rightarrow> seed_loop C numHops (i + 1) sortedNodes' (nodeIdx + 1) ds' (put i n pk clusters) (add_score i n scores)
      else (sortedNodes, nodeIdx, ds, clusters, scores))"
  by pat_completeness auto
termination
  by (relation "measure (\<lambda>(C, h, i, xs, k, _). length xs - k)") (auto split: if_splits)

declare seed_loop.simps [simp del]

text \<open>The first cluster of least score; \<open>None\<close> is the initial \<open>math.MaxFloat64\<close>.\<close>

fun least_loop :: "nat \<Rightarrow> rat list \<Rightarrow> rat option \<Rightarrow> nat \<Rightarrow> nat" where
  "least_loop i [] minScore targetIdx = targetIdx"
| "least_loop i (s # ss) minScore targetIdx =
     (if (case minScore of None \<Rightarrow> True | Some m \<Rightarrow> s < m) then least_loop (Suc i) ss (Some s) i
      else least_loop (Suc i) ss minScore targetIdx)"

fun fill_loop ::
  "('pk, 'sk) crypto \<Rightarrow> NodeInfo list \<Rightarrow> 'pk LayerGroup list \<Rightarrow> rat list \<Rightarrow> ('pk LayerGroup list \<times> rat list) res" where
  "fill_loop C [] clusters scores = Ok (clusters, scores)"
| "fill_loop C (n # ns) clusters scores =
     (case parsePublicKey C (InfoKey n) of
        None \<Rightarrow> fill_loop C ns clusters scores
      | Some pk \<Rightarrow>
          (let t = least_loop 0 scores None 0
           in if t < length clusters then fill_loop C ns (put t n pk clusters) (add_score t n scores) else Panic))"

text \<open>The shuffle swaps addresses and keys in lockstep, which is shuffling the pairs.\<close>

fun shuffle_groups :: "draws \<Rightarrow> 'pk LayerGroup list \<Rightarrow> 'pk LayerGroup list" where
  "shuffle_groups ds [] = []"
| "shuffle_groups ds (g # gs) =
     (if 1 < length (Addrs g)
      then let (ps, ds') = Shuffle ds (zip (Addrs g) (PubKeys g))
           in g\<lparr>Addrs := map fst ps, PubKeys := map snd ps\<rparr> # shuffle_groups ds' gs
      else g # shuffle_groups ds gs)"

definition BuildSmartClusters ::
  "('pk, 'sk) crypto \<Rightarrow> sorter \<Rightarrow> NodeInfo list \<Rightarrow> nat \<Rightarrow> addr list \<Rightarrow> draws \<Rightarrow> ('pk LayerGroup list \<times> rat) res" where
  "BuildSmartClusters C sortNodesByScore nodes numHops blacklist ds =
     (let (sortedNodes, nodeIdx, ds', clusters, scores) =
            seed_loop C numHops 0 (sortNodesByScore (available blacklist nodes)) 0 ds
              (replicate numHops \<lparr>Addrs = [], PubKeys = []\<rparr>) (replicate numHops 0)
      in bind_res (fill_loop C (drop nodeIdx sortedNodes) clusters scores) (\<lambda>(clusters', scores').
           Ok (shuffle_groups ds' clusters', sum_list scores' / of_nat numHops)))"


section \<open>Every usable node lands in one cluster\<close>

definition usable :: "('pk, 'sk) crypto \<Rightarrow> NodeInfo \<Rightarrow> (addr \<times> 'pk) list" where
  "usable C n = (case parsePublicKey C (InfoKey n) of None \<Rightarrow> [] | Some pk \<Rightarrow> [(node_addr n, pk)])"

definition usable_pairs :: "('pk, 'sk) crypto \<Rightarrow> NodeInfo list \<Rightarrow> (addr \<times> 'pk) multiset" where
  "usable_pairs C ns = mset (concat (map (usable C) ns))"

definition group_pairs :: "'pk LayerGroup list \<Rightarrow> (addr \<times> 'pk) multiset" where
  "group_pairs gs = mset (concat (map (\<lambda>g. zip (Addrs g) (PubKeys g)) gs))"

definition wf_groups :: "'pk LayerGroup list \<Rightarrow> bool" where
  "wf_groups gs \<longleftrightarrow> (\<forall>g \<in> set gs. length (Addrs g) = length (PubKeys g))"

lemma usable_pairs_cong: "mset ns = mset ns' \<Longrightarrow> usable_pairs C ns = usable_pairs C ns'"
  by (simp only: usable_pairs_def mset_concat_map)

lemma wf_groups_put: "wf_groups gs \<Longrightarrow> wf_groups (put i n pk gs)"
  by (cases "i < length gs")
    (auto simp: wf_groups_def put_def list_update_beyond dest!: set_update_subset_insert [THEN subsetD])

lemma group_pairs_put:
  assumes "wf_groups gs" and "i < length gs"
  shows "group_pairs (put i n pk gs) = add_mset (node_addr n, pk) (group_pairs gs)"
proof -
  have gs: "gs = take i gs @ gs ! i # drop (Suc i) gs" using assms(2) by (rule id_take_nth_drop)
  have len: "length (Addrs (gs ! i)) = length (PubKeys (gs ! i))" using assms by (simp add: wf_groups_def)
  have "put i n pk gs = take i gs @ (gs ! i)\<lparr>Addrs := Addrs (gs ! i) @ [node_addr n], PubKeys := PubKeys (gs ! i) @ [pk]\<rparr>
    # drop (Suc i) gs" using assms(2) by (simp add: put_def upd_conv_take_nth_drop)
  then show ?thesis using len by (subst (2) gs) (simp add: group_pairs_def)
qed

lemma pick_offset_less: "0 < remaining \<Longrightarrow> fst (pick_offset remaining ds) < remaining"
  by (auto simp: pick_offset_def split: prod.splits)

lemma drop_swap:
  assumes "k + off < length xs"
  shows "mset (drop k (swap k (k + off) xs)) = mset (drop k xs)"
proof -
  have "drop k (swap k (k + off) xs) = swap 0 off (drop k xs)"
    using assms by (simp add: swap_def drop_update_swap)
  then show ?thesis using assms by (simp add: mset_swap_in)
qed


text \<open>The invariant of the first loop: clusters below \<open>i\<close> have one node, the others none.\<close>

definition seeded :: "nat \<Rightarrow> nat \<Rightarrow> 'pk LayerGroup list \<Rightarrow> rat list \<Rightarrow> bool" where
  "seeded numHops i gs scores \<longleftrightarrow> i \<le> numHops \<and> length gs = numHops \<and> length scores = numHops \<and> wf_groups gs \<and>
     (\<forall>j < numHops. length (PubKeys (gs ! j)) = (if j < i then 1 else 0))"

lemma seeded_put:
  assumes "seeded numHops i gs scores" and "i < numHops"
  shows "seeded numHops (Suc i) (put i n pk gs) (add_score i n scores)"
proof -
  have "length (PubKeys (put i n pk gs ! j)) = (if j < Suc i then 1 else 0)" if "j < numHops" for j
    using assms that by (cases "j = i") (auto simp: seeded_def put_def)
  then show ?thesis
    using assms wf_groups_put [of gs i n pk] by (simp add: seeded_def add_score_def) (simp add: put_def)
qed

lemma sum_add_score: "i < length scores \<Longrightarrow> sum_list (add_score i n scores) = sum_list scores + calculateNodeScore n"
  unfolding add_score_def by (induction scores arbitrary: i) (auto split: nat.split)

text \<open>The scores of the nodes with a usable key.\<close>

definition usable_score :: "('pk, 'sk) crypto \<Rightarrow> NodeInfo list \<Rightarrow> rat" where
  "usable_score C ns = sum_list (map calculateNodeScore (filter (\<lambda>n. parsePublicKey C (InfoKey n) \<noteq> None) ns))"

lemma usable_score_cong: "mset ns = mset ns' \<Longrightarrow> usable_score C ns = usable_score C ns'"
proof -
  assume "mset ns = mset ns'"
  then have "mset (map calculateNodeScore (filter (\<lambda>n. parsePublicKey C (InfoKey n) \<noteq> None) ns)) =
    mset (map calculateNodeScore (filter (\<lambda>n. parsePublicKey C (InfoKey n) \<noteq> None) ns'))" by simp
  then show ?thesis unfolding usable_score_def by (metis sum_mset_sum_list)
qed

lemma seed_pick:
  fixes xs :: "NodeInfo list" and k off :: nat
  defines "ys \<equiv> (if 0 < off then swap k (k + off) xs else xs)"
  assumes "k + off < length xs"
  shows "usable_pairs C (drop k xs) = mset (usable C (ys ! k)) + usable_pairs C (drop (k + 1) (ys))"
    and "usable_score C (drop k xs) = usable_score C [ys ! k] + usable_score C (drop (k + 1) (ys))"
    and "length (ys) = length xs"
proof -
  have len: "length (ys) = length xs" by (simp add: ys_def)
  then show "length (ys) = length xs" .
  have ms: "mset (drop k (ys)) = mset (drop k xs)" using drop_swap [OF assms(2)] by (simp add: ys_def)
  have dr: "drop k (ys) = ys ! k # drop (k + 1) (ys)"
    using assms(2) len by (simp add: Cons_nth_drop_Suc)
  show "usable_pairs C (drop k xs) = mset (usable C (ys ! k)) + usable_pairs C (drop (k + 1) (ys))"
    unfolding usable_pairs_cong [OF ms [symmetric]] dr by (simp add: usable_pairs_def)
  show "usable_score C (drop k xs) = usable_score C [ys ! k] + usable_score C (drop (k + 1) (ys))"
    unfolding usable_score_cong [OF ms [symmetric]] dr by (simp add: usable_score_def)
qed

lemma seed_loop_inv:
  assumes "seed_loop C numHops i xs k ds gs scores = (xs', k', ds', gs', scores')"
    and "seeded numHops i gs scores" and "k \<le> length xs"
  shows "\<exists>i'. seeded numHops i' gs' scores' \<and> (i' = numHops \<or> drop k' xs' = []) \<and>
    group_pairs gs' + usable_pairs C (drop k' xs') = group_pairs gs + usable_pairs C (drop k xs) \<and>
    sum_list scores' + usable_score C (drop k' xs') = sum_list scores + usable_score C (drop k xs)"
  using assms
proof (induction C numHops i xs k ds gs scores rule: seed_loop.induct)
  case (1 C numHops i xs k ds gs scores)
  show ?case
  proof (cases "i < numHops \<and> k < length xs")
    case False
    with 1(3-5) show ?thesis
      by (intro exI [of _ i]) (auto simp: seed_loop.simps [of C numHops i xs] seeded_def)
  next
    case True
    obtain off ds1 where off: "pick_offset (length xs - k) ds = (off, ds1)" by fastforce
    with True pick_offset_less [of "length xs - k" ds] have less: "k + off < length xs" by simp
    let ?xs = "if 0 < off then swap k (k + off) xs else xs"
    note up = seed_pick(1) [OF less, of C] and us = seed_pick(2) [OF less, of C]
    have k: "k + 1 \<le> length ?xs" using True seed_pick(3) [OF less] by simp
    show ?thesis
    proof (cases "parsePublicKey C (InfoKey (?xs ! k))")
      case None
      then have run: "seed_loop C numHops i ?xs (k + 1) ds1 gs scores = (xs', k', ds', gs', scores')"
        using "1.prems"(1) True off
        by (simp add: seed_loop.simps [of C numHops i xs] Let_def split del: if_split)
      have IH: "\<exists>i'. seeded numHops i' gs' scores' \<and> (i' = numHops \<or> drop k' xs' = []) \<and>
        group_pairs gs' + usable_pairs C (drop k' xs') = group_pairs gs + usable_pairs C (drop (k + 1) ?xs) \<and>
        sum_list scores' + usable_score C (drop k' xs') = sum_list scores + usable_score C (drop (k + 1) ?xs)"
        by (rule "1.IH"(1) [OF True off [symmetric] refl refl refl None run "1.prems"(2) k])
      then show ?thesis using None up us by (simp add: usable_def usable_score_def split del: if_split)
    next
      case (Some pk)
      then have run: "seed_loop C numHops (i + 1) ?xs (k + 1) ds1 (put i (?xs ! k) pk gs) (add_score i (?xs ! k) scores)
        = (xs', k', ds', gs', scores')"
        using "1.prems"(1) True off
        by (simp add: seed_loop.simps [of C numHops i xs] Let_def split del: if_split)
      have seed: "seeded numHops (i + 1) (put i (?xs ! k) pk gs) (add_score i (?xs ! k) scores)"
        using seeded_put [OF "1.prems"(2), of "?xs ! k" pk] True by simp
      have add: "group_pairs (put i (?xs ! k) pk gs) = add_mset (node_addr (?xs ! k), pk) (group_pairs gs)"
        "sum_list (add_score i (?xs ! k) scores) = sum_list scores + calculateNodeScore (?xs ! k)"
        using group_pairs_put [of gs i] sum_add_score [of i scores] "1.prems"(2) True by (simp_all add: seeded_def)
      have IH: "\<exists>i'. seeded numHops i' gs' scores' \<and> (i' = numHops \<or> drop k' xs' = []) \<and>
        group_pairs gs' + usable_pairs C (drop k' xs') = group_pairs (put i (?xs ! k) pk gs) + usable_pairs C (drop (k + 1) ?xs) \<and>
        sum_list scores' + usable_score C (drop k' xs') = sum_list (add_score i (?xs ! k) scores) + usable_score C (drop (k + 1) ?xs)"
        by (rule "1.IH"(2) [OF True off [symmetric] refl refl refl Some run seed k])
      then show ?thesis using Some up us unfolding add
        by (simp add: usable_def usable_score_def add.assoc split del: if_split)
    qed
  qed
qed


lemma least_loop_bound: "least_loop i scores m t = t \<or> least_loop i scores m t < i + length scores"
proof (induction i scores m t rule: least_loop.induct)
  case (2 i s ss m t)
  then show ?case by (cases "case m of None \<Rightarrow> True | Some m \<Rightarrow> s < m") auto
qed simp

lemma least_loop_index: "scores \<noteq> [] \<Longrightarrow> least_loop 0 scores None 0 < length scores"
  using least_loop_bound [of 0 scores None 0] by auto

lemma fill_loop_inv:
  assumes "wf_groups gs" and "gs \<noteq> []" and "length scores = length gs"
  shows "\<exists>gs' scores'. fill_loop C ns gs scores = Ok (gs', scores') \<and> wf_groups gs' \<and> length gs' = length gs \<and>
    group_pairs gs' = group_pairs gs + usable_pairs C ns \<and>
    sum_list scores' = sum_list scores + usable_score C ns \<and>
    (\<forall>j < length gs. length (PubKeys (gs ! j)) \<le> length (PubKeys (gs' ! j)))"
  using assms
proof (induction ns arbitrary: gs scores)
  case Nil
  then show ?case by (simp add: usable_pairs_def usable_score_def)
next
  case (Cons n ns)
  show ?case
  proof (cases "parsePublicKey C (InfoKey n)")
    case None
    with Cons show ?thesis by (simp add: usable_pairs_def usable_score_def usable_def)
  next
    case (Some pk)
    define t where "t = least_loop 0 scores None 0"
    have "scores \<noteq> []" using Cons.prems(2,3) by auto
    then have t: "t < length gs" using least_loop_index [of scores] Cons.prems(3) by (simp add: t_def)
    have run: "fill_loop C (n # ns) gs scores = fill_loop C ns (put t n pk gs) (add_score t n scores)"
      using Some t by (simp add: Let_def t_def)
    have p: "wf_groups (put t n pk gs)" "length (put t n pk gs) = length gs" "length (add_score t n scores) = length gs"
      using wf_groups_put [OF Cons.prems(1)] Cons.prems(3) by (simp_all add: put_def add_score_def)
    then have "put t n pk gs \<noteq> []" using Cons.prems(2) by auto
    from Cons.IH [OF p(1) this, of "add_score t n scores"] p obtain gs' scores' where
      IH: "fill_loop C ns (put t n pk gs) (add_score t n scores) = Ok (gs', scores')" "wf_groups gs'" "length gs' = length gs"
        "group_pairs gs' = group_pairs (put t n pk gs) + usable_pairs C ns"
        "sum_list scores' = sum_list (add_score t n scores) + usable_score C ns"
        "\<forall>j < length gs. length (PubKeys (put t n pk gs ! j)) \<le> length (PubKeys (gs' ! j))" by auto
    have "length (PubKeys (gs ! j)) \<le> length (PubKeys (put t n pk gs ! j))" if "j < length gs" for j
      using that by (cases "j = t") (simp_all add: put_def)
    then have "\<forall>j < length gs. length (PubKeys (gs ! j)) \<le> length (PubKeys (gs' ! j))" using IH(6) le_trans by blast
    with IH run show ?thesis
      using group_pairs_put [OF Cons.prems(1) t] sum_add_score [of t scores n] t Cons.prems(3) Some
      by (simp add: usable_pairs_def usable_score_def usable_def)
  qed
qed

lemma shuffle_groups_pairs:
  "wf_groups gs \<Longrightarrow> wf_groups (shuffle_groups ds gs) \<and> group_pairs (shuffle_groups ds gs) = group_pairs gs \<and>
     map (\<lambda>g. length (PubKeys g)) (shuffle_groups ds gs) = map (\<lambda>g. length (PubKeys g)) gs"
proof (induction gs arbitrary: ds)
  case (Cons g gs)
  obtain ps ds' where ps: "Shuffle ds (zip (Addrs g) (PubKeys g)) = (ps, ds')" by fastforce
  have "mset ps = mset (zip (Addrs g) (PubKeys g))" using mset_Shuffle [of ds "zip (Addrs g) (PubKeys g)"] ps by simp
  moreover from this have "length ps = length (PubKeys g)" using Cons.prems by (auto dest: mset_eq_length simp: wf_groups_def)
  moreover have "wf_groups gs" using Cons.prems by (simp add: wf_groups_def)
  ultimately show ?case
    using Cons.IH ps Cons.prems by (auto simp: wf_groups_def group_pairs_def zip_map_fst_snd)
qed simp



section \<open>What the builder guarantees\<close>

lemma seeded_start: "seeded numHops 0 (replicate numHops \<lparr>Addrs = [], PubKeys = []\<rparr>) (replicate numHops 0)"
  by (auto simp: seeded_def wf_groups_def)

lemma size_group_pairs: "wf_groups gs \<Longrightarrow> size (group_pairs gs) = (\<Sum>g\<leftarrow>gs. length (PubKeys g))"
  by (induction gs) (auto simp: group_pairs_def wf_groups_def)

lemma group_pairs_start: "group_pairs (replicate numHops \<lparr>Addrs = [], PubKeys = []\<rparr>) = {#}"
  by (induction numHops) (auto simp: group_pairs_def)

lemma BuildSmartClusters_result:
  assumes "score_sorter sorter" and "0 < numHops" and ns: "ns = available blacklist nodes"
  shows "\<exists>gs. BuildSmartClusters C sorter nodes numHops blacklist ds = Ok (gs, usable_score C ns / of_nat numHops) \<and>
    length gs = numHops \<and> wf_groups gs \<and> group_pairs gs = usable_pairs C ns \<and>
    (numHops \<le> size (usable_pairs C ns) \<longrightarrow> (\<forall>g \<in> set gs. PubKeys g \<noteq> []))"
proof -
  let ?start = "replicate numHops \<lparr>Addrs = [], PubKeys = []\<rparr> :: 'a LayerGroup list"
  have ms: "mset (sorter ns) = mset ns" using score_sorter.sort_mset [OF assms(1)] .
  obtain xs k ds' gs1 sc1 where seed: "seed_loop C numHops 0 (sorter ns) 0 ds ?start (replicate numHops 0) = (xs, k, ds', gs1, sc1)"
    by (cases "seed_loop C numHops 0 (sorter ns) 0 ds ?start (replicate numHops 0)") auto
  from seed_loop_inv [OF seed seeded_start] obtain i where
    i: "seeded numHops i gs1 sc1" "i = numHops \<or> drop k xs = []"
    and pairs: "group_pairs gs1 + usable_pairs C (drop k xs) = usable_pairs C ns"
    and score: "sum_list sc1 + usable_score C (drop k xs) = usable_score C ns"
    using usable_pairs_cong [OF ms, of C] usable_score_cong [OF ms, of C] by (auto simp: group_pairs_start sum_list_replicate)
  have gs1: "wf_groups gs1" "gs1 \<noteq> []" "length sc1 = length gs1" "length gs1 = numHops"
    using i(1) assms(2) by (auto simp: seeded_def)
  from fill_loop_inv [OF gs1(1-3), of C "drop k xs"] obtain gs2 sc2 where
    fill: "fill_loop C (drop k xs) gs1 sc1 = Ok (gs2, sc2)" and gs2: "wf_groups gs2" "length gs2 = numHops"
      "group_pairs gs2 = usable_pairs C ns" "sum_list sc2 = usable_score C ns"
      "\<forall>j < numHops. length (PubKeys (gs1 ! j)) \<le> length (PubKeys (gs2 ! j))"
    using pairs score gs1(4) by auto
  let ?gs = "shuffle_groups ds' gs2"
  note sh = shuffle_groups_pairs [OF gs2(1), of ds']
  have len: "length ?gs = numHops" using sh gs2(2) by (metis length_map)
  have "\<forall>g \<in> set ?gs. PubKeys g \<noteq> []" if "numHops \<le> size (usable_pairs C ns)"
  proof -
    have "i = numHops"
    proof (rule ccontr)
      assume "i \<noteq> numHops"
      with i have "drop k xs = []" and less: "i < numHops" by (auto simp: seeded_def)
      with pairs have "size (group_pairs gs1) = size (usable_pairs C ns)" by (simp add: usable_pairs_def)
      moreover have "size (group_pairs gs1) = i"
      proof -
        have "(\<Sum>g\<leftarrow>gs1. length (PubKeys g)) = (\<Sum>j<numHops. length (PubKeys (gs1 ! j)))"
          using gs1(4) by (simp add: sum_list_sum_nth atLeast0LessThan)
        also have "\<dots> = (\<Sum>j<numHops. if j < i then 1 else 0)" using i(1) by (intro sum.cong) (auto simp: seeded_def)
        also have "\<dots> = i" using less by (simp add: sum.If_cases Int_absorb1 lessThan_def [symmetric] subset_eq flip: lessThan_def)
        finally show ?thesis using size_group_pairs [OF gs1(1)] by simp
      qed
      ultimately show False using that less by simp
    qed
    then have "\<forall>j < numHops. 0 < length (PubKeys (gs2 ! j))" using i(1) gs2(5) by (fastforce simp: seeded_def)
    then have "\<forall>j < numHops. 0 < length (PubKeys (?gs ! j))" using sh gs2(2) len by (metis nth_map)
    then show ?thesis using len by (auto simp: in_set_conv_nth)
  qed
  moreover have "BuildSmartClusters C sorter nodes numHops blacklist ds = Ok (?gs, usable_score C ns / of_nat numHops)"
    using seed fill gs2(4) by (simp add: BuildSmartClusters_def ns)
  ultimately show ?thesis using sh gs2(3) len by (intro exI [of _ ?gs]) auto
qed

text \<open>
  C26: for any sorter and any random choices, \<open>BuildSmartClusters\<close> returns as many clusters as asked, in
  which every candidate that is not blacklisted and has a parsable key occurs exactly once, with its
  own key beside its address, and nobody else occurs; the reliability it reports is the sum of those
  candidates' scores over the number of clusters.
\<close>

theorem clusters_partition_candidates:
  assumes "score_sorter sorter" and "0 < numHops"
  shows "\<exists>gs. BuildSmartClusters C sorter nodes numHops blacklist ds =
      Ok (gs, usable_score C (available blacklist nodes) / of_nat numHops) \<and>
    length gs = numHops \<and> wf_groups gs \<and> group_pairs gs = usable_pairs C (available blacklist nodes)"
  using BuildSmartClusters_result [OF assms refl, of C nodes blacklist ds] by blast

text \<open>
  Every cluster has a member exactly when there are at least as many usable candidates as clusters;
  otherwise some cluster is empty, and the encapsulation of the message fails.
\<close>

theorem clusters_nonempty_iff:
  assumes "score_sorter sorter" and "0 < numHops"
    and "BuildSmartClusters C sorter nodes numHops blacklist ds = Ok (gs, reliability)"
  shows "(\<forall>g \<in> set gs. PubKeys g \<noteq> []) \<longleftrightarrow> numHops \<le> size (usable_pairs C (available blacklist nodes))"
proof -
  from BuildSmartClusters_result [OF assms(1,2) refl, of C nodes blacklist ds] assms(3) have
    gs: "length gs = numHops" "wf_groups gs" "group_pairs gs = usable_pairs C (available blacklist nodes)"
      "numHops \<le> size (usable_pairs C (available blacklist nodes)) \<longrightarrow> (\<forall>g \<in> set gs. PubKeys g \<noteq> [])" by auto
  moreover have "length gs \<le> (\<Sum>g\<leftarrow>gs. length (PubKeys g))" if "\<forall>g \<in> set gs. PubKeys g \<noteq> []"
    using that
  proof (induction gs)
    case (Cons g gs)
    then have "0 < length (PubKeys g)" and "length gs \<le> (\<Sum>g\<leftarrow>gs. length (PubKeys g))" by auto
    then have "Suc (length gs) \<le> length (PubKeys g) + (\<Sum>g\<leftarrow>gs. length (PubKeys g))" by linarith
    then show ?case by simp
  qed simp
  ultimately show ?thesis using size_group_pairs [OF gs(2)] by auto
qed

definition demo_key :: "nat \<Rightarrow> string" where
  "demo_key k = EncodeToString (replicate k (CHR ''k''))"

lemma parse_demo_key: "parsePublicKey ideal_crypto (demo_key k) = Some k"
  unfolding demo_key_def by (rule parsePublicKey_marshal [OF ideal.crypto_laws_axioms]) (simp add: ideal_crypto_def)

lemma parse_bad_key: "parsePublicKey ideal_crypto ''?'' = None"
  by code_simp

definition demo_candidates :: "NodeInfo list" where
  "demo_candidates = [(demo_row ''n1'' 1 60)\<lparr>InfoKey := demo_key 1\<rparr>, (demo_row ''n2'' 2 80)\<lparr>InfoKey := ''?''\<rparr>,
     (demo_row ''n3'' 3 90)\<lparr>InfoKey := demo_key 3\<rparr>]"

lemma available_none [simp]: "available [] ns = ns"
  by (simp add: available_def)

lemma demo_usable:
  "usable_pairs ideal_crypto demo_candidates = {# (''10.0.0.1:'' @ Itoa 1, 1), (''10.0.0.1:'' @ Itoa 3, 3) #}"
  "usable_score ideal_crypto demo_candidates = 125"
  by (simp_all add: demo_candidates_def usable_score_def usable_pairs_def usable_def parse_demo_key parse_bad_key
      calculateNodeScore_def demo_row_def node_addr_def)

theorem clusters_partition_candidates_witness:
  "\<exists>gs. BuildSmartClusters ideal_crypto stable_sorter demo_candidates 2 [] [75, 3] = Ok (gs, 125 / 2) \<and>
     group_pairs gs = {# (''10.0.0.1:'' @ Itoa 1, 1), (''10.0.0.1:'' @ Itoa 3, 3) #}"
  using clusters_partition_candidates [OF stable_sorter.score_sorter_axioms, of 2 ideal_crypto demo_candidates "[]" "[75, 3]"]
  by (auto simp: demo_usable)

theorem clusters_nonempty_iff_witness:
  "\<exists>gs rel. BuildSmartClusters ideal_crypto stable_sorter demo_candidates 3 [] [] = Ok (gs, rel) \<and>
     (\<exists>g \<in> set gs. PubKeys g = [])"
proof -
  obtain gs rel where b: "BuildSmartClusters ideal_crypto stable_sorter demo_candidates 3 [] [] = Ok (gs, rel)"
    using BuildSmartClusters_result [OF stable_sorter.score_sorter_axioms _ refl, of 3 ideal_crypto demo_candidates "[]" "[]"]
    by auto
  with clusters_nonempty_iff [OF stable_sorter.score_sorter_axioms _ b] have "\<not> (\<forall>g \<in> set gs. PubKeys g \<noteq> [])"
    by (simp add: demo_usable)
  with b show ?thesis by blast
qed

end
