(* ===== verification/Send.thy ===== *)
theory Send
  imports EndToEnd Client Cluster
begin

text \<open>
  \<open>SendWithRetry\<close> of \<open>node/send.go\<close>: choosing relays from the directory's list, building and sending
  the onion, waiting for the acknowledgement, and trying again after a failed send or a NACK.

  Each try reads its surroundings from a record: the directory, the clocks, the random sources, the
  channel \<open>make\<close> returns, which addresses accept a connection, and what the node's other goroutines
  do to the shared state between the send and the moment the waiting goroutine resumes. That
  goroutine finds a value in the channel, or has run into the eight-second timeout. Telemetry,
  logging and the elapsed time in the printed result are left out.
\<close>

section \<open>Choosing a route\<close>

definition node_address :: "('pk, 'sk) Node \<Rightarrow> addr" where
  "node_address n = NodeIP n @ '':'' @ Itoa (Port n)"

text \<open>One entry of the list: none or one candidate.\<close>

definition send_candidate :: "addr \<Rightarrow> addr \<Rightarrow> string \<Rightarrow> addr list" where
  "send_candidate nodeAddr destAddr entry =
     (let fields = SplitN pipe 4 entry in
      if length fields < 4 then []
      else let addr = fields ! 1 @ '':'' @ fields ! 2
           in if addr \<noteq> nodeAddr \<and> addr \<noteq> destAddr then [addr] else [])"

definition send_candidates :: "addr \<Rightarrow> addr \<Rightarrow> string \<Rightarrow> addr list" where
  "send_candidates nodeAddr destAddr listStr =
     concat (map (send_candidate nodeAddr destAddr) (Split comma (TrimPrefix listStr ''LIST:'')))"

text \<open>
  The relays and the clamped number of relays; \<open>None\<close> when there are not enough nodes. The slice
  \<open>candidates[:numRelays]\<close> panics for a negative number.
\<close>

definition pick_relays :: "int \<Rightarrow> draws \<Rightarrow> addr list \<Rightarrow> (addr list \<times> int) option res" where
  "pick_relays numRelays ds candidates =
     (let numRelays' = (if numRelays > int (length candidates) then int (length candidates) else numRelays) in
      if numRelays' = 0 then Ok None
      else let candidates' = fst (Shuffle ds candidates)
           in if numRelays' < 0 then Panic else Ok (Some (take (nat numRelays') candidates', numRelays')))"


section \<open>One try\<close>

record ('pk, 'sk) try_env =
  ListAsk :: directory
  KeyAsk :: "nat \<Rightarrow> directory"
  Clock :: "nat \<Rightarrow> time \<times> time"
  Picks :: draws
  Bytes :: rng
  NewChan :: nat
  Dial :: "addr \<Rightarrow> bool"
  Meanwhile :: "addr \<times> string \<Rightarrow> ('pk, 'sk) Node \<times> 'pk KeyCache \<Rightarrow> ('pk, 'sk) Node \<times> 'pk KeyCache"

text \<open>Registering a new channel of capacity one under the two identifiers, and dropping them.\<close>

definition register_ack :: "nat \<Rightarrow> string \<Rightarrow> string \<Rightarrow> ('pk, 'sk) Node \<Rightarrow> ('pk, 'sk) Node" where
  "register_ack ch msgID firstNackID n =
     n\<lparr>PendingACKs := (PendingACKs n)(msgID \<mapsto> ch, firstNackID \<mapsto> ch), Chans := (Chans n)(ch := [])\<rparr>"

definition forget_ack :: "string \<Rightarrow> string \<Rightarrow> ('pk, 'sk) Node \<Rightarrow> ('pk, 'sk) Node" where
  "forget_ack msgID firstNackID n = n\<lparr>PendingACKs := (PendingACKs n)(msgID := None, firstNackID := None)\<rparr>"

text \<open>
  How a try ends: it returns without trying again, it could not hand the onion to the first hop, or
  the onion is on its way. The latter two keep the clamped number of relays for the next try.
\<close>

datatype attempt =
    Stopped
  | Unsent int
  | Sent int string string

text \<open>Sending the built onion.\<close>

definition launch ::
  "('pk, 'sk) try_env \<Rightarrow> int \<Rightarrow> addr \<Rightarrow> string \<times> string \<times> string \<Rightarrow> ('pk, 'sk) Node \<Rightarrow>
   ('pk, 'sk) Node \<times> sends \<times> attempt" where
  "launch e k firstHop built n =
     (case built of (onion, msgID, firstNackID) \<Rightarrow>
        let n' = register_ack (NewChan e) msgID firstNackID n;
            (sent, out) = SendTo (\<lambda>_. Dial e) firstHop onion []
        in if sent then (n', out, Sent k msgID firstNackID)
           else (forget_ack msgID firstNackID n', out, Unsent k))"

definition send_attempt ::
  "('pk, 'sk) crypto \<Rightarrow> ('pk, 'sk) try_env \<Rightarrow> addr \<Rightarrow> string \<Rightarrow> string \<Rightarrow> int \<Rightarrow> ('pk, 'sk) Node \<Rightarrow> 'pk KeyCache \<Rightarrow>
   (('pk, 'sk) Node \<times> 'pk KeyCache \<times> sends \<times> attempt) res" where
  "send_attempt C e destAddr message frag numRelays n publicKeys =
     (case Node_GetNodesList (ListAsk e) of
        Err _ \<Rightarrow> Ok (n, publicKeys, [], Stopped)
      | Panic \<Rightarrow> Panic
      | Blocked \<Rightarrow> Blocked
      | Ok listStr \<Rightarrow>
          if listStr = ''LIST:empty'' then Ok (n, publicKeys, [], Stopped)
          else bind_res (pick_relays numRelays (Picks e) (send_candidates (node_address n) destAddr listStr)) (\<lambda>picked.
            case picked of
              None \<Rightarrow> Ok (n, publicKeys, [], Stopped)
            | Some (relays, k) \<Rightarrow>
                (let route = relays @ [destAddr]; returnRoute = rev relays @ [node_address n];
                     (publicKeys', built) = Encapsulator_func C (KeyAsk e) (Clock e) message frag route returnRoute
                                              publicKeys (node_address n) (Bytes e)
                 in case built of
                      Err _ \<Rightarrow> Ok (n, publicKeys', [], Stopped)
                    | Panic \<Rightarrow> Panic
                    | Blocked \<Rightarrow> Blocked
                    | Ok (built, _) \<Rightarrow>
                        (let (n', out, a) = launch e k (route ! 0) built n in Ok (n', publicKeys', out, a)))))"


section \<open>Trying again\<close>

text \<open>What is printed at the end: \<open>RESULT|..|ABANDON\<close>, \<open>ACK\<close> or \<open>TIMEOUT\<close> with a count, or nothing.\<close>

datatype report = ABANDON int | ACK int | TIMEOUT int | NoReport

text \<open>
  The waiting goroutine resumes: what it reads from the channel. A timeout and a NACK drop both
  identifiers; an acknowledgement drops neither.
\<close>

definition await_ack :: "nat \<Rightarrow> string \<Rightarrow> string \<Rightarrow> ('pk, 'sk) Node \<Rightarrow> ('pk, 'sk) Node \<times> bool option" where
  "await_ack ch msgID firstNackID n =
     (case Chans n ch of
        [] \<Rightarrow> (forget_ack msgID firstNackID n, None)
      | v # vs \<Rightarrow>
          (let n' = n\<lparr>Chans := (Chans n)(ch := vs)\<rparr>
           in (if v then n' else forget_ack msgID firstNackID n', Some v)))"

function SendWithRetry ::
  "('pk, 'sk) crypto \<Rightarrow> (int \<Rightarrow> ('pk, 'sk) try_env) \<Rightarrow> addr \<Rightarrow> string \<Rightarrow> string \<Rightarrow> int \<Rightarrow> int \<Rightarrow> int \<Rightarrow>
   ('pk, 'sk) Node \<Rightarrow> 'pk KeyCache \<Rightarrow> (('pk, 'sk) Node \<times> 'pk KeyCache \<times> sends \<times> report) res" where
  "SendWithRetry C E destAddr message frag numRelays maxRetries currentTry n publicKeys =
     (if maxRetries \<le> currentTry then Ok (n, publicKeys, [], ABANDON maxRetries)
      else bind_res (send_attempt C (E currentTry) destAddr message frag numRelays n publicKeys)
        (\<lambda>(n1, keys1, out, a).
          let again = (\<lambda>k n' keys'.
                bind_res (SendWithRetry C E destAddr message frag k maxRetries (currentTry + 1) n' keys')
                  (\<lambda>(n'', keys'', out', rep). Ok (n'', keys'', out @ out', rep)))
          in case a of
               Stopped \<Rightarrow> Ok (n1, keys1, out, NoReport)
             | Unsent k \<Rightarrow> again k n1 keys1
             | Sent k msgID firstNackID \<Rightarrow>
                 (let (n2, keys2) = Meanwhile (E currentTry) (fst (hd out), fst (snd (hd out))) (n1, keys1);
                      (n3, got) = await_ack (NewChan (E currentTry)) msgID firstNackID n2
                  in case got of
                       None \<Rightarrow> Ok (n3, keys2, out, TIMEOUT currentTry)
                     | Some True \<Rightarrow> Ok (n3, keys2, out, ACK currentTry)
                     | Some False \<Rightarrow> again k n3 keys2)))"
  by pat_completeness auto
termination
  by (relation "measure (\<lambda>(C, E, d, m, f, k, mx, t, n, c). nat (mx - t))") auto

declare SendWithRetry.simps [simp del]


section \<open>How a try ends\<close>

lemma launch_cases:
  assumes "launch e k first built n = (n1, out, a)"
  obtains (unsent) onion msgID nackID where "built = (onion, msgID, nackID)" "a = Unsent k" "\<not> Dial e first"
      "out = [(first, onion, False)]" "n1 = forget_ack msgID nackID (register_ack (NewChan e) msgID nackID n)"
  | (sent) onion msgID nackID where "built = (onion, msgID, nackID)" "a = Sent k msgID nackID" "Dial e first"
      "out = [(first, onion, True)]" "n1 = register_ack (NewChan e) msgID nackID n"
  using assms by (cases built) (auto simp: launch_def SendTo_def Let_def split: if_splits)

lemma send_attempt_cases:
  assumes "send_attempt C e destAddr message frag numRelays n keys = Ok (n1, keys1, out, a)"
  obtains (stopped) "a = Stopped" "n1 = n" "out = []"
  | (unsent) k first onion msgID nackID where "a = Unsent k" "out = [(first, onion, False)]"
      "n1 = forget_ack msgID nackID (register_ack (NewChan e) msgID nackID n)"
  | (sent) k first onion msgID nackID where "a = Sent k msgID nackID" "out = [(first, onion, True)]"
      "n1 = register_ack (NewChan e) msgID nackID n"
proof -
  have "(a = Stopped \<and> n1 = n \<and> out = []) \<or> (\<exists>k first built. launch e k first built n = (n1, out, a))"
  proof (cases "Node_GetNodesList (ListAsk e)")
    case (Ok listStr)
    let ?picked = "pick_relays numRelays (Picks e) (send_candidates (node_address n) destAddr listStr)"
    show ?thesis
    proof (cases "listStr = ''LIST:empty''")
      case True
      with assms Ok show ?thesis by (simp add: send_attempt_def)
    next
      case False
      with assms Ok consider "?picked = Ok None" "a = Stopped" "n1 = n" "out = []"
        | relays k where "?picked = Ok (Some (relays, k))"
        by (cases ?picked; cases "case ?picked of Ok p \<Rightarrow> p") (auto simp: send_attempt_def)
      then show ?thesis
      proof cases
        case 2
        obtain keys' built where "Encapsulator_func C (KeyAsk e) (Clock e) message frag (relays @ [destAddr])
          (rev relays @ [node_address n]) keys (node_address n) (Bytes e) = (keys', built)" by fastforce
        with assms Ok False 2 show ?thesis
          by (cases built) (auto simp: send_attempt_def Let_def split: prod.splits)
      qed blast
    qed
  qed (use assms in \<open>simp_all add: send_attempt_def\<close>)
  then consider "a = Stopped" "n1 = n" "out = []"
    | k first built where "launch e k first built n = (n1, out, a)" by blast
  then show thesis
  proof cases
    case 2
    then show thesis by (cases rule: launch_cases) (use unsent sent in blast)+
  qed (use stopped in blast)
qed

lemma await_ack_cases:
  assumes "await_ack ch msgID nackID n = (n', got)"
  obtains (timeout) "got = None" "n' = forget_ack msgID nackID n"
  | (nack) vs where "got = Some False" "n' = forget_ack msgID nackID (n\<lparr>Chans := (Chans n)(ch := vs)\<rparr>)"
  | (ack) vs where "got = Some True" "n' = n\<lparr>Chans := (Chans n)(ch := vs)\<rparr>"
  using assms by (cases "Chans n ch") (auto simp: await_ack_def Let_def split: if_splits)

lemma SendWithRetry_step:
  assumes "t < maxRetries"
  shows "SendWithRetry C E destAddr message frag k maxRetries t n keys =
    bind_res (send_attempt C (E t) destAddr message frag k n keys) (\<lambda>(n1, keys1, out, a).
      let again = (\<lambda>k n' keys'.
            bind_res (SendWithRetry C E destAddr message frag k maxRetries (t + 1) n' keys')
              (\<lambda>(n'', keys'', out', rep). Ok (n'', keys'', out @ out', rep)))
      in case a of
           Stopped \<Rightarrow> Ok (n1, keys1, out, NoReport)
         | Unsent k \<Rightarrow> again k n1 keys1
         | Sent k msgID firstNackID \<Rightarrow>
             (let (n2, keys2) = Meanwhile (E t) (fst (hd out), fst (snd (hd out))) (n1, keys1);
                  (n3, got) = await_ack (NewChan (E t)) msgID firstNackID n2
              in case got of
                   None \<Rightarrow> Ok (n3, keys2, out, TIMEOUT t)
                 | Some True \<Rightarrow> Ok (n3, keys2, out, ACK t)
                 | Some False \<Rightarrow> again k n3 keys2))"
  using assms by (subst SendWithRetry.simps) simp

text \<open>
  One step of the recursion, as the cases a proof by induction needs: done without a try, stopped,
  a result of the wait, or another try.
\<close>

lemma SendWithRetry_cases:
  assumes "SendWithRetry C E destAddr message frag k maxRetries t n keys = Ok (n', keys', out, rep)"
  obtains (abandon) "maxRetries \<le> t" "n' = n" "out = []" "rep = ABANDON maxRetries"
  | (stopped) "t < maxRetries" "n' = n" "out = []" "rep = NoReport"
  | (unsent) k' keys1 n1 first onion msgID nackID out' where "t < maxRetries"
      "n1 = forget_ack msgID nackID (register_ack (NewChan (E t)) msgID nackID n)"
      "SendWithRetry C E destAddr message frag k' maxRetries (t + 1) n1 keys1 = Ok (n', keys', out', rep)"
      "out = (first, onion, False) # out'"
  | (timeout) keys1 n2 first onion msgID nackID where "t < maxRetries"
      "(n2, keys') = Meanwhile (E t) (first, onion) (register_ack (NewChan (E t)) msgID nackID n, keys1)"
      "n' = forget_ack msgID nackID n2" "out = [(first, onion, True)]" "rep = TIMEOUT t"
  | (ack) keys1 n2 vs first onion msgID nackID where "t < maxRetries"
      "(n2, keys') = Meanwhile (E t) (first, onion) (register_ack (NewChan (E t)) msgID nackID n, keys1)"
      "n' = n2\<lparr>Chans := (Chans n2)(NewChan (E t) := vs)\<rparr>" "out = [(first, onion, True)]" "rep = ACK t"
  | (nack) k' keys1 keys2 n2 vs first onion msgID nackID out' where "t < maxRetries"
      "(n2, keys2) = Meanwhile (E t) (first, onion) (register_ack (NewChan (E t)) msgID nackID n, keys1)"
      "SendWithRetry C E destAddr message frag k' maxRetries (t + 1)
         (forget_ack msgID nackID (n2\<lparr>Chans := (Chans n2)(NewChan (E t) := vs)\<rparr>)) keys2 = Ok (n', keys', out', rep)"
      "out = (first, onion, True) # out'"
proof (cases "maxRetries \<le> t")
  case True
  with assms abandon show thesis by (simp add: SendWithRetry.simps [of C E])
next
  case False
  then have t: "t < maxRetries" by simp
  with assms obtain n1 keys1 out1 a where att: "send_attempt C (E t) destAddr message frag k n keys = Ok (n1, keys1, out1, a)"
    by (auto simp: SendWithRetry.simps [of C E] bind_res_eq_Ok)
  from att show thesis
  proof (cases rule: send_attempt_cases)
    case stopped
    with assms att t that(2) show thesis by (simp add: SendWithRetry.simps [of C E])
  next
    case (unsent k' first onion msgID nackID)
    with assms att t that(3) [OF t unsent(3)] show thesis
      by (auto simp: SendWithRetry.simps [of C E] bind_res_eq_Ok)
  next
    case (sent k' first onion msgID nackID)
    obtain n2 keys2 where mw: "Meanwhile (E t) (first, onion) (n1, keys1) = (n2, keys2)" by fastforce
    obtain n3 got where got: "await_ack (NewChan (E t)) msgID nackID n2 = (n3, got)" by fastforce
    note run = assms [unfolded SendWithRetry_step [OF t]] att sent t mw got
    from got show thesis
    proof (cases rule: await_ack_cases)
      case timeout
      with run that(4) [OF t, of n2 first onion msgID nackID keys1] show thesis by simp
    next
      case (nack vs)
      with run that(6) [OF t, of n2 keys2 first onion msgID nackID keys1 k' vs] show thesis
        by (auto simp: bind_res_eq_Ok)
    next
      case (ack vs)
      with run that(5) [OF t, of n2 first onion msgID nackID keys1 vs] show thesis by simp
    qed
  qed
qed


section \<open>Bounded work\<close>

lemma SEND_log:
  assumes "SendWithRetry C E destAddr message frag k maxRetries t n keys = Ok (n', keys', out, rep)"
  shows "case rep of
      ABANDON m \<Rightarrow> m = maxRetries \<and> length out = nat (maxRetries - t)
    | ACK u \<Rightarrow> t \<le> u \<and> u < maxRetries \<and> length out = nat (u - t) + 1 \<and> snd (snd (last out))
    | TIMEOUT u \<Rightarrow> t \<le> u \<and> u < maxRetries \<and> length out = nat (u - t) + 1 \<and> snd (snd (last out))
    | NoReport \<Rightarrow> length out < nat (maxRetries - t)"
  using assms
proof (induction "nat (maxRetries - t)" arbitrary: k t n keys out rule: less_induct)
  case less
  have more: "case rep of
      ABANDON m \<Rightarrow> m = maxRetries \<and> length (x # out') = nat (maxRetries - t)
    | ACK u \<Rightarrow> t \<le> u \<and> u < maxRetries \<and> length (x # out') = nat (u - t) + 1 \<and> snd (snd (last (x # out')))
    | TIMEOUT u \<Rightarrow> t \<le> u \<and> u < maxRetries \<and> length (x # out') = nat (u - t) + 1 \<and> snd (snd (last (x # out')))
    | NoReport \<Rightarrow> length (x # out') < nat (maxRetries - t)"
    if "t < maxRetries" and "SendWithRetry C E destAddr message frag k' maxRetries (t + 1) m keys1 = Ok (n', keys', out', rep)"
    for x out' k' m keys1
    using less.hyps [OF _ that(2)] that(1) by (auto split: report.splits)
  from less.prems show ?case by (cases rule: SendWithRetry_cases) (auto dest: more)
qed


section \<open>What stays registered\<close>

text \<open>The other goroutines leave the identifier \<open>i\<close> alone or consume it.\<close>

definition spares :: "(int \<Rightarrow> ('pk, 'sk) try_env) \<Rightarrow> string \<Rightarrow> bool" where
  "spares E i \<longleftrightarrow> (\<forall>u line n keys.
     PendingACKs (fst (Meanwhile (E u) line (n, keys))) i \<in> {None, PendingACKs n i})"

lemma sparesD:
  "spares E i \<Longrightarrow> (n', keys') = Meanwhile (E u) line (n, keys) \<Longrightarrow> PendingACKs n' i \<in> {None, PendingACKs n i}"
  unfolding spares_def by (metis fst_conv)

lemma register_forget [simp]:
  "PendingACKs (register_ack ch msgID nackID n) i = (if i = nackID \<or> i = msgID then Some ch else PendingACKs n i)"
  "PendingACKs (forget_ack msgID nackID n) i = (if i = nackID \<or> i = msgID then None else PendingACKs n i)"
  by (auto simp: register_ack_def forget_ack_def)

lemma SEND_registered:
  assumes "SendWithRetry C E destAddr message frag k maxRetries t n keys = Ok (n', keys', out, rep)"
    and "spares E i" and "PendingACKs n i = None"
  shows "PendingACKs n' i = None \<or> (\<exists>u. rep = ACK u \<and> PendingACKs n' i = Some (NewChan (E u)))"
  using assms(1,3)
proof (induction "nat (maxRetries - t)" arbitrary: k t n keys out rule: less_induct)
  case less
  from less.prems(1) show ?case
  proof (cases rule: SendWithRetry_cases)
    case (unsent k' keys1 n1 first onion msgID nackID out')
    with less.prems(2) show ?thesis by (intro less.hyps [OF _ unsent(3)]) auto
  next
    case (timeout keys1 n2 first onion msgID nackID)
    with sparesD [OF assms(2) timeout(2)] less.prems(2) show ?thesis by auto
  next
    case (ack keys1 n2 vs first onion msgID nackID)
    with sparesD [OF assms(2) ack(2)] less.prems(2) show ?thesis by (auto split: if_splits)
  next
    case (nack k' keys1 keys2 n2 vs first onion msgID nackID out')
    with sparesD [OF assms(2) nack(2)] less.prems(2) show ?thesis
      by (intro less.hyps [OF _ nack(3)]) auto
  qed (use less.prems(2) in auto)
qed


section \<open>No panic in the builder\<close>

text \<open>Once every key of the route is in the cache, nothing in the builder is out of range or nil.\<close>

lemma encryptForNode_calm: "encryptForNode C p pk r \<noteq> Panic"
  by (auto simp: encryptForNode_def EncryptAES_def rsa_encrypt_def bind_res_eq_Panic split: if_splits)

lemma wrap_loop_calm:
  assumes "\<And>g p r. g \<in> snd ` set hops \<Longrightarrow> seal g p r \<noteq> Panic" and "i < length hops" and "i < length nacks"
  shows "wrap_loop seal hops sender nacks i payload r \<noteq> Panic"
  using assms(2,3)
proof (induction i arbitrary: payload r)
  case (Suc i)
  have "wrap_loop seal hops sender nacks i payload r \<noteq> Panic" for payload r using Suc by simp
  with Suc.prems assms(1) show ?case by (auto simp: bind_res_eq_Panic)
qed simp

lemma wrap_calm:
  assumes "\<And>g p r. g \<in> snd ` set hops \<Longrightarrow> seal g p r \<noteq> Panic" and "hops \<noteq> []" and "length hops \<le> length nacks"
  shows "wrap seal inner hops sender nacks r \<noteq> Panic"
proof -
  have i: "length hops - 1 < length hops" "length hops - 1 < length nacks" using assms(2,3) by (cases hops; simp)+
  from wrap_loop_calm [OF assms(1) i] i(1) assms(1) show ?thesis
    by (auto simp: wrap_def bind_res_eq_Panic)
qed

definition calm :: "directory \<Rightarrow> bool" where
  "calm ask \<longleftrightarrow> (\<forall>line. ask line \<noteq> Panic)"

lemma FetchKey_calm: "calm ask \<Longrightarrow> FetchKeyFromServer C ask a \<noteq> Panic"
  by (auto simp: calm_def FetchKeyFromServer_def bind_res_eq_Panic ReadString_def Let_def
      split: if_splits parsed_key.splits)

lemma fetch_keys_calm: "\<forall>i. calm (ask i) \<Longrightarrow> snd (fetch_keys C ask clock k as cache) \<noteq> Panic"
proof (induction C ask clock k as cache rule: fetch_keys.induct)
  case (2 C ask clock i port ports publicKeys)
  with FetchKey_calm [of "ask i" C port] show ?case by (auto split: res.split)
qed simp

text \<open>A random source good for a message identifier and \<open>k + 1\<close> NACK identifiers.\<close>

definition good_rng :: "nat \<Rightarrow> rng \<Rightarrow> bool" where
  "good_rng k r \<longleftrightarrow> (\<exists>msgID r1. GenerateMsgID [] r = Ok (msgID, r1) \<and> (\<forall>j \<le> Suc k. nack_ids j r1 \<noteq> Panic))"

lemma Encapsulator_calm:
  assumes "\<forall>i. calm (ask i)" and "good_rng k r" and "route \<noteq> []" and "length route \<le> Suc k"
    and "length returnRoute \<le> length route"
  shows "snd (Encapsulator_func C ask clock message frag route returnRoute cache sender r) \<noteq> Panic"
proof -
  obtain cache' out where f: "fetch_keys C ask clock 0 (route @ returnRoute) cache = (cache', out)" by fastforce
  then have out: "out \<noteq> Panic" using fetch_keys_calm [OF assms(1)] by (metis snd_conv)
  from assms(2) obtain msgID r1 where ids: "GenerateMsgID [] r = Ok (msgID, r1)" "nack_ids (length route) r1 \<noteq> Panic"
    using assms(4) by (auto simp: good_rng_def)
  have enc: "encryptOnionLayers C inner as cache' s nacks r' \<noteq> Panic"
    if "out = Ok ()" "set as \<subseteq> set (route @ returnRoute)" "as \<noteq> []" "length as \<le> length nacks" for inner as s nacks r'
  proof -
    have "\<exists>pk. cached_key cache' a = Some pk" if "a \<in> set as" for a
      using fetch_keys_spec [OF f] \<open>out = Ok ()\<close> \<open>set as \<subseteq> _\<close> that by fastforce
    then show ?thesis
      unfolding encryptOnionLayers_wrap using that encryptForNode_calm
      by (intro wrap_calm) (fastforce simp: encrypt_cached_def)+
  qed
  show ?thesis
  proof (cases "out = Ok ()")
    case True
    have "length nacks = length route" if "nack_ids (length route) r1 = Ok (nacks, r2)" for nacks r2
      using nack_ids_shape [OF that] by simp
    note len = this
    have e1: "encryptOnionLayers C inner returnRoute cache' s (inv_nacks (length route) nacks) r' \<noteq> Panic"
      if "returnRoute \<noteq> []" for inner s nacks r'
      using enc [OF True _ that, of "inv_nacks (length route) nacks"] assms(5) by (simp add: inv_nacks_def)
    have e2: "encryptOnionLayers C inner route cache' s nacks r' \<noteq> Panic"
      if "nack_ids (length route) r1 = Ok (nacks, r2)" for inner s nacks r' r2
      using enc [OF True _ assms(3), of nacks] len [OF that] by simp
    have e3: "index nacks 0 \<noteq> Panic" if "nack_ids (length route) r1 = Ok (nacks, r2)" for nacks r2
      using len [OF that] assms(3) by simp
    show ?thesis
      unfolding Encapsulator_func_def f True
      using ids e1 e2 e3 by (simp add: bind_res_eq_Panic Let_def split del: if_split) (auto split: if_splits)
  qed (use f out in \<open>cases out; simp add: Encapsulator_func_def Let_def\<close>)
qed


section \<open>When a send panics\<close>

lemma pick_relays_cases:
  obtains (none) "numRelays = 0 \<or> 0 < numRelays \<and> cands = []" "pick_relays numRelays ds cands = Ok None"
  | (negative) "numRelays < 0" "pick_relays numRelays ds cands = Panic"
  | (some) "0 < numRelays" "cands \<noteq> []" "pick_relays numRelays ds cands =
      Ok (Some (take (nat numRelays) (fst (Shuffle ds cands)), min numRelays (int (length cands))))"
proof -
  consider "numRelays < 0" | "numRelays = 0 \<or> 0 < numRelays \<and> cands = []" | "0 < numRelays" "cands \<noteq> []" by linarith
  then show thesis
  proof cases
    case 3
    then show thesis by (intro some) (auto simp: pick_relays_def min_def)
  qed (use none negative in \<open>auto simp: pick_relays_def\<close>)
qed

text \<open>A list the sender goes on with.\<close>

definition listed :: "directory \<Rightarrow> bool" where
  "listed ask \<longleftrightarrow> (\<exists>l. Node_GetNodesList ask = Ok l \<and> l \<noteq> ''LIST:empty'')"

lemma NodesList_calm: "calm ask \<Longrightarrow> Node_GetNodesList ask \<noteq> Panic"
  by (auto simp: calm_def Node_GetNodesList_def ReadString_def bind_res_eq_Panic split: if_splits)

lemma send_attempt_Panic:
  assumes "calm (ListAsk e)" and "\<forall>i. calm (KeyAsk e i)" and "good_rng (nat k) (Bytes e)"
  shows "send_attempt C e destAddr message frag k n keys = Panic \<longleftrightarrow> k < 0 \<and> listed (ListAsk e)"
proof (cases "Node_GetNodesList (ListAsk e)")
  case (Ok l)
  let ?self = "node_address n"
  let ?cands = "send_candidates ?self destAddr l"
  show ?thesis
  proof (cases rule: pick_relays_cases [where numRelays = k and cands = ?cands and ds = "Picks e"])
    case some
    let ?rs = "take (nat k) (fst (Shuffle (Picks e) ?cands))"
    have "snd (Encapsulator_func C (KeyAsk e) (Clock e) message frag (?rs @ [destAddr]) (rev ?rs @ [?self]) keys ?self (Bytes e)) \<noteq> Panic"
      by (rule Encapsulator_calm [OF assms(2,3)]) auto
    with Ok some show ?thesis by (auto simp: send_attempt_def Let_def split: res.splits prod.splits)
  qed (use Ok in \<open>auto simp: send_attempt_def listed_def\<close>)
qed (use NodesList_calm [OF assms(1)] in \<open>auto simp: send_attempt_def listed_def\<close>)

lemma send_attempt_count:
  assumes "send_attempt C e destAddr message frag k n keys = Ok (n1, keys1, out, a)"
    and "a = Unsent k' \<or> a = Sent k' msgID nackID"
  shows "0 < k' \<and> k' \<le> k"
proof (cases "Node_GetNodesList (ListAsk e)")
  case (Ok l)
  let ?self = "node_address n"
  let ?cands = "send_candidates ?self destAddr l"
  show ?thesis
  proof (cases rule: pick_relays_cases [where numRelays = k and cands = ?cands and ds = "Picks e"])
    case some
    then have "0 < min k (int (length ?cands))" by simp
    moreover obtain keys' built where "Encapsulator_func C (KeyAsk e) (Clock e) message frag
      (take (nat k) (fst (Shuffle (Picks e) ?cands)) @ [destAddr]) (rev (take (nat k) (fst (Shuffle (Picks e) ?cands))) @ [?self])
      keys ?self (Bytes e) = (keys', built)" by fastforce
    ultimately show ?thesis
      using assms Ok some
      by (cases built) (auto simp: send_attempt_def Let_def launch_def split: prod.splits if_splits)
  qed (use assms Ok in \<open>auto simp: send_attempt_def split: if_splits\<close>)
qed (use assms in \<open>auto simp: send_attempt_def\<close>)

lemma good_rng_mono: "good_rng k r \<Longrightarrow> j \<le> k \<Longrightarrow> good_rng j r"
  unfolding good_rng_def using le_trans by blast

lemma SEND_calm:
  assumes "\<forall>u. calm (ListAsk (E u)) \<and> (\<forall>i. calm (KeyAsk (E u) i)) \<and> good_rng (nat k) (Bytes (E u))" and "0 \<le> k"
  shows "SendWithRetry C E destAddr message frag k maxRetries t n keys \<noteq> Panic"
  using assms
proof (induction "nat (maxRetries - t)" arbitrary: k t n keys rule: less_induct)
  case less
  show ?case
  proof (cases "t < maxRetries")
    case True
    have next_try: "SendWithRetry C E destAddr message frag k' maxRetries (t + 1) n' keys' \<noteq> Panic"
      if "0 < k' \<and> k' \<le> k" for k' n' keys'
      using that less.prems True good_rng_mono [of "nat k" _ "nat k'"] by (intro less.hyps) (auto simp: nat_mono)
    note att = send_attempt_Panic [of "E t" k C destAddr message frag n keys] send_attempt_count [of C "E t" destAddr message frag k n keys]
    show ?thesis
      unfolding SendWithRetry_step [OF True] Let_def
      using att less.prems by (auto simp: bind_res_eq_Panic next_try split: attempt.splits prod.splits option.splits bool.splits)
  qed (simp add: SendWithRetry.simps [of C E])
qed


section \<open>The directory's list, read back\<close>

text \<open>Rows whose texts survive the list format.\<close>

definition listable :: "NodeInfo \<Rightarrow> bool" where
  "listable i \<longleftrightarrow> (\<forall>c \<in> {pipe, comma, nl}. c \<notin> set (Name i) \<and> c \<notin> set (Ip i) \<and> c \<notin> set (InfoKey i))"

lemma list_entry_no: "listable i \<Longrightarrow> comma \<notin> set (list_entry i) \<and> nl \<notin> set (list_entry i)"
  by (auto simp: listable_def list_entry_def)

lemma last_list_entry: "list_entry i \<noteq> []" "printable (last (list_entry i))"
  by (simp_all add: list_entry_def)

lemma last_Join: "xs \<noteq> [] \<Longrightarrow> last xs \<noteq> [] \<Longrightarrow> last (Join xs sep) = last (last xs)"
proof (induction xs sep rule: Join.induct)
  case (3 x y ys sep)
  have "set (last (y # ys)) \<subseteq> set (Join (y # ys) sep)" by (rule piece_in_Join) (rule last_in_set, simp)
  moreover have "set (last (y # ys)) \<noteq> {}" using 3(3) by simp
  ultimately have "Join (y # ys) sep \<noteq> []" by (cases "Join (y # ys) sep") simp_all
  with 3 show ?case by simp
qed simp_all

lemma GetNodesList_sample:
  assumes "sqlite_laws S rows" and "working S" and "rows db \<noteq> []" and "\<forall>i \<in> set (rows db). listable i"
  obtains nodes where "mset nodes \<subseteq># mset (rows db)" and "length nodes = min MaxSampleNodes (length (rows db))"
    and "Node_GetNodesList (dir_ask S env db) = Ok (''LIST:'' @ Join (map list_entry nodes) [comma])"
proof -
  from assms(2) obtain nodes where sel: "SelectWeighted S MaxSampleNodes (Random env) db = Ok nodes"
    unfolding working_def by blast
  from sqlite_laws.select_some [OF assms(1) sel] have nodes: "mset nodes \<subseteq># mset (rows db)"
    "length nodes = min MaxSampleNodes (length (rows db))" by auto
  have ne: "nodes \<noteq> []" using nodes(2) assms(3) by (cases "rows db") auto
  let ?s = "''LIST:'' @ Join (map list_entry nodes) [comma]"
  have "handleConnection S env (''GET_LIST'' @ [nl]) db = handle_command S env (Split colon ''GET_LIST'') db"
    by (rule handleConnection_line) (simp_all add: printable_def)
  then have reply: "dir_ask S env db (''GET_LIST'' @ [nl]) = Ok (?s @ [nl])"
    using sel ne by (simp add: dir_ask_def handle_command_def getNodesList_def GetNodesList_def)
  have entries: "\<forall>x \<in> set (map list_entry nodes). nl \<notin> set x"
    using assms(4) list_entry_no set_mset_mono [OF nodes(1)] by auto
  then have "nl \<notin> set (Join (map list_entry nodes) [comma])" by (rule Join_no_char) simp
  moreover have "Join (map list_entry nodes) [comma] \<noteq> []"
    using ne last_list_entry(1) by (cases nodes; cases "tl nodes") auto
  moreover have "printable (last (Join (map list_entry nodes) [comma]))"
    using last_Join [of "map list_entry nodes" "[comma]"] ne last_list_entry by (simp add: last_map)
  ultimately have "ReadString (?s @ [nl]) = Ok (?s @ [nl])" "TrimSpace (?s @ [nl]) = ?s"
    using ReadString_line [of ?s "[]"] TrimSpace_line [of ?s] by (simp_all add: printable_def)
  then have "Node_GetNodesList (dir_ask S env db) = Ok ?s"
    using reply unfolding Node_GetNodesList_def by simp
  with that nodes show thesis by blast
qed

lemma GetNodesList_dir:
  assumes "sqlite_laws S rows" and "working S" and "length (rows db) \<le> MaxSampleNodes" and "rows db \<noteq> []"
    and "\<forall>i \<in> set (rows db). listable i"
  obtains nodes where "mset nodes = mset (rows db)"
    and "Node_GetNodesList (dir_ask S env db) = Ok (''LIST:'' @ Join (map list_entry nodes) [comma])"
proof (rule GetNodesList_sample [OF assms(1,2,4,5), of env])
  fix nodes
  assume sub: "mset nodes \<subseteq># mset (rows db)" and "length nodes = min MaxSampleNodes (length (rows db))"
    and reply: "Node_GetNodesList (dir_ask S env db) = Ok (''LIST:'' @ Join (map list_entry nodes) [comma])"
  then have "size (mset nodes) = size (mset (rows db))" using assms(3) by simp
  with sub have "mset nodes = mset (rows db)"
    by (metis mset_subset_size order_less_irrefl subset_mset.le_imp_less_or_eq)
  with that reply show thesis by blast
qed

lemma list_entries_split:
  assumes "nodes \<noteq> []" and "\<forall>i \<in> set nodes. listable i"
  shows "Split comma (TrimPrefix (''LIST:'' @ Join (map list_entry nodes) [comma]) ''LIST:'') = map list_entry nodes"
proof -
  have "\<forall>x \<in> set (map list_entry nodes). comma \<notin> set x" using assms(2) list_entry_no by auto
  with assms(1) show ?thesis by (simp add: Split_Join del: append.simps)
qed

lemma send_candidate_entry:
  assumes "listable i"
  shows "send_candidate self dest (list_entry i) = (if node_addr i \<noteq> self \<and> node_addr i \<noteq> dest then [node_addr i] else [])"
proof -
  have "SplitN pipe 4 (list_entry i) = [Name i, Ip i, Itoa (InfoPort i),
    InfoKey i @ pipe # Itoa (AvailabilityScore i) @ pipe # Itoa (NetworkScore i)]"
    using assms by (simp add: list_entry_def listable_def eval_nat_numeral)
  then show ?thesis by (simp add: send_candidate_def node_addr_def Let_def)
qed

lemma send_candidates_entries:
  assumes "nodes \<noteq> []" and "\<forall>i \<in> set nodes. listable i"
  shows "send_candidates self dest (''LIST:'' @ Join (map list_entry nodes) [comma]) =
    filter (\<lambda>a. a \<noteq> self \<and> a \<noteq> dest) (map node_addr nodes)"
proof -
  have "concat (map (send_candidate self dest) (map list_entry xs)) = filter (\<lambda>a. a \<noteq> self \<and> a \<noteq> dest) (map node_addr xs)"
    if "\<forall>i \<in> set xs. listable i" for xs
    using that by (induction xs) (simp_all add: send_candidate_entry)
  with assms list_entries_split [OF assms] show ?thesis by (simp add: send_candidates_def del: append.simps)
qed

end
