(* ===== verification/SendDelivery.thy ===== *)
theory SendDelivery
  imports Send
begin

text \<open>
  A whole \<open>SEND\<close>: the sender asks the directory for the list and the keys, builds the onion, hands it to
  the first relay, the network carries it to the recipient and the acknowledgement back, and the
  waiting goroutine reports success. Every component is the code's own model; only the environment
  (draws, clocks, random bytes, reachability) is assumed.
\<close>

section \<open>A live network\<close>

text \<open>
  Every row of the directory's table belongs to a reachable node that holds the private key of the
  registered public key, and its texts survive the wire formats.
\<close>

definition live_row :: "('pk, 'sk) crypto \<Rightarrow> (addr \<Rightarrow> bool) \<Rightarrow> ('pk, 'sk) net \<Rightarrow> NodeInfo \<Rightarrow> bool" where
  "live_row C up net i \<longleftrightarrow> listable i \<and> wire_name (Ip i) \<and> int64 (InfoPort i) \<and> up (node_addr i) \<and>
     (\<exists>nd b. net (node_addr i) = Some nd \<and> MarshalPKIX C (PublicOf C (PrivateKey nd)) = Some b \<and> b \<noteq> [] \<and>
        InfoKey i = EncodeToString b)"

definition live :: "('pk, 'sk) crypto \<Rightarrow> (addr \<Rightarrow> bool) \<Rightarrow> ('pk, 'sk) net \<Rightarrow> NodeInfo list \<Rightarrow> bool" where
  "live C up net rs \<longleftrightarrow> distinct (map node_addr rs) \<and> length rs \<le> MaxSampleNodes \<and> (\<forall>i \<in> set rs. live_row C up net i)"

definition right_key :: "('pk, 'sk) crypto \<Rightarrow> ('pk, 'sk) net \<Rightarrow> addr \<Rightarrow> 'pk \<Rightarrow> bool" where
  "right_key C net a pk \<longleftrightarrow> (\<exists>nd. net a = Some nd \<and> pk = PublicOf C (PrivateKey nd))"

definition honest_cache :: "('pk, 'sk) crypto \<Rightarrow> ('pk, 'sk) net \<Rightarrow> 'pk KeyCache \<Rightarrow> bool" where
  "honest_cache C net keys \<longleftrightarrow> (\<forall>a ck. get keys a = Some ck \<longrightarrow> right_key C net a (Key ck))"

lemma live_addr:
  assumes "live_row C up net i"
  shows "wire_addr (node_addr i)" "up (node_addr i)" "\<exists>nd. net (node_addr i) = Some nd"
  using assms by (auto simp: live_row_def listable_def node_addr_def wire_addr_def)

lemma live_key:
  assumes "crypto_laws C" and "sqlite_laws S rows" and "working S" and "live C up net (rows db)" and "i \<in> set (rows db)"
  obtains pk where "FetchKeyFromServer C (dir_ask S env db) (node_addr i) = Ok pk" and "right_key C net (node_addr i) pk"
proof -
  have row: "live_row C up net i" if "i \<in> set (rows db)" for i using assms(4) that by (simp add: live_def)
  from row [OF assms(5)] obtain nd b where nd: "net (node_addr i) = Some nd" "MarshalPKIX C (PublicOf C (PrivateKey nd)) = Some b"
    "b \<noteq> []" "InfoKey i = EncodeToString b" "wire_name (Ip i)" "int64 (InfoPort i)" by (auto simp: live_row_def)
  have "InfoKey j = InfoKey i" if "j \<in> set (rows db)" "Ip j = Ip i \<and> InfoPort j = InfoPort i" for j
  proof -
    have "node_addr j = node_addr i" using that(2) by (simp add: node_addr_def)
    then show ?thesis using row [OF that(1)] nd by (auto simp: live_row_def)
  qed
  then have "FetchKeyFromServer C (dir_ask S env db) (Ip i @ '':'' @ Itoa (InfoPort i)) = Ok (PublicOf C (PrivateKey nd))"
    using fetch_registered [OF assms(1-3) _ nd(2,3) assms(5) nd(4-6)] assms(4) by (simp add: live_def)
  with that nd(1) show thesis by (auto simp: right_key_def node_addr_def)
qed

lemma fetch_keys_ok:
  assumes "\<forall>a \<in> set as. \<forall>i. \<exists>pk. FetchKeyFromServer C (ask i) a = Ok pk"
  shows "\<exists>cache'. fetch_keys C ask clock k as cache = (cache', Ok ())"
  using assms
proof (induction C ask clock k as cache rule: fetch_keys.induct)
  case (2 C ask clock i port ports publicKeys)
  have "port \<in> set (port # ports)" by simp
  with "2.prems" obtain pk where "FetchKeyFromServer C (ask i) port = Ok pk" by blast
  with 2 show ?case by simp
qed simp

lemma live_fetch:
  assumes "crypto_laws C" and "sqlite_laws S rows" and "working S" and "live C up net (rows db)" and "honest_cache C net keys"
    and "set as \<subseteq> node_addr ` set (rows db)"
  obtains keys' where "fetch_keys C (\<lambda>i. dir_ask S (denv i) db) clock k as keys = (keys', Ok ())"
    and "\<forall>a \<in> set as. \<exists>pk. cached_key keys' a = Some pk \<and> right_key C net a pk" and "honest_cache C net keys'"
proof -
  have key: "\<exists>pk. FetchKeyFromServer C (dir_ask S (denv i) db) a = Ok pk \<and> right_key C net a pk" if "a \<in> set as" for a i
  proof -
    from that assms(6) obtain j where j: "a = node_addr j" "j \<in> set (rows db)" by blast
    from live_key [OF assms(1-4) j(2), of "denv i"] j(1) show ?thesis by blast
  qed
  then have "\<forall>a \<in> set as. \<forall>i. \<exists>pk. FetchKeyFromServer C (dir_ask S (denv i) db) a = Ok pk" by blast
  from fetch_keys_ok [where ask = "\<lambda>i. dir_ask S (denv i) db", OF this]
  obtain keys' where f: "fetch_keys C (\<lambda>i. dir_ask S (denv i) db) clock k as keys = (keys', Ok ())" by blast
  have "\<exists>pk. cached_key keys' a = Some pk \<and> right_key C net a pk" if a: "a \<in> set as" for a
  proof -
    from conjunct1 [OF conjunct2 [OF fetch_keys_spec [OF f]]] a obtain ck i where ck: "get keys' a = Some ck"
      "get keys a = Some ck \<or> FetchKeyFromServer C (dir_ask S (denv i) db) a = Ok (Key ck)" by blast
    then show ?thesis using assms(5) key [OF a, of i] by (auto simp: honest_cache_def)
  qed
  moreover have "honest_cache C net keys'"
    unfolding honest_cache_def
  proof (intro allI impI)
    fix a ck
    assume ck: "get keys' a = Some ck"
    show "right_key C net a (Key ck)"
    proof (cases "a \<in> set as")
      case True
      from calculation [OF this] ck show ?thesis by auto
    next
      case False
      with conjunct1 [OF fetch_keys_spec [OF f]] ck assms(5) show ?thesis by (simp add: honest_cache_def)
    qed
  qed
  ultimately show thesis using f that by blast
qed


section \<open>The route\<close>

lemma others_length:
  assumes "distinct xs" and "self \<in> set xs" "dest \<in> set xs" "self \<noteq> dest"
  shows "length (filter (\<lambda>a. a \<noteq> self \<and> a \<noteq> dest) xs) = length xs - 2"
proof -
  have "set (filter (\<lambda>a. a \<noteq> self \<and> a \<noteq> dest) xs) = set xs - {self, dest}" by auto
  then have "length (filter (\<lambda>a. a \<noteq> self \<and> a \<noteq> dest) xs) = card (set xs - {self, dest})"
    using assms(1) by (metis distinct_card distinct_filter)
  also have "\<dots> = length xs - 2" using assms by (simp add: card_Diff_subset distinct_card)
  finally show ?thesis .
qed

text \<open>The candidates of a sender that is registered, and so is the recipient.\<close>

lemma live_candidates:
  assumes "sqlite_laws S rows" and "working S" and "live C up net (rows db)"
    and "self \<in> node_addr ` set (rows db)" "dest \<in> node_addr ` set (rows db)" "self \<noteq> dest"
  obtains l where "Node_GetNodesList (dir_ask S env db) = Ok l" "l \<noteq> ''LIST:empty''"
    and "distinct (send_candidates self dest l)" "length (send_candidates self dest l) = length (rows db) - 2"
    and "set (send_candidates self dest l) = node_addr ` set (rows db) - {self, dest}"
proof -
  have listable: "\<forall>i \<in> set (rows db). listable i" using assms(3) by (simp add: live_def live_row_def)
  have ne: "rows db \<noteq> []" using assms(4) by auto
  from assms(3) obtain nodes where nodes: "mset nodes = mset (rows db)"
    and l: "Node_GetNodesList (dir_ask S env db) = Ok (''LIST:'' @ Join (map list_entry nodes) [comma])"
    using GetNodesList_dir [OF assms(1,2) _ ne listable] unfolding live_def by metis
  have set: "set nodes = set (rows db)" using nodes by (rule mset_eq_setD)
  have nne: "nodes \<noteq> []" using nodes ne by auto
  have cands: "send_candidates self dest (''LIST:'' @ Join (map list_entry nodes) [comma]) =
    filter (\<lambda>a. a \<noteq> self \<and> a \<noteq> dest) (map node_addr nodes)"
    by (rule send_candidates_entries [OF nne]) (use listable set in simp)
  have "mset (map node_addr nodes) = mset (map node_addr (rows db))" using nodes by simp
  then have dist: "distinct (map node_addr nodes)" using assms(3) unfolding live_def by (metis mset_eq_imp_distinct_iff)
  have len: "length nodes = length (rows db)" using nodes by (rule mset_eq_length)
  have "pipe \<in> set (Join (map list_entry nodes) [comma])"
    using piece_in_Join [of "list_entry (hd nodes)" "map list_entry nodes"] nne by (auto simp: list_entry_def)
  then have "''LIST:'' @ Join (map list_entry nodes) [comma] \<noteq> ''LIST:empty''" by auto
  with that [OF l] cands dist len set assms(4-6) others_length [of "map node_addr nodes" self dest] show thesis by auto
qed


section \<open>The whole send\<close>

text \<open>
  What the sender's node goes through while the waiting goroutine sleeps: the network runs with the
  line just sent in flight.
\<close>

definition carry ::
  "('pk, 'sk) crypto \<Rightarrow> (addr \<Rightarrow> bool) \<Rightarrow> env \<Rightarrow> addr \<Rightarrow> ('pk, 'sk) net \<Rightarrow> addr \<times> string \<Rightarrow>
   ('pk, 'sk) Node \<times> 'pk KeyCache \<Rightarrow> ('pk, 'sk) Node \<times> 'pk KeyCache" where
  "carry C up es me net line st =
     (case run_net C up es [line] (net(me \<mapsto> fst st)) of
        Ok (net', _) \<Rightarrow> (case net' me of Some n' \<Rightarrow> (n', snd st) | None \<Rightarrow> st)
      | _ \<Rightarrow> st)"

lemma msgID_not_nack:
  assumes "GenerateMsgID [] r = Ok (msgID, r1)" and "nack_ids (Suc m) r1 = Ok (nacks, r2)"
  shows "msgID \<noteq> hd nacks"
  using assms by (auto simp: GenerateMsgID_def bind_res_eq_Ok)

lemma node_ready_live:
  assumes "live_row C up net i" and "cached_key keys (node_addr i) = Some pk" and "right_key C net (node_addr i) pk"
    and "net me = Some n" and "PrivateKey n1 = PrivateKey n"
  shows "node_ready C keys up (net(me \<mapsto> n1)) (node_addr i)"
  using assms live_addr [OF assms(1)] by (auto simp: node_ready_def right_key_def)

text \<open>The sender's state when the onion leaves.\<close>

lemma registered_ready:
  assumes "wire_addr me" and "msgID \<noteq> nackID"
  shows "sender_ready me msgID ch (net(me \<mapsto> register_ack ch msgID nackID n))"
  using wire_addr_single [OF assms(1)] assms(2) by (simp add: sender_ready_def register_ack_def)

lemma fresh_registered:
  "fresh ids net as \<Longrightarrow> net me = Some n \<Longrightarrow> fresh ids (net(me \<mapsto> register_ack ch msgID nackID n)) as"
  by (auto simp: fresh_def register_ack_def)

lemma receives_upd:
  assumes "receives d message (net(me \<mapsto> n1)) net'" and "net me = Some n" and "ReceivedMsgs n1 = ReceivedMsgs n"
  shows "receives d message net net'"
  unfolding receives_def
proof (intro allI impI)
  fix a m
  assume a: "net a = Some m"
  have "(net(me \<mapsto> n1)) a = Some (if a = me then n1 else m)" using a by simp
  with assms(1) have "map_option ReceivedMsgs (net' a) =
    Some (ReceivedMsgs (if a = me then n1 else m) @ (if a = d then [message] else []))" unfolding receives_def by blast
  with a assms(2,3) show "map_option ReceivedMsgs (net' a) = Some (ReceivedMsgs m @ (if a = d then [message] else []))"
    by (cases "a = me") simp_all
qed

text \<open>The acknowledgement is in the channel when the network has come to rest, and the waiting goroutine takes it.\<close>

abbreviation acked :: "nat \<Rightarrow> string \<Rightarrow> ('pk, 'sk) Node \<Rightarrow> ('pk, 'sk) Node" where
  "acked ch msgID n \<equiv> n\<lparr>Chans := (Chans n)(ch := [True]), PendingACKs := (PendingACKs n)(msgID := None)\<rparr>"

abbreviation ack_taken :: "nat \<Rightarrow> string \<Rightarrow> ('pk, 'sk) Node \<Rightarrow> ('pk, 'sk) Node" where
  "ack_taken ch msgID n \<equiv> (acked ch msgID n)\<lparr>Chans := (Chans (acked ch msgID n))(ch := [])\<rparr>"

lemma ack_comes_home:
  assumes "run_net C up es [line] (net(me \<mapsto> n1)) = Ok (net', rest)" and "only_acked me msgID ch (net(me \<mapsto> n1)) net'"
  shows "carry C up es me net line (n1, keys) = (acked ch msgID n1, keys)"
    and "await_ack ch msgID nackID (acked ch msgID n1) = (ack_taken ch msgID n1, Some True)"
proof -
  have "net' me = Some (acked ch msgID n1)" using assms(2) by (simp add: only_acked_def)
  with assms(1) show "carry C up es me net line (n1, keys) = (acked ch msgID n1, keys)" by (simp add: carry_def)
qed (simp add: await_ack_def)

lemma live_nodes_ready:
  assumes "live C up net infos" and "A \<subseteq> node_addr ` set infos" and "net me = Some n" "PrivateKey n1 = PrivateKey n"
    and "\<forall>a \<in> A. \<exists>pk. cached_key keys a = Some pk \<and> right_key C net a pk"
  shows "\<forall>a \<in> A. node_ready C keys up (net(me \<mapsto> n1)) a"
proof
  fix a
  assume a: "a \<in> A"
  with assms(5) obtain pk where pk: "cached_key keys a = Some pk" "right_key C net a pk" by blast
  from a assms(1,2) obtain i where "a = node_addr i" "live_row C up net i" by (auto simp: live_def)
  with pk assms(3,4) show "node_ready C keys up (net(me \<mapsto> n1)) a" 
    using node_ready_live [where net = net and me = me and n = n] by blast
qed

text \<open>What a try does in a live network, up to handing the onion to the first relay.\<close>

lemma live_attempt:
  assumes "crypto_laws C" and "sqlite_laws S rows" and "working S" and live: "live C up net (rows db)"
    and honest: "honest_cache C net keys"
    and me: "me = node_address n" "{me, dest} \<subseteq> node_addr ` set (rows db)" "dest \<noteq> me"
    and m: "m = min (nat k) (length (rows db) - 2)" "0 < m"
    and dir: "ListAsk e = dir_ask S denv db" "KeyAsk e = (\<lambda>i. dir_ask S (denvs i) db)"
    and ids: "GenerateMsgID [] (Bytes e) = Ok (msgID, r1)" "nack_ids (Suc m) r1 = Ok (nacks, r2)"
    and rand: "152 * (m + 1) \<le> length r2"
  obtains rs keys' onion r3 where "length rs = m" "distinct (rs @ [dest, me])" "set (rs @ [dest, me]) \<subseteq> node_addr ` set (rows db)"
    and "\<forall>a \<in> set (rs @ [dest, me]). \<exists>pk. cached_key keys' a = Some pk \<and> right_key C net a pk" and "honest_cache C net keys'"
    and "Encapsulator_func C (KeyAsk e) (Clock e) message frag (rs @ [dest]) (rev rs @ [me]) keys me (Bytes e) =
      (keys', Ok ((onion, msgID, hd nacks), r3))"
    and "send_attempt C e dest message frag k n keys =
      (let (n', out, a) = launch e (int m) (hd (rs @ [dest])) (onion, msgID, hd nacks) n in Ok (n', keys', out, a))"
proof -
  let ?addrs = "node_addr ` set (rows db)"
  from live_candidates [OF assms(2,3) live, of me dest denv] me(2,3) obtain l where
    l: "Node_GetNodesList (ListAsk e) = Ok l" "l \<noteq> ''LIST:empty''"
    and cands: "distinct (send_candidates me dest l)" "length (send_candidates me dest l) = length (rows db) - 2"
      "set (send_candidates me dest l) = ?addrs - {me, dest}" unfolding dir by auto
  define rs where "rs = take (nat k) (fst (Shuffle (Picks e) (send_candidates me dest l)))"
  have len: "length rs = m" using cands(2) m(1) by (simp add: rs_def min.commute)
  have sub: "set rs \<subseteq> ?addrs - {me, dest}"
    unfolding rs_def cands(3) [symmetric] using set_take_subset [of "nat k" "fst (Shuffle (Picks e) (send_candidates me dest l))"] by simp
  have dist: "distinct (rs @ [dest, me])"
    using sub me(3) cands(1) by (auto simp: rs_def)
  have addrs: "set (rs @ [dest, me]) \<subseteq> ?addrs" using sub me(2) by auto
  obtain keys' where f: "fetch_keys C (KeyAsk e) (Clock e) 0 ((rs @ [dest]) @ rev rs @ [me]) keys = (keys', Ok ())"
    and right: "\<forall>a \<in> set (rs @ [dest, me]). \<exists>pk. cached_key keys' a = Some pk \<and> right_key C net a pk"
    and honest': "honest_cache C net keys'"
    using live_fetch [OF assms(1-3) live honest, of "(rs @ [dest]) @ rev rs @ [me]" denvs "Clock e" 0] addrs dir(2) by auto
  have ids2: "nack_ids (length (rs @ [dest])) r1 = Ok (nacks, r2)" using ids(2) len by simp
  have pubs: "\<forall>a \<in> set ((rs @ [dest]) @ rev rs @ [me]). \<exists>sk. cached_key keys' a = Some (PublicOf C sk)"
    using right by (fastforce simp: right_key_def)
  have "76 * (length (rs @ [dest]) + length (rev rs @ [me])) \<le> length r2" using rand len by simp
  from Encapsulator_func_ok [where message = message and frag = frag and sender = me, OF assms(1) f ids(1) ids2 _ _ pubs this]
  obtain onion r3 where enc: "Encapsulator_func C (KeyAsk e) (Clock e) message frag (rs @ [dest]) (rev rs @ [me]) keys me (Bytes e) =
      (keys', Ok ((onion, msgID, hd nacks), r3))" by force
  have rs: "rs \<noteq> []" using len m(2) by auto
  have pick: "pick_relays k (Picks e) (send_candidates me dest l) = Ok (Some (rs, int m))"
    using len m cands(2) unfolding rs_def by (auto simp: pick_relays_def min_def)
  have "(rs @ [dest]) ! 0 = hd (rs @ [dest])" using rs by (cases rs) auto
  with l pick enc me(1) have "send_attempt C e dest message frag k n keys =
    (let (n', out, a) = launch e (int m) (hd (rs @ [dest])) (onion, msgID, hd nacks) n in Ok (n', keys', out, a))"
    by (simp add: send_attempt_def Let_def)
  with that [OF len dist addrs right honest' enc] show thesis .
qed

text \<open>A try in a live network succeeds.\<close>

lemma live_send:
  assumes e: "E t = e" and "crypto_laws C" and "sqlite_laws S rows" and "working S" and live: "live C up net (rows db)"
    and honest: "honest_cache C net keys"
    and me: "me = node_address n" "net me = Some n" "{me, dest} \<subseteq> node_addr ` set (rows db)" "dest \<noteq> me"
    and m: "m = min (nat k) (length (rows db) - 2)" "0 < m"
    and dir: "ListAsk e = dir_ask S denv db" "KeyAsk e = (\<lambda>i. dir_ask S (denvs i) db)"
    and "Dial e = up" and "Meanwhile e = carry C up es me net" and "length es = 2 * m + 2"
    and ids: "GenerateMsgID [] (Bytes e) = Ok (msgID, r1)" "nack_ids (Suc m) r1 = Ok (nacks, r2)" "distinct nacks"
    and rand: "152 * (m + 1) \<le> length r2"
    and unseen: "fresh (insert msgID (pair_ids nacks \<union> pair_ids (rev nacks))) net UNIV"
    and t: "t < maxRetries"
  shows "\<exists>net' n' keys' first onion.
    SendWithRetry C E dest message [] k maxRetries t n keys = Ok (n', keys', [(first, onion, True)], ACK t) \<and>
    run_net C up es [(first, onion)] (net(me \<mapsto> register_ack (NewChan e) msgID (hd nacks) n)) = Ok (net', []) \<and>
    receives dest message net net' \<and>
    PendingACKs n' = (PendingACKs n)(hd nacks \<mapsto> NewChan e, msgID := None)"
proof -
  from live_attempt [OF assms(2-4) live honest me(1,3,4) m dir ids(1,2) rand] obtain rs keys' onion r3 where
    len: "length rs = m" and dist: "distinct (rs @ [dest, me])" and addrs: "set (rs @ [dest, me]) \<subseteq> node_addr ` set (rows db)"
    and right: "\<forall>a \<in> set (rs @ [dest, me]). \<exists>pk. cached_key keys' a = Some pk \<and> right_key C net a pk" and "honest_cache C net keys'"
    and enc: "Encapsulator_func C (KeyAsk e) (Clock e) message [] (rs @ [dest]) (rev rs @ [me]) keys me (Bytes e) =
      (keys', Ok ((onion, msgID, hd nacks), r3))"
    and att: "send_attempt C e dest message [] k n keys =
      (let (n', out, a) = launch e (int m) (hd (rs @ [dest])) (onion, msgID, hd nacks) n in Ok (n', keys', out, a))" .
  let ?first = "hd (rs @ [dest])" and ?n1 = "register_ack (NewChan e) msgID (hd nacks) n"
  let ?net1 = "net(me \<mapsto> ?n1)"
  have mid: "msgID \<noteq> hd nacks" using msgID_not_nack [OF ids(1,2)] .
  have ready: "\<forall>a \<in> set (rs @ [dest, me]). node_ready C keys' up ?net1 a"
    by (rule live_nodes_ready [where n = n, OF live addrs me(2) _ right]) (simp add: register_ack_def)
  then have wire: "wire_addr me" "up ?first" by (cases rs; auto simp: node_ready_def)+
  have unseen1: "fresh (insert msgID (pair_ids nacks \<union> pair_ids (rev nacks))) ?net1 (set (rs @ [dest]))"
    using fresh_registered [where net = net, OF unseen me(2)] by (simp add: fresh_def)
  have ids3: "nack_ids (Suc (length rs)) r1 = Ok (nacks, r2)" "length es = 2 * length rs + 2" using ids(2) len assms(17) by simp_all
  from onion_delivers [where net = ?net1 and up = up, OF assms(2) enc ids(1) ids3(1) ids(3) dist ready unseen1
      registered_ready [OF wire(1) mid] ids3(2)]
  obtain net' where run: "run_net C up es [(?first, onion)] ?net1 = Ok (net', [])"
    and got: "receives dest message ?net1 net'" and ack: "only_acked me msgID (NewChan e) ?net1 net'" by blast
  let ?n3 = "ack_taken (NewChan e) msgID ?n1"
  have "SendWithRetry C E dest message [] k maxRetries t n keys = Ok (?n3, keys', [(?first, onion, True)], ACK t)"
    using att t e wire(2) assms(15,16) ack_comes_home [OF run ack]
    by (simp add: SendWithRetry_step launch_def SendTo_def del: fun_upd_apply)
  moreover have "receives dest message net net'" using receives_upd [where net = net, OF got me(2)] by (simp add: register_ack_def)
  moreover have "PendingACKs ?n3 = (PendingACKs n)(hd nacks \<mapsto> NewChan e, msgID := None)"
    using mid by (auto simp: register_ack_def)
  ultimately show ?thesis using run by blast
qed


section \<open>Sending through an outage\<close>

lemma live_upd:
  assumes "live C up net infos" and "net me = Some n" "PrivateKey n1 = PrivateKey n"
  shows "live C up (net(me \<mapsto> n1)) infos"
proof -
  have "live_row C up (net(me \<mapsto> n1)) i" if row: "live_row C up net i" for i
    using row assms(2,3) by (cases "node_addr i = me") (auto simp: live_row_def)
  with assms(1) show ?thesis by (simp add: live_def)
qed

lemma honest_upd:
  "honest_cache C net keys \<Longrightarrow> net me = Some n \<Longrightarrow> PrivateKey n1 = PrivateKey n \<Longrightarrow> honest_cache C (net(me \<mapsto> n1)) keys"
  by (fastforce simp: honest_cache_def right_key_def)

lemma carry_upd: "carry C up es me (net(me \<mapsto> n1)) = carry C up es me net"
  by (simp add: carry_def fun_eq_iff)

text \<open>
  A try in an outage: the directory answers and the random bytes suffice, but no node can be reached.
  It registers and forgets its identifiers, and the next one starts with the clamped number of relays.
\<close>

definition outage :: "'db sqlite \<Rightarrow> 'db \<Rightarrow> nat \<Rightarrow> ('pk, 'sk) try_env \<Rightarrow> bool" where
  "outage S db m e \<longleftrightarrow> (\<exists>denv denvs. ListAsk e = dir_ask S denv db \<and> KeyAsk e = (\<lambda>i. dir_ask S (denvs i) db)) \<and>
     (\<exists>msgID r1 nacks r2. GenerateMsgID [] (Bytes e) = Ok (msgID, r1) \<and> nack_ids (Suc m) r1 = Ok (nacks, r2) \<and>
        152 * (m + 1) \<le> length r2) \<and> (\<forall>a. \<not> Dial e a)"

lemma outage_attempt:
  assumes "crypto_laws C" and "sqlite_laws S rows" and "working S" and "live C up net (rows db)" and "honest_cache C net keys"
    and "me = node_address n" "{me, dest} \<subseteq> node_addr ` set (rows db)" "dest \<noteq> me"
    and "m = min (nat k) (length (rows db) - 2)" "0 < m" and out: "outage S db m e"
  obtains keys' first onion msgID nackID where "honest_cache C net keys'"
    and "send_attempt C e dest message frag k n keys =
      Ok (forget_ack msgID nackID (register_ack (NewChan e) msgID nackID n), keys', [(first, onion, False)], Unsent (int m))"
proof -
  from out obtain denv denvs msgID r1 nacks r2 where dir: "ListAsk e = dir_ask S denv db" "KeyAsk e = (\<lambda>i. dir_ask S (denvs i) db)"
    and ids: "GenerateMsgID [] (Bytes e) = Ok (msgID, r1)" "nack_ids (Suc m) r1 = Ok (nacks, r2)" "152 * (m + 1) \<le> length r2"
    and down: "\<And>a. \<not> Dial e a" unfolding outage_def by blast
  obtain rs keys' onion where h: "honest_cache C net keys'"
    and att: "send_attempt C e dest message frag k n keys =
      (let (n', out, a) = launch e (int m) (hd (rs @ [dest])) (onion, msgID, hd nacks) n in Ok (n', keys', out, a))"
    by (rule live_attempt [OF assms(1-10) dir ids])
  have "launch e (int m) (hd (rs @ [dest])) (onion, msgID, hd nacks) n =
      (forget_ack msgID (hd nacks) (register_ack (NewChan e) msgID (hd nacks) n), [(hd (rs @ [dest]), onion, False)], Unsent (int m))"
    using down by (simp add: launch_def SendTo_def)
  with that [OF h] att show thesis by simp
qed

text \<open>
  C4: a \<open>SEND\<close> gets through as soon as the network is there. When the sender and the recipient are
  registered with a directory of at most 500 nodes, at least one other node is, and \<open>m\<close> is the wanted
  number of relays or all the others, then, if no connection can be made at the first tries and all
  nodes can be reached at try \<open>s\<close>, the sender has made one failing connection in each try before, and
  at \<open>s\<close> finds its relays in the directory's list, gets their keys from the directory, makes exactly
  one connection, and reports an acknowledgement; the recipient, and nobody else, has received the
  message, once.
\<close>

theorem SEND_delivers:
  assumes "crypto_laws C" and "sqlite_laws S rows" and "working S" and "live C up net (rows db)" and "honest_cache C net keys"
    and "me = node_address n" "net me = Some n" "{me, dest} \<subseteq> node_addr ` set (rows db)" "dest \<noteq> me"
    and m: "m = min (nat k) (length (rows db) - 2)" "0 < m" and "\<forall>j. t \<le> j \<and> j < s \<longrightarrow> outage S db m (E j)"
    and dir: "ListAsk (E s) = dir_ask S denv db" "KeyAsk (E s) = (\<lambda>i. dir_ask S (denvs i) db)"
    and "Dial (E s) = up" and "Meanwhile (E s) = carry C up es me net" and "length es = 2 * m + 2"
    and ids: "GenerateMsgID [] (Bytes (E s)) = Ok (msgID, r1)" "nack_ids (Suc m) r1 = Ok (nacks, r2)" "distinct nacks"
    and "152 * (m + 1) \<le> length r2" and "fresh (insert msgID (pair_ids nacks \<union> pair_ids (rev nacks))) net UNIV"
    and "t \<le> s" "s < maxRetries"
  shows "\<exists>net' n0 n' keys' failing first onion.
    SendWithRetry C E dest message [] k maxRetries t n keys = Ok (n', keys', failing @ [(first, onion, True)], ACK s) \<and>
    length failing = nat (s - t) \<and> (\<forall>(_, _, reached) \<in> set failing. \<not> reached) \<and>
    run_net C up es [(first, onion)] (net(me \<mapsto> register_ack (NewChan (E s)) msgID (hd nacks) n0)) = Ok (net', []) \<and>
    receives dest message net net'"
  using assms
proof (induction "nat (s - t)" arbitrary: t n keys net k)
  case 0
  then have ts: "t = s" by linarith
  obtain net' n' keys' first onion where
    "SendWithRetry C E dest message [] k maxRetries s n keys = Ok (n', keys', [(first, onion, True)], ACK s)"
    "run_net C up es [(first, onion)] (net(me \<mapsto> register_ack (NewChan (E s)) msgID (hd nacks) n)) = Ok (net', [])"
    "receives dest message net net'"
    using live_send [where E = E and t = s and net = net and n = n and k = k, OF refl 0(2-12,14-19,20-23,25)] by blast
  then have "SendWithRetry C E dest message [] k maxRetries t n keys = Ok (n', keys', [] @ [(first, onion, True)], ACK s) \<and>
    length ([] :: sends) = nat (s - t) \<and> (\<forall>(_, _, reached) \<in> set ([] :: sends). \<not> reached) \<and>
    run_net C up es [(first, onion)] (net(me \<mapsto> register_ack (NewChan (E s)) msgID (hd nacks) n)) = Ok (net', []) \<and>
    receives dest message net net'" by (simp add: ts)
  then show ?case by blast
next
  case (Suc d)
  from Suc.hyps(2) Suc.prems(24) have t: "t < s" "t < maxRetries" by linarith+
  have out: "outage S db m (E t)" using Suc.prems(12) t(1) by simp
  obtain keys1 first onion i1 i2 where h: "honest_cache C net keys1"
    and att: "send_attempt C (E t) dest message [] k n keys =
      Ok (forget_ack i1 i2 (register_ack (NewChan (E t)) i1 i2 n), keys1, [(first, onion, False)], Unsent (int m))"
    by (rule outage_attempt [OF Suc.prems(1-6,8-11) out])
  let ?n1 = "forget_ack i1 i2 (register_ack (NewChan (E t)) i1 i2 n)"
  let ?net1 = "net(me \<mapsto> ?n1)"
  have same: "PrivateKey ?n1 = PrivateKey n" "node_address ?n1 = node_address n" "SeenMsgs ?n1 = SeenMsgs n" "ReceivedMsgs ?n1 = ReceivedMsgs n"
    by (simp_all add: forget_ack_def register_ack_def node_address_def)
  have fresh: "fresh (insert msgID (pair_ids nacks \<union> pair_ids (rev nacks))) ?net1 UNIV"
    using Suc.prems(7,22) same(3) by (auto simp: fresh_def)
  have later: "d = nat (s - (t + 1))" "m = min (nat (int m)) (length (rows db) - 2)"
    "\<forall>j. t + 1 \<le> j \<and> j < s \<longrightarrow> outage S db m (E j)" "t + 1 \<le> s" "me = node_address ?n1" "?net1 me = Some ?n1"
    "Meanwhile (E s) = carry C up es me ?net1"
    using Suc.hyps(2) Suc.prems(6,10,12,16) t(1) same(2) by (simp_all add: carry_upd)
  from Suc.hyps(1) [OF later(1) Suc.prems(1-3) live_upd [OF Suc.prems(4,7) same(1)] honest_upd [OF h Suc.prems(7) same(1)]
      later(5,6) Suc.prems(8,9) later(2) Suc.prems(11) later(3) Suc.prems(13-15) later(7) Suc.prems(17-21) fresh later(4) Suc.prems(24)]
  obtain net' n0 n' keys' failing f1 o1 where
    rest: "SendWithRetry C E dest message [] (int m) maxRetries (t + 1) ?n1 keys1 = Ok (n', keys', failing @ [(f1, o1, True)], ACK s)"
      "length failing = nat (s - (t + 1))" "\<forall>(_, _, reached) \<in> set failing. \<not> reached"
      "run_net C up es [(f1, o1)] (net(me \<mapsto> register_ack (NewChan (E s)) msgID (hd nacks) n0)) = Ok (net', [])"
    and got: "receives dest message ?net1 net'" by auto
  have "SendWithRetry C E dest message [] k maxRetries t n keys = Ok (n', keys', ((first, onion, False) # failing) @ [(f1, o1, True)], ACK s)"
    using SendWithRetry_step [OF t(2), of C E] att rest(1) by simp
  moreover have "receives dest message net net'" using receives_upd [where net = net, OF got Suc.prems(7) same(4)] .
  moreover have "length ((first, onion, False) # failing) = nat (s - t)" using rest(2) t(1) by simp
  moreover have "\<forall>(_, _, reached) \<in> set ((first, onion, False) # failing). \<not> reached" using rest(3) by simp
  ultimately show ?case using rest(4) by blast
qed


section \<open>A concrete send\<close>

definition live_demo_row :: "string \<Rightarrow> int \<Rightarrow> NodeInfo" where
  "live_demo_row ip port = \<lparr>Uuid = ''u'', Name = ip, Ip = ip, InfoPort = port,
     InfoKey = EncodeToString (replicate (nat port) (CHR ''k'')), AvailabilityScore = 60, NetworkScore = 85\<rparr>"

definition live_demo_rows :: "NodeInfo list" where
  "live_demo_rows = [live_demo_row ''b'' 2, live_demo_row ''d'' 4, live_demo_row ''a'' 1]"

definition live_demo_node :: "string \<Rightarrow> int \<Rightarrow> (nat, nat) Node" where
  "live_demo_node ip port = (NewNode ideal_crypto ip ''s:8080'' (nat port) port)\<lparr>NodeIP := ip\<rparr>"

definition live_demo_net :: "(nat, nat) net" where
  "live_demo_net = [''a:1'' \<mapsto> live_demo_node ''a'' 1, ''b:2'' \<mapsto> live_demo_node ''b'' 2, ''d:4'' \<mapsto> live_demo_node ''d'' 4]"

definition demo_denv :: dir_env where
  "demo_denv = \<lparr>NewUuid = ''u1'', NODE_ADDR = [], RemoteHost = ''h'', Random = [1]\<rparr>"

abbreviation demo_dir :: directory where
  "demo_dir \<equiv> dir_ask list_db demo_denv live_demo_rows"

definition demo_try :: "((addr \<times> string) \<Rightarrow> (nat, nat) Node \<times> nat KeyCache \<Rightarrow> (nat, nat) Node \<times> nat KeyCache) \<Rightarrow> (addr \<Rightarrow> bool) \<Rightarrow> (nat, nat) try_env" where
  "demo_try mw up = \<lparr>ListAsk = demo_dir, KeyAsk = (\<lambda>_. demo_dir), Clock = (\<lambda>_. (5, 5)), Picks = [0], Bytes = demo_rng,
     NewChan = 0, Dial = up, Meanwhile = mw\<rparr>"

lemma demo_try_fields [simp]:
  "ListAsk (demo_try mw up) = demo_dir" "KeyAsk (demo_try mw up) = (\<lambda>_. demo_dir)" "Bytes (demo_try mw up) = demo_rng"
  "NewChan (demo_try mw up) = 0" "Dial (demo_try mw up) = up" "Meanwhile (demo_try mw up) = mw"
  by (simp_all add: demo_try_def)

lemma demo_texts: "Itoa 1 = ''1''" "Itoa 2 = ''2''" "Itoa 4 = ''4''"
  by code_simp+

lemma live_demo_addr: "node_addr (live_demo_row ip p) = ip @ '':'' @ Itoa p"
  by (simp add: node_addr_def live_demo_row_def)

lemma live_demo_sender: "live_demo_net ''a:1'' = Some (live_demo_node ''a'' 1)" "node_address (live_demo_node ''a'' 1) = ''a:1''"
  by (simp_all add: live_demo_net_def node_address_def live_demo_node_def NewNode_def demo_texts)

lemma live_demo_fields [simp]:
  "Name (live_demo_row ip p) = ip" "Ip (live_demo_row ip p) = ip" "InfoPort (live_demo_row ip p) = p"
  "InfoKey (live_demo_row ip p) = EncodeToString (replicate (nat p) (CHR ''k''))"
  by (simp_all add: live_demo_row_def)

lemma live_demo_row_in:
  assumes "pipe \<notin> set ip" "comma \<notin> set ip" "nl \<notin> set ip" "colon \<notin> set ip" and "0 < p" "p < 2 ^ 63"
    and "net (ip @ '':'' @ Itoa p) = Some (live_demo_node ip p)"
  shows "live_row ideal_crypto (\<lambda>_. True) net (live_demo_row ip p)"
proof -
  have "listable (live_demo_row ip p)" using assms(1-3) by (simp add: listable_def)
  moreover have "MarshalPKIX ideal_crypto (PublicOf ideal_crypto (PrivateKey (live_demo_node ip p))) = Some (replicate (nat p) (CHR ''k''))"
    by (simp add: ideal_crypto_def live_demo_node_def NewNode_def)
  ultimately show ?thesis using assms(3-7) unfolding live_row_def live_demo_addr wire_name_def live_demo_fields by auto
qed

lemma live_demo: "live ideal_crypto (\<lambda>_. True) live_demo_net live_demo_rows"
proof -
  have "live_row ideal_crypto (\<lambda>_. True) live_demo_net (live_demo_row ''b'' 2)"
    "live_row ideal_crypto (\<lambda>_. True) live_demo_net (live_demo_row ''d'' 4)"
    "live_row ideal_crypto (\<lambda>_. True) live_demo_net (live_demo_row ''a'' 1)"
    by (rule live_demo_row_in; simp add: demo_texts live_demo_net_def)+
  then show ?thesis
    by (simp add: live_def live_demo_rows_def live_demo_addr demo_texts)
qed

text \<open>The first try runs into an outage, the second gets through.\<close>

abbreviation outage_demo :: "int \<Rightarrow> (nat, nat) try_env" where
  "outage_demo j \<equiv> (if j = 0 then demo_try (\<lambda>_ st. st) (\<lambda>_. False)
     else demo_try (carry ideal_crypto (\<lambda>_. True) (replicate 4 ([1], 7)) ''a:1'' live_demo_net) (\<lambda>_. True))"

lemma demo_two_nacks: "nack_ids (Suc 1) (drop 10 demo_rng) =
    Ok ([''nack-'' @ replicate 10 (digit 1), ''nack-'' @ replicate 10 (digit 2)], drop 30 demo_rng)"
  using demo_ids(2) by (simp add: numeral_2_eq_2)

lemma demo_outage: "\<forall>j. 0 \<le> j \<and> j < 1 \<longrightarrow> outage list_db live_demo_rows 1 (outage_demo j)"
proof -
  let ?e = "demo_try (\<lambda>_ st. st) (\<lambda>_. False)"
  have dir: "\<exists>denv denvs. ListAsk ?e = dir_ask list_db denv live_demo_rows \<and> KeyAsk ?e = (\<lambda>i. dir_ask list_db (denvs i) live_demo_rows)"
    by (intro exI [of _ demo_denv] exI [of _ "\<lambda>_. demo_denv"]) simp
  have len: "152 * (1 + 1) \<le> length (drop 30 demo_rng)" by (simp add: demo_rng_def)
  have gen: "GenerateMsgID [] (Bytes ?e) = Ok (''msg-'' @ replicate 10 (digit 0), drop 10 demo_rng)"
    unfolding demo_try_fields by (rule demo_ids(1))
  have down: "\<forall>a. \<not> Dial ?e a" by simp
  have "outage list_db live_demo_rows 1 ?e" unfolding outage_def using dir gen demo_two_nacks len down by blast
  then show ?thesis by simp
qed

theorem SEND_delivers_witness:
  "\<exists>net' n' keys' failing sent. SendWithRetry ideal_crypto outage_demo ''d:4'' ''hello'' [] 5 3 0 (live_demo_node ''a'' 1) Map.empty =
       Ok (n', keys', failing @ [sent], ACK 1) \<and> length failing = 1 \<and> receives ''d:4'' ''hello'' live_demo_net net'"
proof -
  have fresh: "fresh ids live_demo_net UNIV" for ids
    by (auto simp: fresh_def live_demo_net_def live_demo_node_def NewNode_def split: if_splits)
  have "\<exists>net' n0 n' keys' failing first onion.
    SendWithRetry ideal_crypto outage_demo ''d:4'' ''hello'' [] 5 3 0 (live_demo_node ''a'' 1) Map.empty =
      Ok (n', keys', failing @ [(first, onion, True)], ACK 1) \<and>
    length failing = nat (1 - 0) \<and> (\<forall>(_, _, reached) \<in> set failing. \<not> reached) \<and>
    run_net ideal_crypto (\<lambda>_. True) (replicate 4 ([1], 7)) [(first, onion)]
      (live_demo_net(''a:1'' \<mapsto> register_ack (NewChan (outage_demo 1)) (''msg-'' @ replicate 10 (digit 0))
        (hd [''nack-'' @ replicate 10 (digit 1), ''nack-'' @ replicate 10 (digit 2)]) n0)) = Ok (net', []) \<and>
    receives ''d:4'' ''hello'' live_demo_net net'"
  proof (rule SEND_delivers [where m = 1 and db = live_demo_rows and denv = demo_denv and denvs = "\<lambda>_. demo_denv",
        OF ideal.crypto_laws_axioms list_db.sqlite_laws_axioms list_db_working live_demo _ _ _ _ _ _ _ demo_outage _ _ _ _ _ _ demo_two_nacks])
    show "152 * (1 + 1) \<le> length (drop 30 demo_rng)" by (simp add: demo_rng_def)
    show "distinct [''nack-'' @ replicate 10 (digit 1), ''nack-'' @ replicate 10 (digit 2)]" by (simp add: digit_def)
  qed (use fresh demo_ids(1) in \<open>simp_all add: live_demo_sender honest_cache_def get_def\<close>,
      simp_all add: live_demo_rows_def live_demo_addr demo_texts)
  then show ?thesis by fastforce
qed


section \<open>Whatever the network does\<close>

text \<open>
  C34: \<open>SendWithRetry\<close> ends whatever the network and the directory do, within the tries it was given.
  It makes one connection per try: \<open>ABANDON\<close> is reported after exactly the remaining number of failed
  tries; an acknowledgement or a timeout in try \<open>u\<close> comes after the tries \<open>t\<close> to \<open>u\<close>, the last of which
  reached its first relay; without a report some try gave up before it connected.
\<close>

theorem SEND_bounded:
  assumes "SendWithRetry C E dest message frag k maxRetries t n keys = Ok (n', keys', out, rep)"
  shows "case rep of
      ABANDON m \<Rightarrow> m = maxRetries \<and> length out = nat (maxRetries - t)
    | ACK u \<Rightarrow> t \<le> u \<and> u < maxRetries \<and> length out = nat (u - t) + 1 \<and> snd (snd (last out))
    | TIMEOUT u \<Rightarrow> t \<le> u \<and> u < maxRetries \<and> length out = nat (u - t) + 1 \<and> snd (snd (last out))
    | NoReport \<Rightarrow> length out < nat (maxRetries - t)"
  using SEND_log [OF assms] .



text \<open>
  What a sender reads from the directory's list is what the directory has registered: with at most
  500 rows, whose texts hold no separator of the list, the candidates of \<open>SendWithRetry\<close> are the
  addresses of the rows, each as often as it is registered, without the sender's and the recipient's.
\<close>

theorem candidates_are_registered:
  assumes "sqlite_laws S rows" and "working S" and "length (rows db) \<le> MaxSampleNodes" and "rows db \<noteq> []"
    and "\<forall>i \<in> set (rows db). listable i"
  shows "\<exists>l. Node_GetNodesList (dir_ask S env db) = Ok l \<and>
    mset (send_candidates self dest l) = filter_mset (\<lambda>a. a \<noteq> self \<and> a \<noteq> dest) (mset (map node_addr (rows db)))"
proof -
  from GetNodesList_dir [OF assms] obtain nodes where nodes: "mset nodes = mset (rows db)"
    and l: "Node_GetNodesList (dir_ask S env db) = Ok (''LIST:'' @ Join (map list_entry nodes) [comma])" .
  have "nodes \<noteq> []" "\<forall>i \<in> set nodes. listable i" using nodes assms(4,5) by (auto dest: mset_eq_setD)
  from send_candidates_entries [OF this] l nodes show ?thesis by (auto simp: mset_filter)
qed


subsection \<open>At concrete inputs\<close>

lemma demo_attempt:
  obtains keys' onion where "send_attempt ideal_crypto (demo_try mw up) ''d:4'' ''hello'' [] 5 (live_demo_node ''a'' 1) Map.empty =
      (let (n', out, a) = launch (demo_try mw up) 1 ''b:2''
         (onion, ''msg-'' @ replicate 10 (digit 0), ''nack-'' @ replicate 10 (digit 1)) (live_demo_node ''a'' 1)
       in Ok (n', keys', out, a))"
proof -
  have nacks: "nack_ids (Suc 1) (drop 10 demo_rng) =
    Ok ([''nack-'' @ replicate 10 (digit 1), ''nack-'' @ replicate 10 (digit 2)], drop 30 demo_rng)"
    using demo_ids(2) by (simp add: numeral_2_eq_2)
  have addrs: "node_addr ` set live_demo_rows = {''a:1'', ''b:2'', ''d:4''}"
    by (auto simp: live_demo_rows_def live_demo_addr demo_texts)
  have len: "1 = min (nat 5) (length live_demo_rows - 2)" "152 * (1 + 1) \<le> length (drop 30 demo_rng)"
    by (simp_all add: live_demo_rows_def demo_rng_def)
  have honest: "honest_cache ideal_crypto live_demo_net Map.empty" by (simp add: honest_cache_def get_def)
  obtain rs keys' onion r3 where rs: "length rs = 1" "distinct (rs @ [''d:4'', ''a:1''])"
      "set (rs @ [''d:4'', ''a:1'']) \<subseteq> node_addr ` set live_demo_rows"
    and att: "send_attempt ideal_crypto (demo_try mw up) ''d:4'' ''hello'' [] 5 (live_demo_node ''a'' 1) Map.empty =
      (let (n', out, a) = launch (demo_try mw up) (int 1) (hd (rs @ [''d:4'']))
         (onion, ''msg-'' @ replicate 10 (digit 0), hd [''nack-'' @ replicate 10 (digit 1), ''nack-'' @ replicate 10 (digit 2)])
         (live_demo_node ''a'' 1) in Ok (n', keys', out, a))"
    by (rule live_attempt [where db = live_demo_rows and k = 5 and dest = "''d:4''" and e = "demo_try mw up" and denv = demo_denv
          and denvs = "\<lambda>_. demo_denv" and frag = "[]" and message = "''hello''", OF ideal.crypto_laws_axioms list_db.sqlite_laws_axioms
          list_db_working live_demo honest live_demo_sender(2) [symmetric] _ _ len(1) _ _ _ _ nacks len(2)])
      (use demo_ids(1) addrs in simp_all)
  from rs(1) obtain b where b: "rs = [b]" by (auto simp: length_Suc_conv)
  with rs(2,3) addrs have "b = ''b:2''" by auto
  with att b that show thesis by simp
qed

theorem SEND_bounded_witness:
  "\<exists>n' keys' first onion.
     SendWithRetry ideal_crypto (\<lambda>_. demo_try (\<lambda>_ s. s) (\<lambda>_. False)) ''d:4'' ''hello'' [] 5 1 0 (live_demo_node ''a'' 1) Map.empty =
       Ok (n', keys', [(first, onion, False)], ABANDON 1) \<and> length [(first, onion, False)] = nat (1 - 0)"
proof -
  obtain keys' onion where "send_attempt ideal_crypto (demo_try (\<lambda>_ s. s) (\<lambda>_. False)) ''d:4'' ''hello'' [] 5 (live_demo_node ''a'' 1) Map.empty =
    (let (n', out, a) = launch (demo_try (\<lambda>_ s. s) (\<lambda>_. False)) 1 ''b:2''
         (onion, ''msg-'' @ replicate 10 (digit 0), ''nack-'' @ replicate 10 (digit 1)) (live_demo_node ''a'' 1)
     in Ok (n', keys', out, a))" by (rule demo_attempt)
  then have "\<exists>n'. SendWithRetry ideal_crypto (\<lambda>_. demo_try (\<lambda>_ s. s) (\<lambda>_. False)) ''d:4'' ''hello'' [] 5 1 0 (live_demo_node ''a'' 1) Map.empty =
    Ok (n', keys', [(''b:2'', onion, False)], ABANDON 1)"
    by (simp add: SendWithRetry_step launch_def SendTo_def) (simp add: SendWithRetry.simps)
  then obtain n' where run: "SendWithRetry ideal_crypto (\<lambda>_. demo_try (\<lambda>_ s. s) (\<lambda>_. False)) ''d:4'' ''hello'' [] 5 1 0
    (live_demo_node ''a'' 1) Map.empty = Ok (n', keys', [(''b:2'', onion, False)], ABANDON 1)" by blast
  from SEND_bounded [OF run] run show ?thesis by auto
qed



theorem candidates_are_registered_witness:
  "\<exists>l. Node_GetNodesList demo_dir = Ok l \<and> mset (send_candidates ''a:1'' ''d:4'' l) = {#''b:2''#}"
proof -
  have "\<forall>i \<in> set live_demo_rows. listable i" "length live_demo_rows \<le> MaxSampleNodes" "live_demo_rows \<noteq> []"
    using live_demo by (auto simp: live_def live_row_def live_demo_rows_def)
  from candidates_are_registered [OF list_db.sqlite_laws_axioms list_db_working this(2,3,1), of demo_denv "''a:1''" "''d:4''"]
  show ?thesis by (simp add: live_demo_rows_def live_demo_addr demo_texts)
qed

end
