(* ===== verification/SuperSend.thy ===== *)
theory SuperSend
  imports SendDelivery
begin

text \<open>
  \<open>SendWithRetrySuper\<close> of \<open>node/super_send.go\<close>: reading candidates with their keys and scores from the
  directory's list, building clusters, sending to the first member of the first cluster that accepts
  the connection, blacklisting those that do not, and trying again. The surroundings of a try are
  those of \<open>Send\<close>; the \<open>i\<close>-th entry of the list reads the clock \<open>Clock e i\<close>, and the group size, which
  the code passes along and never uses, is left out.
\<close>

section \<open>Candidates\<close>

abbreviation MinClusters :: int where "MinClusters \<equiv> 3"

definition super_entry :: "string \<Rightarrow> NodeInfo option" where
  "super_entry entry =
     (let fields = Split pipe entry in
      if length fields < 6 then None
      else Some \<lparr>Uuid = [], Name = fields ! 0, Ip = fields ! 1, InfoPort = fst (Atoi (fields ! 2)),
                 InfoKey = fields ! 3, AvailabilityScore = fst (Atoi (fields ! 4)),
                 NetworkScore = fst (Atoi (fields ! 5))\<rparr>)"

text \<open>
  A candidate is kept when its key is already cached or can be parsed; a parsed key goes into the
  cache for a minute.
\<close>

fun super_candidates ::
  "('pk, 'sk) crypto \<Rightarrow> addr \<Rightarrow> addr \<Rightarrow> (nat \<Rightarrow> time) \<Rightarrow> nat \<Rightarrow> string list \<Rightarrow> 'pk KeyCache \<Rightarrow> NodeInfo list \<times> 'pk KeyCache" where
  "super_candidates C nodeAddr destAddr now i [] publicKeys = ([], publicKeys)"
| "super_candidates C nodeAddr destAddr now i (entry # entries) publicKeys =
     (case super_entry entry of
        None \<Rightarrow> super_candidates C nodeAddr destAddr now (Suc i) entries publicKeys
      | Some n \<Rightarrow>
          (let addr = node_addr n in
           if addr = nodeAddr \<or> addr = destAddr
           then super_candidates C nodeAddr destAddr now (Suc i) entries publicKeys
           else case get publicKeys addr of
               Some _ \<Rightarrow>
                 (let (ns, keys') = super_candidates C nodeAddr destAddr now (Suc i) entries publicKeys in (n # ns, keys'))
             | None \<Rightarrow>
                 (case parsePublicKey C (InfoKey n) of
                    None \<Rightarrow> super_candidates C nodeAddr destAddr now (Suc i) entries publicKeys
                  | Some key \<Rightarrow>
                      (let (ns, keys') = super_candidates C nodeAddr destAddr now (Suc i) entries
                             (set_key addr \<lparr>Key = key, ExpiresAt = now i + 60 * Second\<rparr> publicKeys)
                       in (n # ns, keys')))))"


section \<open>One try\<close>

text \<open>The loop over the first cluster: members that refuse the connection are blacklisted.\<close>

fun try_group :: "dialer \<Rightarrow> addr list \<Rightarrow> string \<Rightarrow> addr list \<Rightarrow> sends \<Rightarrow> bool \<times> addr list \<times> sends" where
  "try_group dial [] onion failedNodes out = (False, failedNodes, out)"
| "try_group dial (addr # addrs) onion failedNodes out =
     (let (ok, out') = SendTo dial addr onion out
      in if ok then (True, failedNodes, out')
         else try_group dial addrs onion (failedNodes @ [addr]) out')"

definition launch_group ::
  "('pk, 'sk) try_env \<Rightarrow> int \<Rightarrow> addr list \<Rightarrow> addr list \<Rightarrow> string \<times> string \<times> string \<Rightarrow> ('pk, 'sk) Node \<Rightarrow>
   ('pk, 'sk) Node \<times> addr list \<times> sends \<times> attempt" where
  "launch_group e numHops firstGroup failedNodes built n =
     (case built of (onion, msgID, firstNackID) \<Rightarrow>
        let n' = register_ack (NewChan e) msgID firstNackID n;
            (sent, failed', out) = try_group (\<lambda>_. Dial e) firstGroup onion failedNodes []
        in if sent then (n', failed', out, Sent numHops msgID firstNackID)
           else (forget_ack msgID firstNackID n', failed', out, Unsent numHops))"

text \<open>From the clusters on: the destination's key is fetched afresh, the sender's own key is its node's.\<close>

definition super_route ::
  "'pk LayerGroup list \<Rightarrow> addr \<Rightarrow> 'pk \<Rightarrow> addr \<Rightarrow> 'pk \<Rightarrow> 'pk LayerGroup list \<times> 'pk LayerGroup list" where
  "super_route relayGroups destAddr destKey nodeAddr senderPub =
     (relayGroups @ [\<lparr>Addrs = [destAddr], PubKeys = [destKey]\<rparr>],
      rev relayGroups @ [\<lparr>Addrs = [nodeAddr], PubKeys = [senderPub]\<rparr>])"

definition super_build ::
  "('pk, 'sk) crypto \<Rightarrow> sorter \<Rightarrow> ('pk, 'sk) try_env \<Rightarrow> addr \<Rightarrow> string \<Rightarrow> int \<Rightarrow> addr list \<Rightarrow> NodeInfo list \<Rightarrow>
   ('pk, 'sk) Node \<Rightarrow> (addr list \<times> string \<times> string \<times> string) res" where
  "super_build C sortNodesByScore e destAddr message numHops failedNodes candidates n =
     bind_res (BuildSmartClusters C sortNodesByScore candidates (nat numHops) failedNodes (Picks e)) (\<lambda>(relayGroups, _).
     bind_res (FetchKeyFromServer C (KeyAsk e 0) destAddr) (\<lambda>destKey.
       let (route, returnRoute) = super_route relayGroups destAddr destKey (node_address n) (PublicKey n)
       in bind_res (Encapsulator_func_super C message route returnRoute (node_address n) (Bytes e)) (\<lambda>(built, _).
            Ok (Addrs (route ! 0), built))))"

definition super_attempt ::
  "('pk, 'sk) crypto \<Rightarrow> sorter \<Rightarrow> ('pk, 'sk) try_env \<Rightarrow> addr \<Rightarrow> string \<Rightarrow> int \<Rightarrow> addr list \<Rightarrow> ('pk, 'sk) Node \<Rightarrow>
   'pk KeyCache \<Rightarrow> (('pk, 'sk) Node \<times> 'pk KeyCache \<times> addr list \<times> sends \<times> attempt) res" where
  "super_attempt C sortNodesByScore e destAddr message numHops failedNodes n publicKeys =
     (case Node_GetNodesList (ListAsk e) of
        Err _ \<Rightarrow> Ok (n, publicKeys, failedNodes, [], Stopped)
      | Panic \<Rightarrow> Panic
      | Blocked \<Rightarrow> Blocked
      | Ok listStr \<Rightarrow>
          if listStr = ''LIST:empty'' then Ok (n, publicKeys, failedNodes, [], Stopped)
          else let (candidates, keys') = super_candidates C (node_address n) destAddr (\<lambda>i. snd (Clock e i)) 0
                     (Split comma (TrimPrefix listStr ''LIST:'')) publicKeys;
                   hops = (if numHops < MinClusters then MinClusters else numHops)
               in if int (length candidates) < hops then Ok (n, keys', failedNodes, [], Stopped)
                  else case super_build C sortNodesByScore e destAddr message hops failedNodes candidates n of
                      Err _ \<Rightarrow> Ok (n, keys', failedNodes, [], Stopped)
                    | Panic \<Rightarrow> Panic
                    | Blocked \<Rightarrow> Blocked
                    | Ok (firstGroup, built) \<Rightarrow>
                        (let (n', failed', out, a) = launch_group e hops firstGroup failedNodes built n
                         in Ok (n', keys', failed', out, a)))"


section \<open>Trying again\<close>

text \<open>The log has one entry per try that got as far as connecting.\<close>

function SendWithRetrySuper ::
  "('pk, 'sk) crypto \<Rightarrow> sorter \<Rightarrow> (int \<Rightarrow> ('pk, 'sk) try_env) \<Rightarrow> addr \<Rightarrow> string \<Rightarrow> int \<Rightarrow> int \<Rightarrow> int \<Rightarrow> addr list \<Rightarrow>
   ('pk, 'sk) Node \<Rightarrow> 'pk KeyCache \<Rightarrow> (('pk, 'sk) Node \<times> 'pk KeyCache \<times> sends list \<times> report) res" where
  "SendWithRetrySuper C sortNodesByScore E destAddr message numHops maxRetries currentTry failedNodes n publicKeys =
     (if maxRetries \<le> currentTry then Ok (n, publicKeys, [], ABANDON maxRetries)
      else bind_res (super_attempt C sortNodesByScore (E currentTry) destAddr message numHops failedNodes n publicKeys)
        (\<lambda>(n1, keys1, failed', out, a).
          let again = (\<lambda>k n' keys'.
                bind_res (SendWithRetrySuper C sortNodesByScore E destAddr message k maxRetries (currentTry + 1) failed' n' keys')
                  (\<lambda>(n'', keys'', outs, rep). Ok (n'', keys'', out # outs, rep)))
          in case a of
               Stopped \<Rightarrow> Ok (n1, keys1, [], NoReport)
             | Unsent k \<Rightarrow> again k n1 keys1
             | Sent k msgID firstNackID \<Rightarrow>
                 (let (n2, keys2) = Meanwhile (E currentTry) (fst (last out), fst (snd (last out))) (n1, keys1);
                      (n3, got) = await_ack (NewChan (E currentTry)) msgID firstNackID n2
                  in case got of
                       None \<Rightarrow> Ok (n3, keys2, [out], TIMEOUT currentTry)
                     | Some True \<Rightarrow> Ok (n3, keys2, [out], ACK currentTry)
                     | Some False \<Rightarrow> again k n3 keys2)))"
  by pat_completeness auto
termination
  by (relation "measure (\<lambda>(C, s, E, d, m, k, mx, t, f, n, c). nat (mx - t))") auto

declare SendWithRetrySuper.simps [simp del]


section \<open>The blacklist\<close>

definition refused :: "sends \<Rightarrow> addr list" where
  "refused out = map fst (filter (\<lambda>(a, m, ok). \<not> ok) out)"

lemma refused_simps [simp]:
  "refused [] = []" "refused (out @ out') = refused out @ refused out'"
  "refused ((a, m, ok) # out) = (if ok then [] else [a]) @ refused out"
  by (simp_all add: refused_def)

lemma try_group_log:
  assumes "try_group dial as onion failed out = (sent, failed', out')"
  shows "\<exists>new. out' = out @ new \<and> failed' = failed @ refused new \<and> fst ` set new \<subseteq> set as \<and>
    (sent \<longrightarrow> new \<noteq> [] \<and> snd (snd (last new)))"
  using assms
proof (induction as arbitrary: failed out)
  case (Cons a as)
  obtain ok out1 where ok: "SendTo dial a onion out = (ok, out1)" by fastforce
  then have out1: "out1 = out @ [(a, onion, ok)]" by (auto simp: SendTo_def Let_def)
  show ?case
  proof (cases ok)
    case True
    with Cons.prems ok out1 show ?thesis by auto
  next
    case False
    with Cons.prems ok have "try_group dial as onion (failed @ [a]) out1 = (sent, failed', out')" by simp
    from Cons.IH [OF this] obtain new where "out' = out1 @ new" "failed' = (failed @ [a]) @ refused new"
      "fst ` set new \<subseteq> set as" "sent \<longrightarrow> new \<noteq> [] \<and> snd (snd (last new))" by blast
    with out1 False show ?thesis by (intro exI [of _ "(a, onion, False) # new"]) auto
  qed
qed simp

lemma group_pairs_addrs: "wf_groups gs \<Longrightarrow> image_mset fst (group_pairs gs) = mset (concat (map Addrs gs))"
  by (induction gs) (auto simp: group_pairs_def wf_groups_def simp flip: mset_map)

lemma usable_pairs_addrs: "(a, pk) \<in># usable_pairs C ns \<Longrightarrow> \<exists>n \<in> set ns. a = node_addr n \<and> parsePublicKey C (InfoKey n) = Some pk"
  by (auto simp: usable_pairs_def usable_def split: option.splits)

lemma cluster_addrs_available:
  assumes "score_sorter sorter" and "0 < numHops"
    and "BuildSmartClusters C sorter nodes numHops blacklist ds = Ok (gs, rel)" and "g \<in> set gs" "a \<in> set (Addrs g)"
  shows "a \<notin> set blacklist"
proof -
  from BuildSmartClusters_result [OF assms(1,2) refl, of C nodes blacklist ds] assms(3) have
    gs: "wf_groups gs" "group_pairs gs = usable_pairs C (available blacklist nodes)" by auto
  have "a \<in># image_mset fst (group_pairs gs)" unfolding group_pairs_addrs [OF gs(1)] using assms(4,5) by auto
  then show ?thesis unfolding gs(2) by (auto simp: available_def dest!: usable_pairs_addrs)
qed

lemma super_build_first:
  assumes "score_sorter sorter" and "0 < numHops"
    and "super_build C sorter e dest message numHops failed cands n = Ok (firstGroup, built)"
  shows "set firstGroup \<inter> set failed = {}"
proof -
  from assms(3) obtain gs rel key where gs: "BuildSmartClusters C sorter cands (nat numHops) failed (Picks e) = Ok (gs, rel)"
    and first: "firstGroup = Addrs (fst (super_route gs dest key (node_address n) (PublicKey n)) ! 0)"
    by (auto simp: super_build_def super_route_def bind_res_eq_Ok)
  from BuildSmartClusters_result [OF assms(1) _ refl, of "nat numHops" C cands failed "Picks e"] assms(2) gs
  have "length gs = nat numHops" by auto
  with assms(2) have "gs \<noteq> []" by auto
  then have "firstGroup = Addrs (hd gs)" "hd gs \<in> set gs" using first by (simp_all add: super_route_def nth_append hd_conv_nth)
  with cluster_addrs_available [OF assms(1) _ gs] assms(2) show ?thesis by auto
qed

text \<open>How a try ends, for every branch of the code.\<close>

lemma super_attempt_cases:
  assumes "score_sorter sorter"
    and "super_attempt C sorter e dest message numHops failed n keys = Ok (n1, keys1, failed', out, a)"
  obtains (stopped) "a = Stopped" "n1 = n" "failed' = failed" "out = []"
  | (connected) firstGroup built where
      "launch_group e (max MinClusters numHops) firstGroup failed built n = (n1, failed', out, a)"
      "set firstGroup \<inter> set failed = {}"
proof (cases "Node_GetNodesList (ListAsk e)")
  case (Ok listStr)
  obtain cands keys2 where cands: "super_candidates C (node_address n) dest (\<lambda>i. snd (Clock e i)) 0
    (Split comma (TrimPrefix listStr ''LIST:'')) keys = (cands, keys2)" by fastforce
  define hops where "hops = max MinClusters numHops"
  have hops: "(if numHops < MinClusters then MinClusters else numHops) = hops" "0 < hops" by (auto simp: hops_def)
  show thesis
  proof (cases "listStr = ''LIST:empty'' \<or> int (length cands) < hops")
    case True
    with assms(2) Ok cands stopped show thesis unfolding super_attempt_def hops(1) by (auto split: if_splits)
  next
    case False
    note run = assms(2) [unfolded super_attempt_def hops(1)] Ok cands False
    show thesis
    proof (cases "super_build C sorter e dest message hops failed cands n")
      case (Ok fb)
      obtain firstGroup built where fb: "fb = (firstGroup, built)" by (cases fb)
      have "launch_group e hops firstGroup failed built n = (n1, failed', out, a)"
        using run Ok fb by (auto split: prod.splits)
      with connected [of firstGroup built] super_build_first [OF assms(1) hops(2) Ok [unfolded fb]] show thesis
        by (simp add: hops_def)
    qed (use run stopped in auto)
  qed
qed (use assms(2) stopped in \<open>simp_all add: super_attempt_def\<close>)

lemma launch_group_cases:
  assumes "launch_group e k firstGroup failed built n = (n1, failed', out, a)"
  shows "a \<noteq> Stopped \<and> failed' = failed @ refused out \<and> fst ` set out \<subseteq> set firstGroup"
proof -
  obtain onion msgID nackID where built: "built = (onion, msgID, nackID)" by (cases built)
  obtain sent f o' where t: "try_group (\<lambda>_. Dial e) firstGroup onion failed [] = (sent, f, o')"
    by (cases "try_group (\<lambda>_. Dial e) firstGroup onion failed []") auto
  from try_group_log [OF t] assms built t show ?thesis by (auto simp: launch_group_def Let_def split: if_splits)
qed

lemma super_attempt_blacklist:
  assumes "score_sorter sorter"
    and "super_attempt C sorter e dest message numHops failed n keys = Ok (n1, keys1, failed', out, a)"
  shows "failed' = failed @ refused out \<and> fst ` set out \<inter> set failed = {}"
  using assms
proof (cases rule: super_attempt_cases)
  case (connected firstGroup built)
  with launch_group_cases [OF connected(1)] show ?thesis by blast
qed simp

lemma SendWithRetrySuper_step:
  assumes "t < maxRetries"
  shows "SendWithRetrySuper C sorter E dest message k maxRetries t failed n keys =
    bind_res (super_attempt C sorter (E t) dest message k failed n keys) (\<lambda>(n1, keys1, failed', out, a).
      let again = (\<lambda>k n' keys'.
            bind_res (SendWithRetrySuper C sorter E dest message k maxRetries (t + 1) failed' n' keys')
              (\<lambda>(n'', keys'', outs, rep). Ok (n'', keys'', out # outs, rep)))
      in case a of
           Stopped \<Rightarrow> Ok (n1, keys1, [], NoReport)
         | Unsent k \<Rightarrow> again k n1 keys1
         | Sent k msgID firstNackID \<Rightarrow>
             (let (n2, keys2) = Meanwhile (E t) (fst (last out), fst (snd (last out))) (n1, keys1);
                  (n3, got) = await_ack (NewChan (E t)) msgID firstNackID n2
              in case got of
                   None \<Rightarrow> Ok (n3, keys2, [out], TIMEOUT t)
                 | Some True \<Rightarrow> Ok (n3, keys2, [out], ACK t)
                 | Some False \<Rightarrow> again k n3 keys2))"
  using assms by (subst SendWithRetrySuper.simps) simp

lemma super_run_cases:
  assumes "SendWithRetrySuper C sorter E dest message k maxRetries t failed n keys = Ok (n', keys', outs, rep)"
  obtains (none) "outs = []"
  | (one) n1 keys1 failed' out a where "t < maxRetries" "outs = [out]"
      "super_attempt C sorter (E t) dest message k failed n keys = Ok (n1, keys1, failed', out, a)"
  | (more) n1 keys1 failed' out a k' n2 keys2 outs' where "t < maxRetries" "outs = out # outs'"
      "super_attempt C sorter (E t) dest message k failed n keys = Ok (n1, keys1, failed', out, a)"
      "SendWithRetrySuper C sorter E dest message k' maxRetries (t + 1) failed' n2 keys2 = Ok (n', keys', outs', rep)"
proof (cases "t < maxRetries")
  case True
  note run = assms [unfolded SendWithRetrySuper_step [OF True]]
  from run obtain n1 keys1 failed' out a where
    att: "super_attempt C sorter (E t) dest message k failed n keys = Ok (n1, keys1, failed', out, a)"
    by (auto simp: bind_res_eq_Ok)
  note run = run [unfolded att bind_res.simps prod.case Let_def]
  show thesis
  proof (cases a)
    case (Sent k' msgID nackID)
    obtain n2 keys2 where "Meanwhile (E t) (fst (last out), fst (snd (last out))) (n1, keys1) = (n2, keys2)" by fastforce
    moreover obtain n3 got where "await_ack (NewChan (E t)) msgID nackID n2 = (n3, got)" by fastforce
    ultimately show thesis
      using run Sent one [OF True _ att] more [OF True _ att] none
      by (auto simp: bind_res_eq_Ok split: option.splits bool.splits)
  qed (use run more [OF True _ att] none in \<open>auto simp: bind_res_eq_Ok\<close>)
next
  case False
  with assms none show thesis by (simp add: SendWithRetrySuper.simps [of C sorter E])
qed

lemma SSEND_log:
  assumes "score_sorter sorter"
    and "SendWithRetrySuper C sorter E dest message k maxRetries t failed n keys = Ok (n', keys', outs, rep)"
  shows "sorted_wrt (\<lambda>earlier later. fst ` set later \<inter> set (refused earlier) = {}) outs \<and>
    (\<forall>out \<in> set outs. fst ` set out \<inter> set failed = {}) \<and> length outs \<le> nat (maxRetries - t)"
  using assms(2)
proof (induction "nat (maxRetries - t)" arbitrary: k t failed n keys outs rule: less_induct)
  case less
  from less.prems show ?case
  proof (cases rule: super_run_cases)
    case (one n1 keys1 failed' out a)
    with super_attempt_blacklist [OF assms(1) one(3)] show ?thesis by auto
  next
    case (more n1 keys1 failed' out a k' n2 keys2 outs')
    note now = super_attempt_blacklist [OF assms(1) more(3)]
    have "nat (maxRetries - (t + 1)) < nat (maxRetries - t)" using more(1) by simp
    note later = less.hyps [OF this more(4)]
    have "fst ` set o' \<inter> set (refused out) = {}" "fst ` set o' \<inter> set failed = {}" if "o' \<in> set outs'" for o'
    proof -
      have "fst ` set o' \<inter> (set failed \<union> set (refused out)) = {}" using now later that by simp
      then show "fst ` set o' \<inter> set (refused out) = {}" "fst ` set o' \<inter> set failed = {}" by blast+
    qed
    with now later more(1,2) show ?thesis by (simp add: nat_diff_distrib') linarith
  qed simp
qed

end
