(* ===== verification/SuperDelivery.thy ===== *)
theory SuperDelivery
  imports SuperSend
begin

text \<open>
  A whole \<open>SSEND\<close>: the clusters a try forms from the directory's list, the delivery when each of them has a
  reachable member, and the blacklist over all tries.
\<close>

section \<open>Candidates from the directory\<close>

lemma Split_list_entry:
  assumes "listable i"
  shows "Split pipe (list_entry i) =
    [Name i, Ip i, Itoa (InfoPort i), InfoKey i, Itoa (AvailabilityScore i), Itoa (NetworkScore i)]"
  using assms by (simp add: list_entry_def listable_def Split_append Split_no_sep)

text \<open>What the sender makes of a row: everything but the identifier of the row, scores as 64-bit numbers.\<close>

definition as_candidate :: "NodeInfo \<Rightarrow> NodeInfo" where
  "as_candidate i = i\<lparr>Uuid := [], AvailabilityScore := fst (Atoi (Itoa (AvailabilityScore i))),
     NetworkScore := fst (Atoi (Itoa (NetworkScore i)))\<rparr>"

lemma as_candidate_simps [simp]:
  "node_addr (as_candidate i) = node_addr i" "InfoKey (as_candidate i) = InfoKey i"
  by (simp_all add: as_candidate_def node_addr_def)

lemma super_entry_row:
  assumes "listable i" and "int64 (InfoPort i)"
  shows "super_entry (list_entry i) = Some (as_candidate i)"
  using assms(2) by (simp add: super_entry_def Split_list_entry [OF assms(1)] as_candidate_def Atoi_Itoa)

lemma super_candidates_rows:
  assumes "\<forall>i \<in> set nodes. listable i \<and> int64 (InfoPort i) \<and> parsePublicKey C (InfoKey i) \<noteq> None"
  shows "fst (super_candidates C self dest now j (map list_entry nodes) keys) =
    map as_candidate (filter (\<lambda>i. node_addr i \<noteq> self \<and> node_addr i \<noteq> dest) nodes)"
  using assms
proof (induction nodes arbitrary: j keys)
  case (Cons i nodes)
  then have "super_entry (list_entry i) = Some (as_candidate i)" by (simp add: super_entry_row)
  with Cons show ?case by (auto simp: Let_def case_prod_beta split: option.splits)
qed simp

text \<open>The candidates of a try.\<close>

definition try_candidates ::
  "('pk, 'sk) crypto \<Rightarrow> ('pk, 'sk) try_env \<Rightarrow> addr \<Rightarrow> ('pk, 'sk) Node \<Rightarrow> 'pk KeyCache \<Rightarrow> NodeInfo list" where
  "try_candidates C e destAddr n publicKeys =
     (case Node_GetNodesList (ListAsk e) of
        Ok listStr \<Rightarrow> fst (super_candidates C (node_address n) destAddr (\<lambda>i. snd (Clock e i)) 0
                            (Split comma (TrimPrefix listStr ''LIST:'')) publicKeys)
      | _ \<Rightarrow> [])"

definition others :: "addr set \<Rightarrow> NodeInfo list \<Rightarrow> NodeInfo list" where
  "others as rs = filter (\<lambda>i. node_addr i \<notin> as) rs"

lemma others_mset: "mset xs = mset ys \<Longrightarrow> mset (others as xs) = mset (others as ys)"
  by (simp add: others_def)

lemma live_parse:
  assumes "crypto_laws C" and "live_row C up net i"
  obtains nd where "net (node_addr i) = Some nd" "parsePublicKey C (InfoKey i) = Some (PublicOf C (PrivateKey nd))"
  using assms parsePublicKey_marshal [OF assms(1)] by (auto simp: live_row_def)

lemma try_candidates_live:
  assumes "crypto_laws C" and "sqlite_laws S rows" and "working S" and "live C up net (rows db)" and "rows db \<noteq> []"
    and "ListAsk e = dir_ask S denv db"
  obtains l nodes where "Node_GetNodesList (ListAsk e) = Ok l" "l \<noteq> ''LIST:empty''" "mset nodes = mset (rows db)"
    and "try_candidates C e dest n keys = map as_candidate (others {node_address n, dest} nodes)"
proof -
  have rows: "\<forall>i \<in> set (rows db). live_row C up net i" using assms(4) by (simp add: live_def)
  then have listable: "\<forall>i \<in> set (rows db). listable i" by (simp add: live_row_def)
  from assms(4) obtain nodes where nodes: "mset nodes = mset (rows db)"
    and l: "Node_GetNodesList (dir_ask S denv db) = Ok (''LIST:'' @ Join (map list_entry nodes) [comma])"
    using GetNodesList_dir [OF assms(2,3) _ assms(5) listable] unfolding live_def by metis
  let ?l = "''LIST:'' @ Join (map list_entry nodes) [comma]"
  have set: "set nodes = set (rows db)" using nodes by (rule mset_eq_setD)
  have ne: "nodes \<noteq> []" using nodes assms(5) by auto
  have split: "Split comma (TrimPrefix ?l ''LIST:'') = map list_entry nodes"
    by (rule list_entries_split [OF ne]) (use listable set in simp)
  have "\<forall>i \<in> set nodes. listable i \<and> int64 (InfoPort i) \<and> parsePublicKey C (InfoKey i) \<noteq> None"
  proof
    fix i
    assume "i \<in> set nodes"
    then have i: "live_row C up net i" using rows set by simp
    from live_parse [OF assms(1) i] obtain pk where "parsePublicKey C (InfoKey i) = Some pk" by blast
    with i show "listable i \<and> int64 (InfoPort i) \<and> parsePublicKey C (InfoKey i) \<noteq> None" by (simp add: live_row_def)
  qed
  from super_candidates_rows [OF this]
  have "try_candidates C e dest n keys = map as_candidate (others {node_address n, dest} nodes)"
    using l split unfolding try_candidates_def assms(6) others_def by (simp del: append.simps)
  moreover have "pipe \<in> set (Join (map list_entry nodes) [comma])"
    using piece_in_Join [of "list_entry (hd nodes)" "map list_entry nodes"] ne by (auto simp: list_entry_def)
  then have "?l \<noteq> ''LIST:empty''" by auto
  ultimately show thesis using that [of ?l nodes] l nodes assms(6) by simp
qed


section \<open>The clusters of a live network\<close>

lemma concat_addrs_mset:
  assumes "wf_groups gs" and "group_pairs gs = usable_pairs C ns" and "\<forall>n \<in> set ns. parsePublicKey C (InfoKey n) \<noteq> None"
  shows "mset (concat (map Addrs gs)) = mset (map node_addr ns)"
proof -
  have "image_mset fst (usable_pairs C ns) = mset (map node_addr ns)"
    using assms(3) by (induction ns) (auto simp: usable_pairs_def usable_def)
  with group_pairs_addrs [OF assms(1)] assms(2) show ?thesis by simp
qed

lemma group_pair_at:
  assumes "wf_groups gs" and "g \<in> set gs" and "j < length (Addrs g)"
  shows "(Addrs g ! j, PubKeys g ! j) \<in># group_pairs gs"
proof -
  have "length (Addrs g) = length (PubKeys g)" using assms by (auto simp: wf_groups_def)
  then have "(Addrs g ! j, PubKeys g ! j) \<in> set (zip (Addrs g) (PubKeys g))"
    using assms(3) by (auto simp: in_set_zip)
  with assms(2) show ?thesis by (auto simp: group_pairs_def)
qed

text \<open>Clusters whose pairs are right: every key is a node's, and every address has its node's key beside it.\<close>

lemma right_groups:
  assumes "wf_groups gs" and "\<And>a pk. (a, pk) \<in># group_pairs gs \<Longrightarrow> wire_addr a \<and> right_key C net a pk"
    and "g \<in> set gs"
  shows "\<forall>a \<in> set (Addrs g). wire_addr a \<and> (\<exists>nd. net a = Some nd \<and> PublicOf C (PrivateKey nd) \<in> set (PubKeys g))"
    and "list_all (\<lambda>pk. \<exists>sk. pk = PublicOf C sk) (PubKeys g)"
proof -
  have len: "length (Addrs g) = length (PubKeys g)" using assms by (simp add: wf_groups_def)
  have at: "wire_addr (Addrs g ! j)" "right_key C net (Addrs g ! j) (PubKeys g ! j)" if "j < length (Addrs g)" for j
    using assms(2) [OF group_pair_at [OF assms(1,3) that]] by simp_all
  show "\<forall>a \<in> set (Addrs g). wire_addr a \<and> (\<exists>nd. net a = Some nd \<and> PublicOf C (PrivateKey nd) \<in> set (PubKeys g))"
  proof
    fix a
    assume "a \<in> set (Addrs g)"
    then obtain j where j: "j < length (Addrs g)" "a = Addrs g ! j" by (auto simp: in_set_conv_nth)
    with at [OF j(1)] len show "wire_addr a \<and> (\<exists>nd. net a = Some nd \<and> PublicOf C (PrivateKey nd) \<in> set (PubKeys g))"
      unfolding right_key_def by (metis nth_mem)
  qed
  show "list_all (\<lambda>pk. \<exists>sk. pk = PublicOf C sk) (PubKeys g)"
    using at(2) len by (force simp: list_all_length right_key_def)
qed

lemma try_group_up:
  assumes "\<exists>a \<in> set as. up a"
  obtains pre b where "try_group (\<lambda>_. up) as onion failed [] = (True, failed @ pre, map (\<lambda>a. (a, onion, False)) pre @ [(b, onion, True)])"
    and "b \<in> set as" "up b"
proof -
  have "\<exists>pre b. try_group (\<lambda>_. up) as onion failed out =
    (True, failed @ pre, out @ map (\<lambda>a. (a, onion, False)) pre @ [(b, onion, True)]) \<and> b \<in> set as \<and> up b" for out
    using assms
  proof (induction as arbitrary: failed out)
    case (Cons a as)
    show ?case
    proof (cases "up a")
      case True
      then show ?thesis by (intro exI [of _ "[]"] exI [of _ a]) (simp add: SendTo_def)
    next
      case False
      with Cons.prems have "\<exists>a \<in> set as. up a" by auto
      from Cons.IH [OF this, of "failed @ [a]" "out @ [(a, onion, False)]"] obtain pre b where
        "try_group (\<lambda>_. up) as onion (failed @ [a]) (out @ [(a, onion, False)]) =
          (True, failed @ a # pre, out @ (a, onion, False) # map (\<lambda>a. (a, onion, False)) pre @ [(b, onion, True)])"
        "b \<in> set as" "up b" by auto
      with False show ?thesis by (intro exI [of _ "a # pre"] exI [of _ b]) (simp add: SendTo_def Let_def)
    qed
  qed simp
  from this [of "[]"] that show thesis by auto
qed


section \<open>A try in a live network\<close>

lemma size_usable_pairs:
  "\<forall>m \<in> set ns. parsePublicKey C (InfoKey m) \<noteq> None \<Longrightarrow> size (usable_pairs C ns) = length ns"
  by (induction ns) (auto simp: usable_pairs_def usable_def)

lemma BuildSmartClusters_same:
  assumes "score_sorter sorter" and "0 < h" and "BuildSmartClusters C sorter nodes h failed ds = Ok (gs, rel)"
  shows "length gs = h" and "wf_groups gs" and "group_pairs gs = usable_pairs C (available failed nodes)"
    and "h \<le> size (usable_pairs C (available failed nodes)) \<longrightarrow> (\<forall>g \<in> set gs. PubKeys g \<noteq> [])"
proof -
  from BuildSmartClusters_result [OF assms(1,2) refl, of C nodes failed ds] obtain gs' where
    "BuildSmartClusters C sorter nodes h failed ds = Ok (gs', usable_score C (available failed nodes) / of_nat h)"
    "length gs' = h" "wf_groups gs'" "group_pairs gs' = usable_pairs C (available failed nodes)"
    "h \<le> size (usable_pairs C (available failed nodes)) \<longrightarrow> (\<forall>g \<in> set gs'. PubKeys g \<noteq> [])" by blast
  moreover from this(1) have "gs' = gs" using assms(3) by simp
  ultimately show "length gs = h" "wf_groups gs" "group_pairs gs = usable_pairs C (available failed nodes)"
    "h \<le> size (usable_pairs C (available failed nodes)) \<longrightarrow> (\<forall>g \<in> set gs. PubKeys g \<noteq> [])" by simp_all
qed

lemma live_available:
  assumes "crypto_laws C" and "sqlite_laws S rows" and "working S" and live: "live C up net (rows db)"
    and "me = node_address n" "rows db \<noteq> []" and "ListAsk e = dir_ask S denv db"
  obtains nodes where "mset nodes = mset (rows db)"
    and "available failed (try_candidates C e dest n keys) = map as_candidate (others ({me, dest} \<union> set failed) nodes)"
    and "\<forall>i \<in> set nodes. live_row C up net i"
    and "\<forall>m \<in> set (available failed (try_candidates C e dest n keys)). parsePublicKey C (InfoKey m) \<noteq> None"
    and "length (available failed (try_candidates C e dest n keys)) = length (others ({me, dest} \<union> set failed) (rows db))"
    and "distinct (map node_addr nodes)"
proof -
  from try_candidates_live [OF assms(1-4,6,7), of dest n keys] obtain nodes where
    nodes: "mset nodes = mset (rows db)" and cands: "try_candidates C e dest n keys = map as_candidate (others {me, dest} nodes)"
    using assms(5) by metis
  let ?ns = "available failed (try_candidates C e dest n keys)"
  have ns: "?ns = map as_candidate (others ({me, dest} \<union> set failed) nodes)"
    unfolding cands by (simp add: available_def others_def filter_map o_def Un_def conj_commute disj_commute)
  have set: "set nodes = set (rows db)" using nodes by (rule mset_eq_setD)
  have row: "live_row C up net i" if "i \<in> set nodes" for i using that set live by (simp add: live_def)
  have "\<forall>m \<in> set ?ns. parsePublicKey C (InfoKey m) \<noteq> None"
  proof
    fix m
    assume "m \<in> set ?ns"
    then obtain i where i: "i \<in> set nodes" "InfoKey m = InfoKey i" unfolding ns others_def by auto
    from live_parse [OF assms(1) row [OF i(1)]] i(2) show "parsePublicKey C (InfoKey m) \<noteq> None" by auto
  qed
  moreover have "length ?ns = length (others ({me, dest} \<union> set failed) (rows db))"
    unfolding ns using mset_eq_length [OF others_mset [OF nodes]] by simp
  moreover have "distinct (map node_addr nodes)"
    using live nodes unfolding live_def by (metis mset_eq_imp_distinct_iff mset_map)
  ultimately show thesis using that nodes ns row by blast
qed

lemma live_clusters:
  assumes "crypto_laws C" and "sqlite_laws S rows" and "working S" and live: "live C up net (rows db)"
    and "score_sorter sorter" and "me = node_address n" "{me, dest} \<subseteq> node_addr ` set (rows db)" "dest \<noteq> me"
    and hops: "0 < h" "h \<le> length (others ({me, dest} \<union> set failed) (rows db))"
    and "ListAsk e = dir_ask S denv db"
    and clusters: "BuildSmartClusters C sorter (try_candidates C e dest n keys) h failed ds = Ok (gs, rel)"
  shows "length gs = h" and "distinct (concat (map Addrs gs) @ [dest, me])"
    and "\<forall>g \<in> set gs. PubKeys g \<noteq> [] \<and> list_all (\<lambda>pk. \<exists>sk. pk = PublicOf C sk) (PubKeys g) \<and>
      (\<forall>a \<in> set (Addrs g). wire_addr a \<and> (\<exists>nd. net a = Some nd \<and> PublicOf C (PrivateKey nd) \<in> set (PubKeys g)))"
    and "(\<Sum>g\<leftarrow>gs. length (PubKeys g)) \<le> length (rows db)" and "length (try_candidates C e dest n keys) \<ge> h"
proof -
  have "rows db \<noteq> []" using assms(7) by auto
  from live_available [OF assms(1-4,6) this assms(11), of failed dest keys] obtain nodes where
    nodes: "mset nodes = mset (rows db)"
    and ns: "available failed (try_candidates C e dest n keys) = map as_candidate (others ({me, dest} \<union> set failed) nodes)"
    and rows: "\<forall>i \<in> set nodes. live_row C up net i"
    and parse: "\<forall>m \<in> set (available failed (try_candidates C e dest n keys)). parsePublicKey C (InfoKey m) \<noteq> None"
    and len: "length (available failed (try_candidates C e dest n keys)) = length (others ({me, dest} \<union> set failed) (rows db))"
    and dist: "distinct (map node_addr nodes)" .
  note row = bspec [OF rows]
  let ?ns = "available failed (try_candidates C e dest n keys)"
  note size = size_usable_pairs [OF parse]
  have gs: "length gs = h" "wf_groups gs" "group_pairs gs = usable_pairs C ?ns"
    "h \<le> size (usable_pairs C ?ns) \<longrightarrow> (\<forall>g \<in> set gs. PubKeys g \<noteq> [])"
    by (rule BuildSmartClusters_same [OF assms(5) hops(1) clusters])+
  show "length gs = h" by (rule gs(1))
  have right: "wire_addr a \<and> right_key C net a pk" if "(a, pk) \<in># group_pairs gs" for a pk
  proof -
    from usable_pairs_addrs [OF that [unfolded gs(3)]] obtain i where i: "i \<in> set nodes" "a = node_addr i"
      "parsePublicKey C (InfoKey i) = Some pk" unfolding ns others_def by auto
    from live_parse [OF assms(1) row [OF i(1)]] i live_addr(1) [OF row [OF i(1)]] show ?thesis
      by (auto simp: right_key_def)
  qed
  from right_groups [OF gs(2) this] gs(4) hops(2) size len
  show "\<forall>g \<in> set gs. PubKeys g \<noteq> [] \<and> list_all (\<lambda>pk. \<exists>sk. pk = PublicOf C sk) (PubKeys g) \<and>
      (\<forall>a \<in> set (Addrs g). wire_addr a \<and> (\<exists>nd. net a = Some nd \<and> PublicOf C (PrivateKey nd) \<in> set (PubKeys g)))"
    by simp
  have addrs: "mset (concat (map Addrs gs)) = mset (map node_addr ?ns)"
    using concat_addrs_mset [OF gs(2,3) parse] .
  have all: "map node_addr ?ns = map node_addr (others ({me, dest} \<union> set failed) nodes)" unfolding ns by simp
  have "distinct (map node_addr ?ns)" using dist unfolding all others_def by (simp add: distinct_map_filter)
  then have "distinct (concat (map Addrs gs))" using addrs by (metis mset_eq_imp_distinct_iff)
  moreover have "set (concat (map Addrs gs)) = set (map node_addr ?ns)" using addrs by (rule mset_eq_setD)
  then have "set (concat (map Addrs gs)) \<inter> {dest, me} = {}" unfolding all others_def by auto
  ultimately show "distinct (concat (map Addrs gs) @ [dest, me])" using assms(8) by auto
  have "size (group_pairs gs) \<le> length nodes" unfolding gs(3) size unfolding ns others_def by simp
  then show "(\<Sum>g\<leftarrow>gs. length (PubKeys g)) \<le> length (rows db)"
    using size_group_pairs [OF gs(2)] mset_eq_length [OF nodes] by simp
  have "length ?ns \<le> length (try_candidates C e dest n keys)" by (simp add: available_def)
  with len hops(2) show "length (try_candidates C e dest n keys) \<ge> h" by simp
qed


lemma super_built:
  assumes "crypto_sep C" and "GenerateMsgID [] r = Ok (msgID, r1)" and "nack_ids (length route) r1 = Ok (nacks, r2)"
    and "route \<noteq> []" and "length returnRoute \<le> length route"
    and "\<forall>g \<in> set route \<union> set returnRoute. PubKeys g \<noteq> [] \<and> list_all (\<lambda>pk. \<exists>sk. pk = PublicOf C sk) (PubKeys g)"
    and "group_cost route + group_cost returnRoute \<le> length r2"
  obtains onion r3 where "Encapsulator_func_super C message route returnRoute sender r = Ok ((onion, msgID, hd nacks), r3)"
proof -
  from super_iff_members [OF assms(1-5) _ assms(7)] assms(6) obtain onion i nf r3 where
    enc: "Encapsulator_func_super C message route returnRoute sender r = Ok ((onion, i, nf), r3)" by fastforce
  from super_encapsulated_package [OF assms(1) enc] assms(2,3) have "i = msgID" "nf = hd nacks" by auto
  with enc that show thesis by simp
qed

lemma group_cost_simps [simp]:
  "group_cost (gs @ hs) = group_cost gs + group_cost hs"
  "group_cost [g] = 44 + 32 * length (PubKeys g)" "group_cost (rev gs) = group_cost gs"
  by (simp_all add: group_cost_def rev_map [symmetric] sum_list_rev)

lemma group_cost_bound: "group_cost gs = 44 * length gs + 32 * (\<Sum>g\<leftarrow>gs. length (PubKeys g))"
  by (induction gs) (simp_all add: group_cost_def)

lemma live_super_attempt:
  assumes "crypto_sep C" and "sqlite_laws S rows" and "working S" and live: "live C reach net (rows db)"
    and "score_sorter sorter" and me: "me = node_address n" "{me, dest} \<subseteq> node_addr ` set (rows db)" "dest \<noteq> me"
    and own: "net me = Some n" "PublicKey n = PublicOf C (PrivateKey n)"
    and h: "h = nat (max MinClusters k)" "h \<le> length (others ({me, dest} \<union> set failed) (rows db))"
    and dir: "ListAsk e = dir_ask S denv db" "KeyAsk e 0 = dir_ask S denv' db"
    and clusters: "BuildSmartClusters C sorter (try_candidates C e dest n keys) h failed (Picks e) = Ok (gs, rel)"
    and ids: "GenerateMsgID [] (Bytes e) = Ok (msgID, r1)" "nack_ids (Suc h) r1 = Ok (nacks, r2)"
    and rand: "88 * h + 64 * length (rows db) + 152 \<le> length r2"
  obtains destKey keys' onion r3 where "right_key C net dest destKey"
    and "Encapsulator_func_super C message (gs @ [\<lparr>Addrs = [dest], PubKeys = [destKey]\<rparr>])
      (rev gs @ [\<lparr>Addrs = [me], PubKeys = [PublicKey n]\<rparr>]) me (Bytes e) = Ok ((onion, msgID, hd nacks), r3)"
    and "super_attempt C sorter e dest message k failed n keys =
      (let (n', failed', out, a) = launch_group e (max MinClusters k) (Addrs (hd gs)) failed (onion, msgID, hd nacks) n
       in Ok (n', keys', failed', out, a))"
proof -
  have laws: "crypto_laws C" using assms(1) by (simp add: crypto_sep_def)
  have h0: "0 < h" "int h = max MinClusters k" using h(1) by auto
  note cl = live_clusters [OF laws assms(2,3) live assms(5) me h0(1) h(2) dir(1) clusters]
  from me(2) obtain i where "i \<in> set (rows db)" "dest = node_addr i" by auto
  with live_key [OF laws assms(2,3) live, of i denv'] obtain destKey where
    key: "FetchKeyFromServer C (KeyAsk e 0) dest = Ok destKey" "right_key C net dest destKey" using dir(2) by metis
  let ?dest = "\<lparr>Addrs = [dest], PubKeys = [destKey]\<rparr>" and ?me = "\<lparr>Addrs = [me], PubKeys = [PublicKey n]\<rparr>"
  have cost: "group_cost (gs @ [?dest]) + group_cost (rev gs @ [?me]) \<le> length r2"
    using rand cl(1,4) group_cost_bound [of gs] by simp
  have keys: "\<forall>g \<in> set (gs @ [?dest]) \<union> set (rev gs @ [?me]). PubKeys g \<noteq> [] \<and> list_all (\<lambda>pk. \<exists>sk. pk = PublicOf C sk) (PubKeys g)"
    using cl(3) key(2) own(2) by (auto simp: right_key_def)
  have ids2: "nack_ids (length (gs @ [?dest])) r1 = Ok (nacks, r2)" using ids(2) cl(1) by simp
  from super_built [OF assms(1) ids(1) ids2 _ _ keys cost, of message me] obtain onion r3 where
    enc: "Encapsulator_func_super C message (gs @ [?dest]) (rev gs @ [?me]) me (Bytes e) = Ok ((onion, msgID, hd nacks), r3)"
    by auto
  have gs: "gs \<noteq> []" using cl(1) h0(1) by auto
  then have hd: "(gs @ [?dest]) ! 0 = hd gs" by (cases gs) auto
  have build: "super_build C sorter e dest message (max MinClusters k) failed (try_candidates C e dest n keys) n =
    Ok (Addrs (hd gs), onion, msgID, hd nacks)"
    using clusters key(1) enc hd unfolding super_build_def super_route_def h(1) me(1) by simp
  have "rows db \<noteq> []" using me(2) by auto
  from try_candidates_live [OF laws assms(2,3) live this dir(1), of dest n keys] obtain l where
    l: "Node_GetNodesList (ListAsk e) = Ok l" "l \<noteq> ''LIST:empty''" by metis
  obtain cands keys' where cands: "super_candidates C (node_address n) dest (\<lambda>i. snd (Clock e i)) 0
    (Split comma (TrimPrefix l ''LIST:'')) keys = (cands, keys')" by fastforce
  then have "cands = try_candidates C e dest n keys" using l(1) by (simp add: try_candidates_def)
  moreover have "(if k < MinClusters then MinClusters else k) = max MinClusters k" by auto
  moreover have "\<not> int (length (try_candidates C e dest n keys)) < max MinClusters k" using cl(5) h0(2) by linarith
  ultimately have "super_attempt C sorter e dest message k failed n keys =
      (let (n', failed', out, a) = launch_group e (max MinClusters k) (Addrs (hd gs)) failed (onion, msgID, hd nacks) n
       in Ok (n', keys', failed', out, a))"
    using l cands build by (simp add: super_attempt_def)
  with that key(2) enc show thesis by blast
qed


section \<open>The whole super send\<close>

lemma live_group_ready:
  assumes "\<forall>a \<in> set (Addrs g). wire_addr a \<and> (\<exists>nd. net a = Some nd \<and> PublicOf C (PrivateKey nd) \<in> set (PubKeys g))"
    and "\<exists>a \<in> set (Addrs g). up a" and "net me = Some n" and "PrivateKey n1 = PrivateKey n"
  shows "group_ready C up (net(me \<mapsto> n1)) g"
  using assms by (auto simp: group_ready_def)

lemma live_wire:
  assumes "live C up net infos" and "a \<in> node_addr ` set infos"
  shows "wire_addr a"
proof -
  from assms obtain i where "a = node_addr i" "live_row C up net i" by (auto simp: live_def)
  with live_addr(1) show ?thesis by blast
qed

text \<open>The clusters of relays, the recipient and the sender, each with a reachable member.\<close>

lemma live_groups_ready:
  assumes "\<forall>g \<in> set gs. \<forall>a \<in> set (Addrs g). wire_addr a \<and> (\<exists>nd. net a = Some nd \<and> PublicOf C (PrivateKey nd) \<in> set (PubKeys g))"
    and "up me" "up dest" "\<forall>g \<in> set gs. \<exists>a \<in> set (Addrs g). up a" and "wire_addr me" "wire_addr dest"
    and "right_key C net dest destKey" and "net me = Some n" "PublicKey n = PublicOf C (PrivateKey n)" "PrivateKey n1 = PrivateKey n"
  shows "\<forall>g \<in> set (gs @ [\<lparr>Addrs = [dest], PubKeys = [destKey]\<rparr>, \<lparr>Addrs = [me], PubKeys = [PublicKey n]\<rparr>]).
    group_ready C up (net(me \<mapsto> n1)) g"
proof
  fix g
  assume "g \<in> set (gs @ [\<lparr>Addrs = [dest], PubKeys = [destKey]\<rparr>, \<lparr>Addrs = [me], PubKeys = [PublicKey n]\<rparr>])"
  then consider "g \<in> set gs" | "g = \<lparr>Addrs = [dest], PubKeys = [destKey]\<rparr>" | "g = \<lparr>Addrs = [me], PubKeys = [PublicKey n]\<rparr>" by auto
  then have "(\<forall>a \<in> set (Addrs g). wire_addr a \<and> (\<exists>nd. net a = Some nd \<and> PublicOf C (PrivateKey nd) \<in> set (PubKeys g))) \<and>
      (\<exists>a \<in> set (Addrs g). up a)"
    by cases (use assms in \<open>auto simp: right_key_def\<close>)
  then show "group_ready C up (net(me \<mapsto> n1)) g" using live_group_ready assms(8,10) by blast
qed

text \<open>
  C5: an \<open>SSEND\<close> succeeds at the first try when every cluster it forms has a reachable member, and the
  sender and the recipient are reachable. The nodes at the registered addresses hold the registered
  keys, at least as many of them as there are clusters (never fewer than three) are not blacklisted,
  and any of them may be down as long as no cluster is down as a whole: the members of the first
  cluster are tried in order until one accepts, the recipient, and nobody else, receives the message,
  and an acknowledgement is reported.
\<close>

theorem SSEND_delivers:
  assumes e: "E t = e" and "crypto_sep C" and "sqlite_laws S rows" and "working S" and live: "live C (\<lambda>_. True) net (rows db)"
    and "score_sorter sorter" and me: "me = node_address n" "{me, dest} \<subseteq> node_addr ` set (rows db)" "dest \<noteq> me"
    and own: "net me = Some n" "PublicKey n = PublicOf C (PrivateKey n)"
    and h: "h = nat (max MinClusters k)" "h \<le> length (others ({me, dest} \<union> set failed) (rows db))"
    and dir: "ListAsk e = dir_ask S denv db" "KeyAsk e 0 = dir_ask S denv' db"
    and clusters: "BuildSmartClusters C sorter (try_candidates C e dest n keys) h failed (Picks e) = Ok (gs, rel)"
    and up: "up me" "up dest" "\<forall>g \<in> set gs. \<exists>a \<in> set (Addrs g). up a"
    and dial: "Dial e = up" and mw: "Meanwhile e = carry C up es me net" and len: "length es = 2 * h + 2"
    and ids: "GenerateMsgID [] (Bytes e) = Ok (msgID, r1)" "nack_ids (Suc h) r1 = Ok (nacks, r2)" "distinct nacks"
    and rand: "88 * h + 64 * length (rows db) + 152 \<le> length r2"
    and unseen: "fresh (insert msgID (pair_ids nacks \<union> pair_ids (rev nacks))) net UNIV"
    and t: "t < maxRetries"
  shows "\<exists>net' n' keys' pre b onion.
    SendWithRetrySuper C sorter E dest message k maxRetries t failed n keys =
      Ok (n', keys', [map (\<lambda>a. (a, onion, False)) pre @ [(b, onion, True)]], ACK t) \<and>
    run_net C up es [(b, onion)] (net(me \<mapsto> register_ack (NewChan e) msgID (hd nacks) n)) = Ok (net', []) \<and>
    receives dest message net net'"
proof -
  have laws: "crypto_laws C" using assms(2) by (simp add: crypto_sep_def)
  have h0: "0 < h" using h(1) by auto
  note cl = live_clusters [OF laws assms(3,4) live assms(6) me h0 h(2) dir(1) clusters]
  from live_super_attempt [OF assms(2-4) live assms(6) me own h dir clusters ids(1,2) rand] obtain destKey keys' onion r3 where
    key: "right_key C net dest destKey"
    and enc: "Encapsulator_func_super C message (gs @ [\<lparr>Addrs = [dest], PubKeys = [destKey]\<rparr>])
      (rev gs @ [\<lparr>Addrs = [me], PubKeys = [PublicKey n]\<rparr>]) me (Bytes e) = Ok ((onion, msgID, hd nacks), r3)"
    and att: "super_attempt C sorter e dest message k failed n keys =
      (let (n', failed', out, a) = launch_group e (max MinClusters k) (Addrs (hd gs)) failed (onion, msgID, hd nacks) n
       in Ok (n', keys', failed', out, a))" .
  let ?dest = "\<lparr>Addrs = [dest], PubKeys = [destKey]\<rparr>" and ?me = "\<lparr>Addrs = [me], PubKeys = [PublicKey n]\<rparr>"
  have gs: "gs \<noteq> []" using cl(1) h0 by auto
  then have hd: "hd gs \<in> set gs" "hd (gs @ [?dest]) = hd gs" by (cases gs; simp)+
  with up(3) have "\<exists>a \<in> set (Addrs (hd gs)). up a" by blast
  from try_group_up [OF this, of onion failed] obtain pre b where tg: "try_group (\<lambda>_. up) (Addrs (hd gs)) onion failed [] =
      (True, failed @ pre, map (\<lambda>a. (a, onion, False)) pre @ [(b, onion, True)])" and b: "b \<in> set (Addrs (hd gs))" "up b" .
  let ?n1 = "register_ack (NewChan e) msgID (hd nacks) n"
  let ?net1 = "net(me \<mapsto> ?n1)"
  have mid: "msgID \<noteq> hd nacks" using msgID_not_nack [OF ids(1,2)] .
  have wire: "wire_addr me" "wire_addr dest" using live_wire [OF live] me(2) by auto
  have cl3: "\<forall>g \<in> set gs. \<forall>a \<in> set (Addrs g). wire_addr a \<and> (\<exists>nd. net a = Some nd \<and> PublicOf C (PrivateKey nd) \<in> set (PubKeys g))"
    using cl(3) by blast
  have ready: "\<forall>g \<in> set (gs @ [?dest, ?me]). group_ready C up ?net1 g"
    by (rule live_groups_ready [OF cl3 up wire key own]) (simp add: register_ack_def)
  have dist: "distinct (concat (map Addrs (gs @ [?dest, ?me])))" using cl(2) by simp
  have ids2: "nack_ids (Suc (length gs)) r1 = Ok (nacks, r2)" "length es = 2 * length gs + 2" using ids(2) cl(1) len by simp_all
  have unseen1: "fresh (insert msgID (pair_ids nacks \<union> pair_ids (rev nacks))) ?net1 (set (concat (map Addrs (gs @ [?dest]))))"
    using fresh_registered [where net = net, OF unseen own(1)] by (simp add: fresh_def)
  have b': "b \<in> set (Addrs (hd (gs @ [?dest])))" using b(1) hd(2) by simp
  have me_ready: "sender_ready me msgID (NewChan e) ?net1" by (rule registered_ready [OF wire(1) mid])
  from group_onion_delivers [OF assms(2) enc ids(1) ids2(1) ids(3) _ _ dist ready unseen1 me_ready ids2(2) b' b(2)]
  obtain net' where run: "run_net C up es [(b, onion)] ?net1 = Ok (net', [])"
    and got: "receives dest message ?net1 net'" and ack: "only_acked me msgID (NewChan e) ?net1 net'" by auto
  have "SendWithRetrySuper C sorter E dest message k maxRetries t failed n keys =
      Ok (ack_taken (NewChan e) msgID ?n1, keys', [map (\<lambda>a. (a, onion, False)) pre @ [(b, onion, True)]], ACK t)"
    using att t e tg dial mw ack_comes_home [OF run ack]
    by (simp add: SendWithRetrySuper_step launch_group_def del: fun_upd_apply)
  moreover have "receives dest message net net'" using receives_upd [where net = net, OF got own(1)] by (simp add: register_ack_def)
  ultimately show ?thesis using run by blast
qed

text \<open>
  C37: the blacklist of \<open>SSEND\<close> holds: over all tries, whatever the network and the directory do, an
  address that refused a connection in some try, or was blacklisted from the start, is never
  contacted in a later try; and there are no more tries than allowed.
\<close>

theorem SSEND_blacklist:
  assumes "score_sorter sorter"
    and "SendWithRetrySuper C sorter E dest message k maxRetries t failed n keys = Ok (n', keys', outs, rep)"
  shows "sorted_wrt (\<lambda>earlier later. fst ` set later \<inter> set (refused earlier) = {}) outs \<and>
    (\<forall>out \<in> set outs. fst ` set out \<inter> set failed = {}) \<and> length outs \<le> nat (maxRetries - t)"
  using SSEND_log [OF assms] .


section \<open>At concrete inputs\<close>

definition super_demo_rows :: "NodeInfo list" where
  "super_demo_rows = [live_demo_row ''b'' 2, live_demo_row ''d'' 4, live_demo_row ''a'' 1, live_demo_row ''e'' 5, live_demo_row ''f'' 6]"

definition super_demo_net :: "(nat, nat) net" where
  "super_demo_net = [''a:1'' \<mapsto> live_demo_node ''a'' 1, ''b:2'' \<mapsto> live_demo_node ''b'' 2, ''d:4'' \<mapsto> live_demo_node ''d'' 4,
     ''e:5'' \<mapsto> live_demo_node ''e'' 5, ''f:6'' \<mapsto> live_demo_node ''f'' 6]"

definition super_demo_rng :: rng where
  "super_demo_rng = replicate 10 (CHR ''0'') @ replicate 10 (CHR ''1'') @ replicate 10 (CHR ''2'') @ replicate 10 (CHR ''3'') @
     replicate 10 (CHR ''4'') @ replicate 800 (CHR ''r'')"

definition super_demo_try :: "((addr \<times> string) \<Rightarrow> (nat, nat) Node \<times> nat KeyCache \<Rightarrow> (nat, nat) Node \<times> nat KeyCache) \<Rightarrow> (addr \<Rightarrow> bool) \<Rightarrow> (nat, nat) try_env" where
  "super_demo_try mw up = \<lparr>ListAsk = dir_ask list_db demo_denv super_demo_rows, KeyAsk = (\<lambda>_. dir_ask list_db demo_denv super_demo_rows),
     Clock = (\<lambda>_. (5, 5)), Picks = [0], Bytes = super_demo_rng, NewChan = 0, Dial = up, Meanwhile = mw\<rparr>"

lemma super_demo_try_fields [simp]:
  "ListAsk (super_demo_try mw up) = dir_ask list_db demo_denv super_demo_rows"
  "KeyAsk (super_demo_try mw up) i = dir_ask list_db demo_denv super_demo_rows" "Bytes (super_demo_try mw up) = super_demo_rng"
  "NewChan (super_demo_try mw up) = 0" "Dial (super_demo_try mw up) = up" "Meanwhile (super_demo_try mw up) = mw"
  by (simp_all add: super_demo_try_def)

abbreviation demo_nack_id :: "nat \<Rightarrow> string" where
  "demo_nack_id d \<equiv> ''nack-'' @ replicate 10 (digit d)"

lemma demo_msg_id: "d = of_char b mod 16 \<Longrightarrow> d < 10 \<Longrightarrow>
    GenerateMsgID [] (replicate 10 b @ r) = Ok (''msg-'' @ replicate 10 (digit d), r)"
  and demo_nack_id: "d = of_char b mod 16 \<Longrightarrow> d < 10 \<Longrightarrow>
    GenerateMsgID [''nack''] (replicate 10 b @ r) = Ok (demo_nack_id d, r)"
  by (simp_all add: GenerateMsgID_def id_digits_replicate del: replicate.simps)

lemma super_demo_ids:
  "GenerateMsgID [] super_demo_rng = Ok (''msg-'' @ replicate 10 (digit 0), drop 10 super_demo_rng)"
  "nack_ids (Suc 3) (drop 10 super_demo_rng) =
     Ok ([demo_nack_id 1, demo_nack_id 2, demo_nack_id 3, demo_nack_id 4], replicate 800 (CHR ''r''))"
proof -
  show "GenerateMsgID [] super_demo_rng = Ok (''msg-'' @ replicate 10 (digit 0), drop 10 super_demo_rng)"
    using demo_msg_id [of 0 "CHR ''0''"] by (simp add: super_demo_rng_def)
  have "drop 10 super_demo_rng = replicate 10 (CHR ''1'') @ replicate 10 (CHR ''2'') @ replicate 10 (CHR ''3'') @
     replicate 10 (CHR ''4'') @ replicate 800 (CHR ''r'')" by (simp add: super_demo_rng_def)
  moreover have "1 = of_char (CHR ''1'') mod (16::nat)" "2 = of_char (CHR ''2'') mod (16::nat)"
    "3 = of_char (CHR ''3'') mod (16::nat)" "4 = of_char (CHR ''4'') mod (16::nat)" by simp_all
  note this [THEN demo_nack_id, simplified]
  ultimately show "nack_ids (Suc 3) (drop 10 super_demo_rng) =
     Ok ([demo_nack_id 1, demo_nack_id 2, demo_nack_id 3, demo_nack_id 4], replicate 800 (CHR ''r''))"
    by (simp add: numeral_3_eq_3 del: replicate.simps append.simps)
qed

lemma super_demo_texts: "Itoa 5 = ''5''" "Itoa 6 = ''6''"
  by code_simp+

lemma super_demo_live: "live ideal_crypto (\<lambda>_. True) super_demo_net super_demo_rows"
proof -
  have row: "live_row ideal_crypto (\<lambda>_. True) super_demo_net (live_demo_row ip p)"
    if "pipe \<notin> set ip" "comma \<notin> set ip" "nl \<notin> set ip" "colon \<notin> set ip" "0 < p" "p < 2 ^ 63"
      "super_demo_net (ip @ '':'' @ Itoa p) = Some (live_demo_node ip p)" for ip p
    using live_demo_row_in [where net = super_demo_net, OF that] .
  have "\<forall>i \<in> set super_demo_rows. live_row ideal_crypto (\<lambda>_. True) super_demo_net i"
    unfolding super_demo_rows_def list.set ball_simps
    by (intro conjI TrueI row; simp add: demo_texts super_demo_texts super_demo_net_def)
  then show ?thesis
    by (simp add: live_def super_demo_rows_def live_demo_addr demo_texts super_demo_texts)
qed

lemma super_demo_sender: "super_demo_net ''a:1'' = Some (live_demo_node ''a'' 1)"
  by (simp add: super_demo_net_def)

lemma super_demo_addrs: "node_addr ` set super_demo_rows = {''a:1'', ''b:2'', ''d:4'', ''e:5'', ''f:6''}"
  "length (others {''a:1'', ''d:4''} super_demo_rows) = 3" "length super_demo_rows = 5"
  by (auto simp: super_demo_rows_def others_def live_demo_addr demo_texts super_demo_texts)

lemma super_demo_setting:
  "3 = nat (max MinClusters 2)" "3 \<le> length (others ({''a:1'', ''d:4''} \<union> set []) super_demo_rows)"
  "super_demo_net ''a:1'' = Some (live_demo_node ''a'' 1)"
  "PublicKey (live_demo_node ''a'' 1) = PublicOf ideal_crypto (PrivateKey (live_demo_node ''a'' 1))"
  "''a:1'' = node_address (live_demo_node ''a'' 1)" "{''a:1'', ''d:4''} \<subseteq> node_addr ` set super_demo_rows" "''d:4'' \<noteq> ''a:1''"
  using super_demo_addrs live_demo_sender super_demo_sender
  by (simp_all add: insert_commute live_demo_node_def NewNode_def)

lemma super_demo_clusters:
  obtains gs rel where "BuildSmartClusters ideal_crypto stable_sorter
      (try_candidates ideal_crypto (super_demo_try mw up) ''d:4'' (live_demo_node ''a'' 1) Map.empty) 3 [] (Picks (super_demo_try mw up)) = Ok (gs, rel)"
    and "gs \<noteq> []" "\<forall>g \<in> set gs. Addrs g \<noteq> []"
proof -
  let ?e = "super_demo_try mw up" and ?n = "live_demo_node ''a'' 1"
  let ?cands = "try_candidates ideal_crypto ?e ''d:4'' ?n Map.empty"
  obtain gs where gs: "BuildSmartClusters ideal_crypto stable_sorter ?cands 3 [] (Picks ?e) =
      Ok (gs, usable_score ideal_crypto (available [] ?cands) / of_nat 3)"
    using BuildSmartClusters_result [OF stable_sorter.score_sorter_axioms _ refl, of 3 ideal_crypto ?cands "[]" "Picks ?e"] by auto
  note cl = live_clusters [where net = super_demo_net and S = list_db and rows = "\<lambda>rs. rs" and db = super_demo_rows
      and h = 3 and up = "\<lambda>_. True" and me = "''a:1''" and dest = "''d:4''" and failed = "[]" and e = ?e, OF ideal.crypto_laws_axioms list_db.sqlite_laws_axioms list_db_working super_demo_live
      stable_sorter.score_sorter_axioms super_demo_setting(5-7) zero_less_numeral super_demo_setting(2) super_demo_try_fields(1) gs]
  have wf: "wf_groups gs" using BuildSmartClusters_same(2) [OF stable_sorter.score_sorter_axioms zero_less_numeral gs] .
  have "Addrs g \<noteq> []" if "g \<in> set gs" for g
  proof -
    have "length (Addrs g) = length (PubKeys g)" using wf that by (simp add: wf_groups_def)
    moreover have "PubKeys g \<noteq> []" using cl(3) that by blast
    ultimately show ?thesis by auto
  qed
  then have members: "\<forall>g \<in> set gs. Addrs g \<noteq> []" by blast
  have "gs \<noteq> []" using cl(1) by auto
  from that [OF gs this members] show thesis .
qed

theorem SSEND_delivers_witness:
  "\<exists>net' n' keys' out.
     SendWithRetrySuper ideal_crypto stable_sorter
       (\<lambda>_. super_demo_try (carry ideal_crypto (\<lambda>_. True) (replicate 8 ([1], 7)) ''a:1'' super_demo_net) (\<lambda>_. True))
       ''d:4'' ''hello'' 2 3 0 [] (live_demo_node ''a'' 1) Map.empty = Ok (n', keys', [out], ACK 0) \<and>
     receives ''d:4'' ''hello'' super_demo_net net'"
proof -
  let ?e = "super_demo_try (carry ideal_crypto (\<lambda>_. True) (replicate 8 ([1], 7)) ''a:1'' super_demo_net) (\<lambda>_. True)"
  obtain gs rel where gs: "BuildSmartClusters ideal_crypto stable_sorter
      (try_candidates ideal_crypto ?e ''d:4'' (live_demo_node ''a'' 1) Map.empty) 3 [] (Picks ?e) = Ok (gs, rel)"
    and members: "\<forall>g \<in> set gs. Addrs g \<noteq> []" by (rule super_demo_clusters)
  have up: "\<forall>g \<in> set gs. \<exists>a \<in> set (Addrs g). True" using members by (simp add: ex_in_conv)
  have "fresh ids super_demo_net UNIV" for ids
    by (auto simp: fresh_def super_demo_net_def live_demo_node_def NewNode_def split: if_splits)
  note fresh = this
  have len: "length (replicate 8 x) = 2 * 3 + 2" for x :: "draws \<times> time" by simp
  have "\<exists>net' n' keys' pre b onion.
    SendWithRetrySuper ideal_crypto stable_sorter (\<lambda>_. ?e) ''d:4'' ''hello'' 2 3 0 [] (live_demo_node ''a'' 1) Map.empty =
      Ok (n', keys', [map (\<lambda>a. (a, onion, False)) pre @ [(b, onion, True)]], ACK 0) \<and>
    run_net ideal_crypto (\<lambda>_. True) (replicate 8 ([1], 7)) [(b, onion)]
      (super_demo_net(''a:1'' \<mapsto> register_ack (NewChan ?e) (''msg-'' @ replicate 10 (digit 0))
        (hd [demo_nack_id 1, demo_nack_id 2, demo_nack_id 3, demo_nack_id 4]) (live_demo_node ''a'' 1))) = Ok (net', []) \<and>
    receives ''d:4'' ''hello'' super_demo_net net'"
    by (rule SSEND_delivers [where E = "\<lambda>_. ?e" and t = 0 and e = ?e and net = super_demo_net and S = list_db and rows = "\<lambda>rs. rs"
          and db = super_demo_rows and h = 3 and k = 2 and up = "\<lambda>_. True" and me = "''a:1''" and dest = "''d:4''" and failed = "[]", OF refl ideal.crypto_sep_axioms list_db.sqlite_laws_axioms list_db_working super_demo_live
          stable_sorter.score_sorter_axioms super_demo_setting(5-7,3,4,1,2) super_demo_try_fields(1,2) gs
          _ _ up _ _ len _ super_demo_ids(2) _ _ fresh])
      (simp_all add: super_demo_addrs(3) super_demo_ids(1) digit_def)
  then show ?thesis by blast
qed

theorem SSEND_blacklist_witness:
  "\<exists>n' keys' out.
     SendWithRetrySuper ideal_crypto stable_sorter (\<lambda>_. super_demo_try (\<lambda>_ s. s) (\<lambda>_. False)) ''d:4'' ''hello'' 2 1 0 []
       (live_demo_node ''a'' 1) Map.empty = Ok (n', keys', [out], ABANDON 1) \<and> length [out] \<le> nat (1 - 0)"
proof -
  let ?e = "super_demo_try (\<lambda>_ s. s) (\<lambda>_. False)"
  obtain gs rel where gs: "BuildSmartClusters ideal_crypto stable_sorter
      (try_candidates ideal_crypto ?e ''d:4'' (live_demo_node ''a'' 1) Map.empty) 3 [] (Picks ?e) = Ok (gs, rel)"
    by (rule super_demo_clusters)
  have len: "88 * 3 + 64 * length super_demo_rows + 152 \<le> length (replicate 800 (CHR ''r''))" by (simp add: super_demo_addrs(3))
  from super_demo_ids(1) have ids: "GenerateMsgID [] (Bytes ?e) = Ok (''msg-'' @ replicate 10 (digit 0), drop 10 super_demo_rng)" by simp
  obtain destKey keys' onion r3 where "super_attempt ideal_crypto stable_sorter ?e ''d:4'' ''hello'' 2 [] (live_demo_node ''a'' 1) Map.empty =
      (let (n', failed', out, a) = launch_group ?e (max MinClusters 2) (Addrs (hd gs)) []
         (onion, ''msg-'' @ replicate 10 (digit 0), hd [demo_nack_id 1, demo_nack_id 2, demo_nack_id 3, demo_nack_id 4]) (live_demo_node ''a'' 1)
       in Ok (n', keys', failed', out, a))"
    by (rule live_super_attempt [where net = super_demo_net and S = list_db and rows = "\<lambda>rs. rs" and db = super_demo_rows
          and h = 3 and k = 2 and reach = "\<lambda>_. True" and me = "''a:1''" and dest = "''d:4''" and failed = "[]" and e = ?e, OF ideal.crypto_sep_axioms list_db.sqlite_laws_axioms list_db_working super_demo_live
          stable_sorter.score_sorter_axioms super_demo_setting(5-7,3,4,1,2) super_demo_try_fields(1,2) gs ids super_demo_ids(2) len])
  moreover have "\<exists>f out. try_group (\<lambda>_ _. False) as onion failed out0 = (False, f, out)" for as failed out0
    by (induction as arbitrary: failed out0) (auto simp: SendTo_def Let_def)
  then obtain f out where "try_group (\<lambda>_ _. False) (Addrs (hd gs)) onion [] [] = (False, f, out)" by blast
  ultimately have "\<exists>n'. SendWithRetrySuper ideal_crypto stable_sorter (\<lambda>_. ?e) ''d:4'' ''hello'' 2 1 0 [] (live_demo_node ''a'' 1) Map.empty =
    Ok (n', keys', [out], ABANDON 1)"
    by (simp add: SendWithRetrySuper_step launch_group_def) (simp add: SendWithRetrySuper.simps)
  then obtain n' where run: "SendWithRetrySuper ideal_crypto stable_sorter (\<lambda>_. ?e) ''d:4'' ''hello'' 2 1 0 [] (live_demo_node ''a'' 1) Map.empty =
    Ok (n', keys', [out], ABANDON 1)" by blast
  from SSEND_blacklist [OF stable_sorter.score_sorter_axioms run] run show ?thesis by blast
qed

end
