(* ===== verification/Locks.thy ===== *)
theory Locks
  imports Send
begin

text \<open>
  The mutex \<open>Mu\<close> of a node. Everything that reads or writes \<open>PendingACKs\<close> and \<open>PendingRelays\<close> does so in a
  critical section, and the handlers of NACK lines and ACK layers send on the channel of a waiting
  goroutine while they are inside. Here the sections of different goroutines are steps of their own:
  waiting for the lock, entering, leaving, and the steps of the goroutine that waits for an answer.
\<close>

section \<open>Critical sections\<close>

text \<open>
  A NACK line, an ACK layer, the registration of a new channel under two identifiers, their removal, and
  a RELAY handler that sets or deletes its entry.
\<close>

datatype mu_section =
    NackSection string
  | AckSection OnionLayer
  | Register nat string string
  | Forget string string
  | RelaySection string "Nackstruct option"

text \<open>The sends of a NACK handler come after its section; they do not matter here.\<close>

fun critical :: "mu_section \<Rightarrow> ('pk, 'sk) Node \<Rightarrow> ('pk, 'sk) Node res" where
  "critical (NackSection i) n = bind_res (handle_nack (\<lambda>_ _. False) i n) (\<lambda>(n', _, _). Ok n')"
| "critical (AckSection l) n = bind_res (handle_ack l n) (\<lambda>(n', _, _). Ok n')"
| "critical (Register ch msgID firstNackID) n = Ok (register_ack ch msgID firstNackID n)"
| "critical (Forget msgID firstNackID) n = Ok (forget_ack msgID firstNackID n)"
| "critical (RelaySection i r) n = Ok (n\<lparr>PendingRelays := (PendingRelays n)(i := r)\<rparr>)"

text \<open>
  The goroutine of a channel: not there yet, registering, sending the onion, in its \<open>select\<close>, done after
  an answer, or done without one, after the eight seconds or because the onion could not be sent.
\<close>

datatype waiter = Unused | Registering | Sending string string | Selecting string string | Answered | GaveUp

record ('pk, 'sk) locked =
  Holder :: "mu_section option"
  Waiting :: "mu_section multiset"
  Guarded :: "('pk, 'sk) Node"
  Waiters :: "nat \<Rightarrow> waiter"

fun left_section :: "mu_section \<Rightarrow> (nat \<Rightarrow> waiter) \<Rightarrow> nat \<Rightarrow> waiter" where
  "left_section (Register ch msgID firstNackID) W = W(ch := Sending msgID firstNackID)"
| "left_section _ W = W"

text \<open>
  A handler that cannot send stays inside. Both ready cases of a \<open>select\<close> may be taken; an acknowledgement
  leaves the entries as they are, the other outcomes remove them, in a section of their own.
\<close>

inductive move :: "('pk, 'sk) locked \<Rightarrow> ('pk, 'sk) locked \<Rightarrow> bool" where
  arrive: "s = NackSection i \<or> s = AckSection l \<or> s = RelaySection i r \<Longrightarrow>
    move st (st\<lparr>Waiting := add_mset s (Waiting st)\<rparr>)"
| send: "Waiters st ch = Unused \<Longrightarrow>
    move st (st\<lparr>Waiting := add_mset (Register ch msgID firstNackID) (Waiting st), Waiters := (Waiters st)(ch := Registering)\<rparr>)"
| lock: "Holder st = None \<Longrightarrow> s \<in># Waiting st \<Longrightarrow> move st (st\<lparr>Holder := Some s, Waiting := Waiting st - {#s#}\<rparr>)"
| unlock: "Holder st = Some s \<Longrightarrow> critical s (Guarded st) = Ok n' \<Longrightarrow>
    move st (st\<lparr>Holder := None, Guarded := n', Waiters := left_section s (Waiters st)\<rparr>)"
| sent: "Waiters st ch = Sending msgID firstNackID \<Longrightarrow>
    move st (st\<lparr>Waiters := (Waiters st)(ch := Selecting msgID firstNackID)\<rparr>)"
| unsent: "Waiters st ch = Sending msgID firstNackID \<Longrightarrow>
    move st (st\<lparr>Waiting := add_mset (Forget msgID firstNackID) (Waiting st), Waiters := (Waiters st)(ch := GaveUp)\<rparr>)"
| receive: "Waiters st ch = Selecting msgID firstNackID \<Longrightarrow> Chans (Guarded st) ch = v # vs \<Longrightarrow>
    move st (st\<lparr>Waiting := (if v then Waiting st else add_mset (Forget msgID firstNackID) (Waiting st)),
      Guarded := (Guarded st)\<lparr>Chans := (Chans (Guarded st))(ch := vs)\<rparr>, Waiters := (Waiters st)(ch := Answered)\<rparr>)"
| timeout: "Waiters st ch = Selecting msgID firstNackID \<Longrightarrow>
    move st (st\<lparr>Waiting := add_mset (Forget msgID firstNackID) (Waiting st), Waiters := (Waiters st)(ch := GaveUp)\<rparr>)"

inductive_cases move_cases: "move st st'"

abbreviation moves :: "('pk, 'sk) locked \<Rightarrow> ('pk, 'sk) locked \<Rightarrow> bool" where
  "moves \<equiv> move\<^sup>*\<^sup>*"

text \<open>A node without pending answers, as \<open>NewNode\<close> makes it.\<close>

definition unlocked :: "('pk, 'sk) Node \<Rightarrow> ('pk, 'sk) locked" where
  "unlocked n = \<lparr>Holder = None, Waiting = {#}, Guarded = n, Waiters = (\<lambda>_. Unused)\<rparr>"

definition quiescent :: "('pk, 'sk) Node \<Rightarrow> bool" where
  "quiescent n \<longleftrightarrow> PendingACKs n = Map.empty \<and> (\<forall>ch. Chans n ch = [])"


section \<open>Who blocks whom\<close>

text \<open>The channel a section is about to send on.\<close>

fun target :: "mu_section \<Rightarrow> ('pk, 'sk) Node \<Rightarrow> nat option" where
  "target (NackSection i) n = PendingACKs n i"
| "target (AckSection l) n = PendingACKs n (MsgID l)"
| "target _ n = None"

fun target_id :: "mu_section \<Rightarrow> string" where
  "target_id (NackSection i) = i"
| "target_id (AckSection l) = MsgID l"
| "target_id _ = []"

lemma critical_cases:
  obtains (sends) ch v where "target s n = Some ch" "Chans n ch = []" "PendingACKs n (target_id s) = Some ch"
      "critical s n = Ok (n\<lparr>Chans := (Chans n)(ch := [v]), PendingACKs := (PendingACKs n)(target_id s := None)\<rparr>)"
      "left_section s = (\<lambda>W. W)"
  | (blocked) ch where "target s n = Some ch" "Chans n ch \<noteq> []" "PendingACKs n (target_id s) = Some ch" "critical s n = Blocked"
  | (relays) r where "target s n = None" "critical s n = Ok (n\<lparr>PendingRelays := r\<rparr>)" "left_section s = (\<lambda>W. W)"
  | (registers) ch msgID firstNackID where "s = Register ch msgID firstNackID"
  | (forgets) msgID firstNackID where "s = Forget msgID firstNackID"
proof (cases s)
  case (NackSection i)
  show thesis
  proof (cases "PendingACKs n i")
    case None
    have "critical s n = Ok (n\<lparr>PendingRelays := (PendingRelays n)(i := None)\<rparr>)"
      using None NackSection by (simp add: handle_nack_def Let_def split: option.splits)
    with None NackSection relays show thesis by (simp add: fun_eq_iff)
  next
    case (Some ch)
    with NackSection sends [of ch False] blocked [of ch] show thesis
      by (cases "Chans n ch = []") (simp_all add: handle_nack_def chan_send_def fun_eq_iff)
  qed
next
  case (AckSection l)
  show thesis
  proof (cases "PendingACKs n (MsgID l)")
    case None
    with AckSection relays [of "PendingRelays n"] show thesis by (simp add: handle_ack_def fun_eq_iff)
  next
    case (Some ch)
    with AckSection sends [of ch True] blocked [of ch] show thesis
      by (cases "Chans n ch = []") (simp_all add: handle_ack_def chan_send_def fun_eq_iff)
  qed
next
  case (Register ch m k)
  then show thesis by (rule registers)
next
  case (Forget m k)
  then show thesis by (rule forgets)
next
  case (RelaySection i r)
  with relays [of "(PendingRelays n)(i := r)"] show thesis by (simp add: fun_eq_iff)
qed

text \<open>The section inside waits for a channel nobody will read any more.\<close>

definition stuck :: "('pk, 'sk) locked \<Rightarrow> bool" where
  "stuck st \<longleftrightarrow> (\<exists>s ch. Holder st = Some s \<and> target s (Guarded st) = Some ch \<and> Chans (Guarded st) ch \<noteq> [] \<and>
     Waiters st ch = GaveUp)"

lemma stuck_move:
  assumes "stuck st" and "move st st'"
  shows "stuck st' \<and> Holder st' = Holder st \<and> Waiting st \<subseteq># Waiting st' \<and>
    PendingACKs (Guarded st') = PendingACKs (Guarded st) \<and> PendingRelays (Guarded st') = PendingRelays (Guarded st)"
proof -
  from assms(1) obtain s ch where s: "Holder st = Some s" "target s (Guarded st) = Some ch" "Chans (Guarded st) ch \<noteq> []"
    "Waiters st ch = GaveUp" unfolding stuck_def by blast
  have blocked: "critical s (Guarded st) = Blocked"
    by (rule critical_cases [where s = s and n = "Guarded st"]) (use s in auto)
  have same: "target s ((Guarded st)\<lparr>Chans := c\<rparr>) = target s (Guarded st)" for c by (cases s) simp_all
  from assms(2) show ?thesis
    by (cases rule: move_cases) (use s blocked same in \<open>auto simp: stuck_def\<close>)
qed



section \<open>How many answers a channel may get\<close>

text \<open>
  A channel gets one answer for each identifier still registered for it and what is in its buffer: two
  at most, and one after its goroutine has taken one.
\<close>

definition ids_of :: "('pk, 'sk) Node \<Rightarrow> nat \<Rightarrow> string set" where
  "ids_of n ch = {i. PendingACKs n i = Some ch}"

fun room :: "waiter \<Rightarrow> nat" where
  "room Unused = 0"
| "room Registering = 0"
| "room Answered = 1"
| "room _ = 2"

definition sections :: "('pk, 'sk) locked \<Rightarrow> mu_section multiset" where
  "sections st = Waiting st + (case Holder st of None \<Rightarrow> {#} | Some s \<Rightarrow> {#s#})"

fun registers :: "nat \<Rightarrow> mu_section \<Rightarrow> bool" where
  "registers ch (Register ch' _ _) \<longleftrightarrow> ch' = ch"
| "registers ch _ \<longleftrightarrow> False"

definition lock_ok :: "('pk, 'sk) locked \<Rightarrow> bool" where
  "lock_ok st \<longleftrightarrow> (\<forall>ch. finite (ids_of (Guarded st) ch) \<and> length (Chans (Guarded st) ch) \<le> 1 \<and>
     card (ids_of (Guarded st) ch) + length (Chans (Guarded st) ch) \<le> room (Waiters st ch) \<and>
     size (filter_mset (registers ch) (sections st)) \<le> (if Waiters st ch = Registering then 1 else 0))"

lemma lock_okD:
  assumes "lock_ok st"
  shows "finite (ids_of (Guarded st) ch)" "length (Chans (Guarded st) ch) \<le> 1"
    and "card (ids_of (Guarded st) ch) + length (Chans (Guarded st) ch) \<le> room (Waiters st ch)"
    and "size (filter_mset (registers ch) (sections st)) \<le> (if Waiters st ch = Registering then 1 else 0)"
  using assms unfolding lock_ok_def by blast+

lemma ids_less: "ids_of n' ch \<subseteq> ids_of n ch \<Longrightarrow> finite (ids_of n ch) \<Longrightarrow>
    finite (ids_of n' ch) \<and> card (ids_of n' ch) \<le> card (ids_of n ch)"
  by (auto intro: finite_subset card_mono)

lemma lock_ok_keep:
  assumes ok: "lock_ok st"
    and same: "\<And>d. room (Waiters st' d) = room (Waiters st d) \<and> (Waiters st' d = Registering \<longleftrightarrow> Waiters st d = Registering)"
    and fewer: "\<And>d. size (filter_mset (registers d) (sections st')) \<le> size (filter_mset (registers d) (sections st))"
    and "\<And>d. finite (ids_of (Guarded st') d)" and "\<And>d. length (Chans (Guarded st') d) \<le> 1"
    and "\<And>d. card (ids_of (Guarded st') d) + length (Chans (Guarded st') d) \<le>
      card (ids_of (Guarded st) d) + length (Chans (Guarded st) d)"
  shows "lock_ok st'"
  unfolding lock_ok_def conjunct1 [OF same] conjunct2 [OF same]
  using assms(4,5) order_trans [OF fewer lock_okD(4) [OF ok]] order_trans [OF assms(6) lock_okD(3) [OF ok]]
  by blast

lemma send_answers:
  assumes "lock_ok st" and "PendingACKs (Guarded st) i = Some ch" and "Chans (Guarded st) ch = []"
    and n': "n' = (Guarded st)\<lparr>Chans := (Chans (Guarded st))(ch := [v]), PendingACKs := (PendingACKs (Guarded st))(i := None)\<rparr>"
  shows "finite (ids_of n' d)" "length (Chans n' d) \<le> 1"
    and "card (ids_of n' d) + length (Chans n' d) \<le> card (ids_of (Guarded st) d) + length (Chans (Guarded st) d)"
proof -
  have ids: "ids_of n' d = (if d = ch then ids_of (Guarded st) ch - {i} else ids_of (Guarded st) d)"
    using assms(2) unfolding n' by (auto simp: ids_of_def split: if_splits)
  have i: "i \<in> ids_of (Guarded st) ch" using assms(2) by (simp add: ids_of_def)
  then have "0 < card (ids_of (Guarded st) ch)" using lock_okD(1) [OF assms(1), of ch] by (auto simp: card_gt_0_iff)
  then have "Suc (card (ids_of (Guarded st) ch - {i})) = card (ids_of (Guarded st) ch)"
    using i lock_okD(1) [OF assms(1), of ch] by simp
  then show "finite (ids_of n' d)" "length (Chans n' d) \<le> 1"
    "card (ids_of n' d) + length (Chans n' d) \<le> card (ids_of (Guarded st) d) + length (Chans (Guarded st) d)"
    using lock_okD(1,2) [OF assms(1), of d] assms(3) unfolding ids by (auto simp: n')
qed

text \<open>Leaving a section.\<close>

lemma fewer_sections:
  "Holder st = Some s \<Longrightarrow>
   size (filter_mset P (sections (st\<lparr>Holder := None, Guarded := n', Waiters := W\<rparr>))) \<le> size (filter_mset P (sections st))"
  by (simp add: sections_def)

lemma register_ok:
  assumes ok: "lock_ok st" and s: "Holder st = Some (Register ch m k)"
  shows "lock_ok (st\<lparr>Holder := None, Guarded := register_ack ch m k (Guarded st), Waiters := (Waiters st)(ch := Sending m k)\<rparr>)"
    (is "lock_ok ?st'")
  unfolding lock_ok_def
proof
  fix d
  have one: "size (filter_mset (registers ch) (sections ?st')) + 1 = size (filter_mset (registers ch) (sections st))"
    using s by (simp add: sections_def)
  then have w: "Waiters st ch = Registering" using lock_okD(4) [OF ok, of ch] by (simp split: if_splits)
  then have "size (filter_mset (registers ch) (sections st)) \<le> 1" using lock_okD(4) [OF ok, of ch] by simp
  then have none: "size (filter_mset (registers ch) (sections ?st')) = 0" using one by linarith
  have "ids_of (Guarded st) ch = {}" using lock_okD(1,3) [OF ok, of ch] w by auto
  then have mine: "ids_of (Guarded ?st') ch \<subseteq> {m, k}" by (auto simp: ids_of_def register_ack_def split: if_splits)
  have "card {m, k} \<le> 2" by (simp add: card_insert_if)
  then have card: "finite (ids_of (Guarded ?st') ch)" "card (ids_of (Guarded ?st') ch) \<le> 2"
    using finite_subset [OF mine] card_mono [OF _ mine] by auto
  show "finite (ids_of (Guarded ?st') d) \<and> length (Chans (Guarded ?st') d) \<le> 1 \<and>
    card (ids_of (Guarded ?st') d) + length (Chans (Guarded ?st') d) \<le> room (Waiters ?st' d) \<and>
    size (filter_mset (registers d) (sections ?st')) \<le> (if Waiters ?st' d = Registering then 1 else 0)"
  proof (cases "d = ch")
    case True
    have "size (filter_mset (registers ch) (sections ?st')) \<le> (if Waiters ?st' ch = Registering then 1 else 0)"
      unfolding none by simp
    moreover have "Chans (Guarded ?st') ch = []" "Waiters ?st' ch = Sending m k" by (simp_all add: register_ack_def)
    ultimately show ?thesis using True card by (simp del: size_eq_0_iff_empty)
  next
    case False
    then have "ids_of (Guarded ?st') d \<subseteq> ids_of (Guarded st) d" by (auto simp: ids_of_def register_ack_def split: if_splits)
    from ids_less [OF this lock_okD(1) [OF ok]] False lock_okD(2-4) [OF ok, of d]
      fewer_sections [where P = "registers d" and n' = "register_ack ch m k (Guarded st)" and W = "(Waiters st)(ch := Sending m k)", OF s]
    show ?thesis by (auto simp: register_ack_def)
  qed
qed

lemma unlock_ok:
  assumes ok: "lock_ok st" and s: "Holder st = Some s" and n': "critical s (Guarded st) = Ok n'"
  shows "lock_ok (st\<lparr>Holder := None, Guarded := n', Waiters := left_section s (Waiters st)\<rparr>)"
    (is "lock_ok ?st'")
proof (rule critical_cases [where s = s and n = "Guarded st"])
  fix ch v
  assume c: "Chans (Guarded st) ch = []" "PendingACKs (Guarded st) (target_id s) = Some ch" "left_section s = (\<lambda>W. W)"
    "critical s (Guarded st) =
      Ok ((Guarded st)\<lparr>Chans := (Chans (Guarded st))(ch := [v]), PendingACKs := (PendingACKs (Guarded st))(target_id s := None)\<rparr>)"
  then have n: "n' = (Guarded st)\<lparr>Chans := (Chans (Guarded st))(ch := [v]), PendingACKs := (PendingACKs (Guarded st))(target_id s := None)\<rparr>"
    using n' by simp
  show ?thesis
    by (rule lock_ok_keep [OF ok _ fewer_sections [OF s]]) (use send_answers [OF ok c(2,1) n] c(3) in simp_all)
next
  fix r
  assume "critical s (Guarded st) = Ok ((Guarded st)\<lparr>PendingRelays := r\<rparr>)" "left_section s = (\<lambda>W. W)"
  then have n: "n' = (Guarded st)\<lparr>PendingRelays := r\<rparr>" and w: "left_section s (Waiters st) = Waiters st" using n' by (auto simp: fun_eq_iff)
  have "ids_of n' = ids_of (Guarded st)" by (simp add: n ids_of_def fun_eq_iff)
  then show ?thesis
    by (intro lock_ok_keep [OF ok _ fewer_sections [OF s]]) (use lock_okD [OF ok] w n in simp_all)
next
  fix ch m k
  assume r: "s = Register ch m k"
  with n' register_ok [OF ok] s show ?thesis by simp
next
  fix m k
  assume f: "s = Forget m k"
  then have n: "n' = forget_ack m k (Guarded st)" using n' by simp
  have less: "ids_of n' d \<subseteq> ids_of (Guarded st) d" for d
    unfolding n by (auto simp: ids_of_def forget_ack_def split: if_splits)
  have chans: "Chans n' = Chans (Guarded st)" by (simp add: n forget_ack_def)
  show ?thesis
    by (rule lock_ok_keep [OF ok _ fewer_sections [OF s]])
      (use ids_less [OF less lock_okD(1) [OF ok]] lock_okD(2) [OF ok] f chans in simp_all)
qed (use n' in simp)


lemma receive_ok:
  assumes ok: "lock_ok st" and w: "Waiters st ch = Selecting m k" and v: "Chans (Guarded st) ch = v # vs"
  shows "lock_ok (st\<lparr>Waiting := (if v then Waiting st else add_mset (Forget m k) (Waiting st)),
      Guarded := (Guarded st)\<lparr>Chans := (Chans (Guarded st))(ch := vs)\<rparr>, Waiters := (Waiters st)(ch := Answered)\<rparr>)"
    (is "lock_ok ?st'")
  unfolding lock_ok_def
proof
  fix d
  have ids: "ids_of (Guarded ?st') d = ids_of (Guarded st) d" by (simp add: ids_of_def)
  have sections: "filter_mset (registers d) (sections ?st') = filter_mset (registers d) (sections st)"
    by (simp add: sections_def)
  show "finite (ids_of (Guarded ?st') d) \<and> length (Chans (Guarded ?st') d) \<le> 1 \<and>
    card (ids_of (Guarded ?st') d) + length (Chans (Guarded ?st') d) \<le> room (Waiters ?st' d) \<and>
    size (filter_mset (registers d) (sections ?st')) \<le> (if Waiters ?st' d = Registering then 1 else 0)"
    unfolding ids sections using lock_okD [OF ok, of d] w v by (cases "d = ch") auto
qed

lemma send_ok:
  assumes ok: "lock_ok st" and w: "Waiters st ch = Unused"
  shows "lock_ok (st\<lparr>Waiting := add_mset (Register ch m k) (Waiting st), Waiters := (Waiters st)(ch := Registering)\<rparr>)"
    (is "lock_ok ?st'")
  unfolding lock_ok_def
proof
  fix d
  have "size (filter_mset (registers d) (sections ?st')) = size (filter_mset (registers d) (sections st)) + (if d = ch then 1 else 0)"
    by (simp add: sections_def)
  with lock_okD [OF ok, of d] w
  show "finite (ids_of (Guarded ?st') d) \<and> length (Chans (Guarded ?st') d) \<le> 1 \<and>
    card (ids_of (Guarded ?st') d) + length (Chans (Guarded ?st') d) \<le> room (Waiters ?st' d) \<and>
    size (filter_mset (registers d) (sections ?st')) \<le> (if Waiters ?st' d = Registering then 1 else 0)"
    by (cases "d = ch") (simp_all del: size_eq_0_iff_empty)
qed

lemma move_ok:
  assumes "move st st'" and "lock_ok st"
  shows "lock_ok st'"
  using assms(1)
proof (cases rule: move.cases)
  case (unlock s n')
  with unlock_ok [OF assms(2)] show ?thesis by blast
next
  case (send ch m k)
  with send_ok [OF assms(2)] show ?thesis by blast
next
  case (receive ch m k v vs)
  with receive_ok [OF assms(2)] show ?thesis by blast
next
  case (lock s)
  have "sections st' = sections st" using lock by (simp add: sections_def)
  then show ?thesis by (intro lock_ok_keep [OF assms(2)]) (use lock lock_okD [OF assms(2)] in simp_all)
next
  case (arrive s i l r)
  then have "\<not> registers d s" for d by auto
  then show ?thesis by (intro lock_ok_keep [OF assms(2)]) (use arrive lock_okD [OF assms(2)] in \<open>simp_all add: sections_def\<close>)
qed (use lock_okD [OF assms(2)] in \<open>(intro lock_ok_keep [OF assms(2)]; simp add: sections_def)+\<close>)

lemma reached_ok:
  assumes "quiescent n" and "moves (unlocked n) st"
  shows "lock_ok st"
  using assms(2)
proof (induction rule: rtranclp_induct)
  case base
  show ?case using assms(1) by (simp add: lock_ok_def unlocked_def quiescent_def ids_of_def sections_def)
qed (rule move_ok)


section \<open>Deadlock\<close>

lemma stuck_stays:
  assumes "moves st st'" and "stuck st"
  shows "stuck st' \<and> Holder st' = Holder st \<and> Waiting st \<subseteq># Waiting st' \<and>
    PendingACKs (Guarded st') = PendingACKs (Guarded st) \<and> PendingRelays (Guarded st') = PendingRelays (Guarded st)"
  using assms
proof (induction rule: rtranclp_induct)
  case (step y z)
  then show ?case using stuck_move [of y z] by (metis subset_mset.order_trans)
qed simp

text \<open>
  C7: When the mutex of a node comes free. In every state the node can get into, whoever is inside can
  leave, if only after the waiting goroutine has taken an answer, except in one case: a handler sends
  on a channel that is full and whose goroutine has given up waiting for an answer.
\<close>

theorem mutex_comes_free_iff:
  assumes "quiescent n" and "moves (unlocked n) st" and "Holder st = Some s"
  shows "(\<exists>st'. moves st st' \<and> Holder st' = None) \<longleftrightarrow>
    \<not> (\<exists>ch. target s (Guarded st) = Some ch \<and> Chans (Guarded st) ch \<noteq> [] \<and> Waiters st ch = GaveUp)"
proof -
  note ok = reached_ok [OF assms(1,2)]
  have out: "\<exists>st2. moves st1 st2 \<and> Holder st2 = None" if "Holder st1 = Some s" "critical s (Guarded st1) = Ok n'" for st1 n'
    using move.unlock [OF that] by (intro exI conjI, rule r_into_rtranclp) simp_all
  have free: "\<exists>st'. moves st st' \<and> Holder st' = None" if "\<not> stuck st"
  proof (rule critical_cases [where s = s and n = "Guarded st"])
    fix ch
    assume b: "target s (Guarded st) = Some ch" "Chans (Guarded st) ch \<noteq> []" "PendingACKs (Guarded st) (target_id s) = Some ch"
    then obtain v where v: "Chans (Guarded st) ch = [v]" using lock_okD(2) [OF ok, of ch]
      by (cases "Chans (Guarded st) ch") auto
    have "target_id s \<in> ids_of (Guarded st) ch" using b(3) by (simp add: ids_of_def)
    then have "0 < card (ids_of (Guarded st) ch)" using lock_okD(1) [OF ok, of ch] by (auto simp: card_gt_0_iff)
    then have "room (Waiters st ch) \<ge> 2" using lock_okD(3) [OF ok, of ch] v by simp
    moreover have "Waiters st ch \<noteq> GaveUp" using that b assms(3) by (auto simp: stuck_def)
    ultimately obtain m k where "Waiters st ch = Sending m k \<or> Waiters st ch = Selecting m k"
      by (cases "Waiters st ch") auto
    then obtain st1 where st1: "moves st st1" "Waiters st1 ch = Selecting m k" "Guarded st1 = Guarded st" "Holder st1 = Some s"
      using assms(3) r_into_rtranclp [of move, OF move.sent] by fastforce
    let ?st2 = "st1\<lparr>Waiting := (if v then Waiting st1 else add_mset (Forget m k) (Waiting st1)),
      Guarded := (Guarded st1)\<lparr>Chans := (Chans (Guarded st1))(ch := [])\<rparr>, Waiters := (Waiters st1)(ch := Answered)\<rparr>"
    have "move st1 ?st2" by (rule move.receive) (use st1 v in simp_all)
    moreover have "\<exists>n'. critical s (Guarded ?st2) = Ok n'"
      using b(1) st1(3) by (cases s) (auto simp: handle_nack_def handle_ack_def chan_send_def)
    then have "\<exists>st'. moves ?st2 st' \<and> Holder st' = None" using out [of ?st2] st1(4) by auto
    ultimately show ?thesis using st1(1) by (meson rtranclp.rtrancl_into_rtrancl rtranclp_trans)
  qed (use out [OF assms(3)] in \<open>auto intro: out [OF assms(3)]\<close>)
  have held: "\<not> (\<exists>st'. moves st st' \<and> Holder st' = None)" if "stuck st"
    using stuck_stays [OF _ that] assms(3) by auto
  have "stuck st \<longleftrightarrow> (\<exists>ch. target s (Guarded st) = Some ch \<and> Chans (Guarded st) ch \<noteq> [] \<and> Waiters st ch = GaveUp)"
    using assms(3) by (simp add: stuck_def)
  with free held show ?thesis by blast
qed

text \<open>An acknowledgement and a NACK of one message that both come in as its eight seconds run out.\<close>

lemma successively_moves: "successively move (st # sts) \<Longrightarrow> moves st (last (st # sts))"
  by (induction sts arbitrary: st) (auto intro: converse_rtranclp_into_rtranclp)

definition one_waiter :: "mu_section option \<Rightarrow> mu_section multiset \<Rightarrow> ('pk, 'sk) Node \<Rightarrow> nat \<Rightarrow> waiter \<Rightarrow> ('pk, 'sk) locked" where
  "one_waiter h W n ch w = \<lparr>Holder = h, Waiting = W, Guarded = n, Waiters = (\<lambda>_. Unused)(ch := w)\<rparr>"

lemma one_waiter_moves:
  "move (unlocked n) (one_waiter None {#Register ch m k#} n ch Registering)"
  "s = NackSection i \<or> s = AckSection l \<or> s = RelaySection i r \<Longrightarrow> move (one_waiter h {#} n ch w) (one_waiter h {#s#} n ch w)"
  "move (one_waiter None {#s#} n ch w) (one_waiter (Some s) {#} n ch w)"
  "critical s n = Ok n' \<Longrightarrow> left_section s ((\<lambda>_. Unused)(ch := w)) = (\<lambda>_. Unused)(ch := w') \<Longrightarrow>
   move (one_waiter (Some s) W n ch w) (one_waiter None W n' ch w')"
  "move (one_waiter h W n ch (Sending m k)) (one_waiter h W n ch (Selecting m k))"
  "move (one_waiter h {#} n ch (Selecting m k)) (one_waiter h {#Forget m k#} n ch GaveUp)"
  using move.send [of "unlocked n" ch m k] move.arrive [of s i l r "one_waiter h {#} n ch w"]
    move.lock [of "one_waiter None {#s#} n ch w" s] move.unlock [of "one_waiter (Some s) W n ch w" s n']
    move.sent [of "one_waiter h W n ch (Sending m k)" ch] move.timeout [of "one_waiter h {#} n ch (Selecting m k)" ch]
  by (simp_all add: one_waiter_def unlocked_def)

lemma race_sticks:
  fixes n :: "('pk, 'sk) Node" and l :: OnionLayer
  assumes m: "MsgID l \<noteq> k"
  shows "\<exists>st. moves (unlocked n) st \<and> Holder st = Some (NackSection k) \<and> Forget (MsgID l) k \<in># Waiting st \<and> stuck st"
proof -
  fix ch
  let ?R = "Register ch (MsgID l) k" and ?A = "AckSection l" and ?N = "NackSection k" and ?w = "Selecting (MsgID l) k"
  define n1 where "n1 = register_ack ch (MsgID l) k n"
  define n2 where "n2 = n1\<lparr>Chans := (Chans n1)(ch := [True]), PendingACKs := (PendingACKs n1)(MsgID l := None)\<rparr>"
  define last_st where "last_st = one_waiter (Some ?N) {#Forget (MsgID l) k#} n2 ch GaveUp"
  have "critical ?A n1 = Ok n2" "critical ?R n = Ok n1"
    using m by (simp_all add: n1_def n2_def handle_ack_def register_ack_def chan_send_def)
  then have "successively move [unlocked n, one_waiter None {#?R#} n ch Registering, one_waiter (Some ?R) {#} n ch Registering,
      one_waiter None {#} n1 ch (Sending (MsgID l) k), one_waiter None {#} n1 ch ?w, one_waiter None {#?A#} n1 ch ?w,
      one_waiter (Some ?A) {#} n1 ch ?w, one_waiter None {#} n2 ch ?w, one_waiter None {#?N#} n2 ch ?w,
      one_waiter (Some ?N) {#} n2 ch ?w, last_st]"
    by (auto simp: last_st_def intro: one_waiter_moves)
  then have "moves (unlocked n) last_st" using successively_moves by fastforce
  moreover have "stuck last_st"
    using m by (simp add: stuck_def last_st_def one_waiter_def n2_def n1_def register_ack_def)
  ultimately show ?thesis by (auto simp: last_st_def one_waiter_def)
qed

text \<open>
  C8: The race that stops a node. When the acknowledgement and the NACK of one message both come in as
  its eight seconds run out, the node can get into a state in which the NACK handler is inside for good:
  in every state after it the handler is still there, the goroutine that gave up is still waiting to
  forget the identifiers, and the tables of pending messages never change again.
\<close>

theorem late_answers_deadlock:
  assumes "msgID \<noteq> firstNackID"
  shows "\<exists>st. moves (unlocked n) st \<and> (\<forall>st'. moves st st' \<longrightarrow>
    Holder st' = Some (NackSection firstNackID) \<and> Forget msgID firstNackID \<in># Waiting st' \<and>
    PendingACKs (Guarded st') = PendingACKs (Guarded st) \<and> PendingRelays (Guarded st') = PendingRelays (Guarded st))"
proof -
  let ?l = "\<lparr>Type = ''ACK'', MsgID = msgID, Next = [], From = [], Data = [], Frag = [], Message = []\<rparr>"
  have "MsgID ?l \<noteq> firstNackID" using assms by simp
  from race_sticks [OF this] obtain st where "moves (unlocked n) st" "Holder st = Some (NackSection firstNackID)"
    "Forget msgID firstNackID \<in># Waiting st" "stuck st" by auto
  then show ?thesis using stuck_stays by (metis mset_subset_eqD)
qed


section \<open>Concrete runs\<close>

definition demo_locked :: "(nat, nat) Node" where
  "demo_locked = NewNode ideal_crypto ''n'' ''s:8080'' 1 9000"

lemma demo_quiescent: "quiescent demo_locked"
  by (simp add: quiescent_def demo_locked_def NewNode_def)

theorem mutex_comes_free_iff_witness:
  "(\<exists>st'. moves (one_waiter (Some (Register 0 ''m'' ''k'')) {#} demo_locked 0 Registering) st' \<and> Holder st' = None) \<longleftrightarrow>
    \<not> (\<exists>ch. target (Register 0 ''m'' ''k'') demo_locked = Some ch \<and> Chans demo_locked ch \<noteq> [] \<and>
      Waiters (one_waiter (Some (Register 0 ''m'' ''k'')) {#} demo_locked 0 Registering) ch = GaveUp)"
proof -
  let ?st = "one_waiter (Some (Register 0 ''m'' ''k'')) {#} demo_locked 0 Registering"
  have "moves (unlocked demo_locked) ?st"
    by (rule rtranclp.rtrancl_into_rtrancl [OF r_into_rtranclp [of move] one_waiter_moves(3)]) (rule one_waiter_moves)
  from mutex_comes_free_iff [OF demo_quiescent this] show ?thesis by (simp add: one_waiter_def)
qed

theorem late_answers_deadlock_witness:
  "\<exists>st. moves (unlocked demo_locked) st \<and> (\<forall>st'. moves st st' \<longrightarrow>
    Holder st' = Some (NackSection ''k'') \<and> Forget ''m'' ''k'' \<in># Waiting st' \<and>
    PendingACKs (Guarded st') = PendingACKs (Guarded st) \<and> PendingRelays (Guarded st') = PendingRelays (Guarded st))"
  using late_answers_deadlock [of "''m''" "''k''" demo_locked] by simp

end
