(* ===== verification/Fragments.thy ===== *)
theory Fragments
  imports Node
begin

text \<open>
  Fragmentation: \<open>splitMessage\<close> and the SEND branch of \<open>node/cli.go\<close> cut a long message into chunks,
  each sent as an onion of its own; the FINAL branch of the handler collects them. The theory shows
  that splitting ends and loses nothing, and that whatever the order of arrival (and with
  duplicates before completion) exactly the original message is received, once.
\<close>

section \<open>Splitting\<close>

abbreviation fragChunkSize :: nat where "fragChunkSize \<equiv> 4096"

text \<open>The loop of \<open>splitMessage\<close>; \<open>None\<close> would be a loop that never ends.\<close>

partial_function (option) split_loop :: "nat \<Rightarrow> string \<Rightarrow> string list \<Rightarrow> string list option" where
  "split_loop sz msg chunks =
     (if 0 < length msg
      then if length msg \<le> sz then Some (chunks @ [msg])
           else split_loop sz (drop sz msg) (chunks @ [take sz msg])
      else Some chunks)"

definition splitMessage :: "string \<Rightarrow> nat \<Rightarrow> string list option" where
  "splitMessage msg sz = split_loop sz msg []"

text \<open>The reference: full chunks, then the rest.\<close>

function chunks_of :: "nat \<Rightarrow> string \<Rightarrow> string list" where
  "chunks_of sz msg =
     (if sz = 0 \<or> msg = [] then [] else take sz msg # chunks_of sz (drop sz msg))"
  by pat_completeness auto
termination
  by (relation "measure (\<lambda>(sz, msg). length msg)") auto

declare chunks_of.simps [simp del]

lemma split_loop_chunks_of:
  "0 < sz \<Longrightarrow> split_loop sz msg acc = Some (acc @ chunks_of sz msg)"
proof (induction sz msg arbitrary: acc rule: chunks_of.induct)
  case (1 sz msg)
  show ?case
  proof (cases "length msg \<le> sz")
    case True
    with "1.prems" show ?thesis
      by (subst split_loop.simps) (auto simp: chunks_of.simps [of sz msg] chunks_of.simps [of sz "[]"])
  next
    case False
    with 1 show ?thesis
      by (subst split_loop.simps) (auto simp: chunks_of.simps [of sz msg])
  qed
qed

lemma concat_chunks_of: "0 < sz \<Longrightarrow> concat (chunks_of sz msg) = msg"
  by (induction sz msg rule: chunks_of.induct) (subst chunks_of.simps, auto)

lemma chunks_of_sizes: "c \<in> set (chunks_of sz msg) \<Longrightarrow> c \<noteq> [] \<and> length c \<le> sz"
proof (induction sz msg rule: chunks_of.induct)
  case (1 sz msg)
  then show ?case by (auto simp: chunks_of.simps [of sz msg] split: if_splits)
qed

lemma length_chunks_of: "0 < sz \<Longrightarrow> length (chunks_of sz msg) = (length msg + sz - 1) div sz"
proof (induction sz msg rule: chunks_of.induct)
  case (1 sz msg)
  show ?case
  proof (cases "msg = []")
    case True
    with "1.prems" show ?thesis by (simp add: chunks_of.simps [of sz "[]"])
  next
    case False
    have "length msg + sz - 1 = (length msg - 1) + sz" using False by (cases msg) auto
    moreover have "((length msg - 1) + sz) div sz = Suc ((length msg - 1) div sz)"
      using "1.prems" by (subst div_add_self2) auto
    ultimately have "(length msg + sz - 1) div sz = Suc ((length msg - 1) div sz)" by (simp only:)
    moreover have "(length msg - sz + sz - 1) div sz = (length msg - 1) div sz"
      using False "1.prems" by (cases "sz \<le> length msg") auto
    ultimately show ?thesis using 1 False by (simp add: chunks_of.simps [of sz msg])
  qed
qed


text \<open>
  C40: splitting with a positive chunk size always ends; the chunks, joined, are the message, each
  is non-empty and at most the chunk size, and there are as many as the length requires.
\<close>

theorem splitMessage_correct:
  assumes "0 < sz"
  shows "\<exists>cs. splitMessage msg sz = Some cs \<and> concat cs = msg \<and>
    list_all (\<lambda>c. c \<noteq> [] \<and> length c \<le> sz) cs \<and> length cs = (length msg + sz - 1) div sz"
  using assms chunks_of_sizes
  by (auto simp: splitMessage_def split_loop_chunks_of concat_chunks_of length_chunks_of list_all_iff)

theorem splitMessage_correct_witness:
  "splitMessage ''abcdefgh'' 3 = Some [''abc'', ''def'', ''gh'']"
  using splitMessage_correct [of 3 "''abcdefgh''"]
  by (auto simp: splitMessage_def split_loop.simps)


section \<open>Fragment headers\<close>

text \<open>\<open>fmt.Sprintf("%s:%d/%d", fragID, i+1, len(chunks))\<close> and the jobs of the SEND branch of the CLI.\<close>

definition frag_header :: "string \<Rightarrow> int \<Rightarrow> int \<Rightarrow> string" where
  "frag_header fragID i tot = fragID @ colon # Itoa i @ slash # Itoa tot"

definition send_jobs :: "string \<Rightarrow> string \<Rightarrow> (string \<times> string) list option" where
  "send_jobs fragID message =
     (if length message \<le> fragChunkSize then Some [([], message)]
      else map_option (\<lambda>chunks. map (\<lambda>(i, c). (frag_header fragID (int i + 1) (int (length chunks)), c))
                                  (enumerate 0 chunks))
             (splitMessage message fragChunkSize))"

definition store_chunk :: "string \<Rightarrow> int \<Rightarrow> int \<Rightarrow> string \<Rightarrow> ('pk, 'sk) Node \<Rightarrow> ('pk, 'sk) Node res" where
  "store_chunk f i tot c n =
     (let buf = AList.update i c (case FragBuf n f of None \<Rightarrow> [] | Some b \<Rightarrow> b);
          expected = (case FragBuf n f of None \<Rightarrow> tot
                      | Some _ \<Rightarrow> (case FragTotal n f of None \<Rightarrow> 0 | Some e \<Rightarrow> e))
      in if int (length buf) = expected
         then bind_res (assemble tot buf) (\<lambda>m.
                Ok (n\<lparr>FragBuf := (FragBuf n)(f := None), FragTotal := (FragTotal n)(f := None),
                      ReceivedMsgs := ReceivedMsgs n @ [m]\<rparr>))
         else Ok (n\<lparr>FragBuf := (FragBuf n)(f \<mapsto> buf),
                    FragTotal := (case FragBuf n f of None \<Rightarrow> (FragTotal n)(f \<mapsto> tot) | Some _ \<Rightarrow> FragTotal n)\<rparr>))"

lemma store_fragment_header:
  assumes "Frag layer = frag_header f i tot" and "colon \<notin> set f"
    and "- (2 ^ 63) \<le> i" "i < 2 ^ 63" "- (2 ^ 63) \<le> tot" "tot < 2 ^ 63"
  shows "store_fragment layer n = store_chunk f i tot (Message layer) n"
proof -
  have "SplitN colon 2 (Frag layer) = [f, Itoa i @ slash # Itoa tot]"
    using assms(1,2) by (simp add: frag_header_def numeral_2_eq_2)
  moreover have "Split slash (Itoa i @ slash # Itoa tot) = [Itoa i, Itoa tot]"
    by (simp add: Split_append Split_no_sep)
  ultimately show ?thesis
    using Atoi_Itoa [OF assms(3,4)] Atoi_Itoa [OF assms(5,6)]
    by (simp add: store_fragment_def store_chunk_def Let_def cong: if_cong option.case_cong split del: if_split)
qed



section \<open>Collecting\<close>

text \<open>The buffer of fragment set \<open>f\<close> holds exactly the chunks with index in \<open>I\<close>.\<close>

definition collected :: "string \<Rightarrow> int \<Rightarrow> (int \<Rightarrow> string) \<Rightarrow> int set \<Rightarrow> ('pk, 'sk) Node \<Rightarrow> bool" where
  "collected f tot ch I n \<longleftrightarrow>
     (if I = {} then FragBuf n f = None
      else \<exists>b. FragBuf n f = Some b \<and> distinct (map fst b) \<and> FragTotal n f = Some tot \<and>
             map_of b = (\<lambda>i. if i \<in> I then Some (ch i) else None))"

lemma chunk_buffer:
  fixes i :: int
  assumes "collected f tot ch I n"
  defines "buf \<equiv> AList.update i (ch i) (case FragBuf n f of None \<Rightarrow> [] | Some b \<Rightarrow> b)"
  shows "distinct (map fst buf)" and "map_of buf = (\<lambda>j. if j \<in> insert i I then Some (ch j) else None)"
    and "length buf = card (insert i I)"
proof -
  show d: "distinct (map fst buf)"
    using assms by (auto simp: collected_def split: if_splits option.splits)
  show m: "map_of buf = (\<lambda>j. if j \<in> insert i I then Some (ch j) else None)"
    using assms by (auto simp: collected_def fun_eq_iff split: if_splits option.splits)
  have "dom (map_of buf) = insert i I" by (auto simp: m dom_def split: if_splits)
  then show "length buf = card (insert i I)" using length_distinct_keys [OF d] by simp
qed

lemma chunk_expected:
  "collected f tot ch I n \<Longrightarrow>
   (case FragBuf n f of None \<Rightarrow> tot | Some _ \<Rightarrow> (case FragTotal n f of None \<Rightarrow> 0 | Some e \<Rightarrow> e)) = tot"
  by (auto simp: collected_def split: if_splits option.splits)

lemma card_full: "I \<subseteq> {1..tot} \<Longrightarrow> int (card I) = tot \<longleftrightarrow> 0 \<le> tot \<and> I = {1..tot :: int}"
  by (metis card_atLeastAtMost_int card_subset_eq diff_add_cancel finite_atLeastAtMost_int int_nat_eq
      nat_int of_nat_0_le_iff)

lemma store_chunk_more:
  assumes "collected f tot ch I n" and "insert i I \<subseteq> {1..tot}" and "insert i I \<noteq> {1..tot}"
  shows "\<exists>n'. store_chunk f i tot (ch i) n = Ok n' \<and> collected f tot ch (insert i I) n' \<and>
    ReceivedMsgs n' = ReceivedMsgs n \<and> SeenMsgs n' = SeenMsgs n"
proof -
  note buf = chunk_buffer [OF assms(1), where i = i] and expected = chunk_expected [OF assms(1)]
  have "int (card (insert i I)) \<noteq> tot" using card_full [OF assms(2)] assms(3) by auto
  moreover have "FragBuf n f \<noteq> None \<Longrightarrow> FragTotal n f = Some tot"
    using assms(1) by (auto simp: collected_def split: if_splits)
  ultimately show ?thesis
    using buf expected by (auto simp: store_chunk_def Let_def collected_def split: option.splits)
qed

lemma store_chunk_last:
  assumes "collected f tot ch I n" and "insert i I = {1..tot}" and "tot < 2 ^ 63 - 1"
  shows "\<exists>n'. store_chunk f i tot (ch i) n = Ok n' \<and> FragBuf n' f = None \<and> FragTotal n' f = None \<and>
    ReceivedMsgs n' = ReceivedMsgs n @ [concat (map ch [1..tot])]"
proof -
  note buf = chunk_buffer [OF assms(1), where i = i] and expected = chunk_expected [OF assms(1)]
  have "0 \<le> tot" using assms(2) by (cases "tot < 1") auto
  then have full: "int (card (insert i I)) = tot" using card_full [of "insert i I" tot] assms(2) by auto
  let ?b = "AList.update i (ch i) (case FragBuf n f of None \<Rightarrow> [] | Some b \<Rightarrow> b)"
  have "map_of ?b j = Some (ch j)" if "j \<in> {1..tot}" for j
    unfolding buf(2) assms(2) using that by simp
  then have eq: "map (\<lambda>j. case map_of ?b j of None \<Rightarrow> [] | Some c \<Rightarrow> c) [1..tot] = map ch [1..tot]"
    by (intro map_cong) (auto simp del: map_of_update)
  have "assemble tot ?b = Ok (concat (map ch [1..tot]))"
    unfolding assemble_def eq using assms(3) by simp
  with full show ?thesis using buf expected by (simp add: store_chunk_def Let_def)
qed

lemma map_nth_upto: "map (\<lambda>j. xs ! nat (j - 1)) [1..int (length xs)] = xs"
  by (rule nth_equalityI) auto

lemma splitMessage_concat: "splitMessage msg fragChunkSize = Some cs \<Longrightarrow> concat cs = msg"
  by (auto simp: splitMessage_def split_loop_chunks_of concat_chunks_of)


section \<open>Whole deliveries\<close>

text \<open>A sequence of connections, each with its own network, draws and time.\<close>

type_synonym layer_event = "dialer \<times> draws \<times> time \<times> OnionLayer"

abbreviation ev_layer :: "layer_event \<Rightarrow> OnionLayer" where
  "ev_layer e \<equiv> snd (snd (snd e))"

fun run_layers :: "layer_event list \<Rightarrow> ('pk, 'sk) Node \<Rightarrow> ('pk, 'sk) Node res" where
  "run_layers [] n = Ok n"
| "run_layers ((dial, ds, now, layer) # es) n =
     bind_res (handle_layer dial ds now layer n) (\<lambda>(n', log, rep). run_layers es n')"

lemma run_layers_append: "run_layers (es @ es') n = bind_res (run_layers es n) (run_layers es')"
proof (induction es arbitrary: n)
  case (Cons e es)
  obtain dial ds now layer where e: "e = (dial, ds, now, layer)" by (cases e)
  show ?case
    by (cases "handle_layer dial ds now layer n") (auto simp: e Cons)
qed simp

definition is_chunk :: "string \<Rightarrow> int \<Rightarrow> (int \<Rightarrow> string) \<Rightarrow> OnionLayer \<Rightarrow> int \<Rightarrow> bool" where
  "is_chunk f tot ch layer i \<longleftrightarrow>
     Type layer = ''FINAL'' \<and> Frag layer = frag_header f i tot \<and> Message layer = ch i"

lemma handle_chunk:
  assumes "is_chunk f tot ch layer i" and "colon \<notin> set f" and "i \<in> {1..tot}" and "tot < 2 ^ 63"
    and "SeenMsgs n (MsgID layer) = None"
    and "store_chunk f i tot (ch i) (n\<lparr>SeenMsgs := (SeenMsgs n)(MsgID layer \<mapsto> now)\<rparr>) = Ok n'"
  shows "handle_layer dial ds now layer n = Ok (n', send_ack dial ds layer, [])"
proof -
  have "Frag layer \<noteq> []" using assms(1) by (simp add: is_chunk_def frag_header_def)
  moreover have "store_fragment layer m = store_chunk f i tot (ch i) m" for m :: "('a, 'b) Node"
    using store_fragment_header [of layer f i tot m] assms(1-4) by (simp add: is_chunk_def)
  ultimately show ?thesis
    using assms by (simp add: handle_layer_def handle_final_def seenMsg_def is_chunk_def)
qed


lemma run_chunks_more:
  assumes "list_all2 (\<lambda>e i. is_chunk f tot ch (ev_layer e) i) es ix" and "colon \<notin> set f" and "tot < 2 ^ 63"
    and "distinct (map (MsgID \<circ> ev_layer) es)" and "\<forall>e \<in> set es. SeenMsgs n (MsgID (ev_layer e)) = None"
    and "collected f tot ch I n" and "I \<union> set ix \<subseteq> {1..tot}" and "I \<union> set ix \<noteq> {1..tot}"
  shows "\<exists>n'. run_layers es n = Ok n' \<and> collected f tot ch (I \<union> set ix) n' \<and>
    ReceivedMsgs n' = ReceivedMsgs n \<and>
    (\<forall>m. m \<notin> (MsgID \<circ> ev_layer) ` set es \<longrightarrow> SeenMsgs n' m = SeenMsgs n m)"
  using assms
proof (induction es ix arbitrary: n I rule: list_all2_induct)
  case (Cons e es i ix)
  obtain dial ds now layer where e: "e = (dial, ds, now, layer)" by (cases e)
  let ?n1 = "n\<lparr>SeenMsgs := (SeenMsgs n)(MsgID layer \<mapsto> now)\<rparr>"
  have "insert i I \<noteq> {1..tot}" and sub: "insert i I \<subseteq> {1..tot}" using Cons.prems(6,7) by auto
  moreover have "collected f tot ch I ?n1" using Cons.prems(5) by (simp add: collected_def)
  ultimately obtain n2 where n2: "store_chunk f i tot (ch i) ?n1 = Ok n2" "collected f tot ch (insert i I) n2"
    "ReceivedMsgs n2 = ReceivedMsgs n" "SeenMsgs n2 = (SeenMsgs n)(MsgID layer \<mapsto> now)"
    using store_chunk_more [of f tot ch I ?n1 i] by auto
  have step: "handle_layer dial ds now layer n = Ok (n2, send_ack dial ds layer, [])"
    using n2(1) Cons.hyps(1) Cons.prems(1,2,4) sub e
    by (intro handle_chunk [where f = f and tot = tot and ch = ch and i = i]) auto
  have "\<exists>n'. run_layers es n2 = Ok n' \<and> collected f tot ch (insert i I \<union> set ix) n' \<and>
    ReceivedMsgs n' = ReceivedMsgs n2 \<and>
    (\<forall>m. m \<notin> (MsgID \<circ> ev_layer) ` set es \<longrightarrow> SeenMsgs n' m = SeenMsgs n2 m)"
  proof (rule Cons.IH)
    show "\<forall>e' \<in> set es. SeenMsgs n2 (MsgID (ev_layer e')) = None"
      using Cons.prems(3,4) n2(4) e by (auto simp: image_iff)
  qed (use Cons.prems n2 e in auto)
  then show ?case using step n2 e by (auto simp: insert_commute)
qed auto

lemma reassembly:
  assumes "splitMessage message fragChunkSize = Some chunks" and "int (length chunks) < 2 ^ 63 - 1"
    and "colon \<notin> set f" and "FragBuf n f = None"
    and "list_all2 (\<lambda>e i. is_chunk f (int (length chunks)) (\<lambda>j. chunks ! nat (j - 1)) (ev_layer e) i) evs ix"
    and "set ix = {1..int (length chunks)}" and "set (butlast ix) \<noteq> set ix"
    and "distinct (map (MsgID \<circ> ev_layer) evs)" and "\<forall>e \<in> set evs. SeenMsgs n (MsgID (ev_layer e)) = None"
  shows "\<exists>n'. run_layers evs n = Ok n' \<and> ReceivedMsgs n' = ReceivedMsgs n @ [message] \<and>
    FragBuf n' f = None \<and> FragTotal n' f = None"
proof -
  let ?tot = "int (length chunks)" and ?ch = "\<lambda>j. chunks ! nat (j - 1)"
  have "ix \<noteq> []" using assms(7) by auto
  then obtain js i where js: "ix = js @ [i]" by (metis append_butlast_last_id)
  with assms(5) obtain es e where es: "evs = es @ [e]" and chunk: "is_chunk f ?tot ?ch (ev_layer e) i"
    and more: "list_all2 (\<lambda>e i. is_chunk f ?tot ?ch (ev_layer e) i) es js"
    by (auto simp: list_all2_append2 list_all2_Cons2)
  obtain n1 where n1: "run_layers es n = Ok n1" "collected f ?tot ?ch (set js) n1"
    "ReceivedMsgs n1 = ReceivedMsgs n" "\<forall>m. m \<notin> (MsgID \<circ> ev_layer) ` set es \<longrightarrow> SeenMsgs n1 m = SeenMsgs n m"
    using run_chunks_more [OF more assms(3), of n "{}"] assms js es by (auto simp: collected_def)
  obtain dial ds now layer where e: "e = (dial, ds, now, layer)" by (cases e)
  have fresh: "SeenMsgs n1 (MsgID layer) = None" using n1(4) assms(8,9) es e by auto
  let ?n2 = "n1\<lparr>SeenMsgs := (SeenMsgs n1)(MsgID layer \<mapsto> now)\<rparr>"
  have "collected f ?tot ?ch (set js) ?n2" using n1(2) by (simp add: collected_def)
  from store_chunk_last [OF this, of i] assms(2,6) js obtain n3 where
    n3: "store_chunk f i ?tot (?ch i) ?n2 = Ok n3" "FragBuf n3 f = None" "FragTotal n3 f = None"
      "ReceivedMsgs n3 = ReceivedMsgs n1 @ [concat (map ?ch [1..?tot])]" by auto
  have "handle_layer dial ds now layer n1 = Ok (n3, send_ack dial ds layer, [])"
    using chunk e assms(2,3,6) js fresh n3(1)
    by (intro handle_chunk [where f = f and tot = ?tot and ch = ?ch and i = i]) auto
  moreover have "concat (map ?ch [1..?tot]) = message"
    using splitMessage_concat [OF assms(1)] by (simp add: map_nth_upto)
  ultimately show ?thesis using n1 n3 e by (simp add: es run_layers_append)
qed

text \<open>
  C16: however the network orders the connections, and whatever duplicates arrive before the set is
  complete, the chunks \<open>splitMessage\<close> cut a message into, each in a fresh FINAL layer with the
  header the sender prints, make the receiver record exactly the original message, once, and leave
  no buffer behind. The last connection is the one that completes the set.
\<close>

theorem reassembly_any_order:
  assumes "splitMessage message fragChunkSize = Some chunks" and "int (length chunks) < 2 ^ 63 - 1"
    and "colon \<notin> set f" and "FragBuf n f = None"
    and "list_all2 (\<lambda>e i. is_chunk f (int (length chunks)) (\<lambda>j. chunks ! nat (j - 1)) (ev_layer e) i) evs ix"
    and "set ix = {1..int (length chunks)}" and "set (butlast ix) \<noteq> set ix"
    and "distinct (map (MsgID \<circ> ev_layer) evs)" and "\<forall>e \<in> set evs. SeenMsgs n (MsgID (ev_layer e)) = None"
  shows "\<exists>n'. run_layers evs n = Ok n' \<and> ReceivedMsgs n' = ReceivedMsgs n @ [message] \<and>
    FragBuf n' f = None \<and> FragTotal n' f = None"
  using assms by (rule reassembly)

text \<open>A message of two chunks whose second chunk arrives first, twice.\<close>

definition two_chunk_events :: "layer_event list" where
  "two_chunk_events =
     [(\<lambda>_ _. True, [], 1, zero_layer\<lparr>Type := ''FINAL'', MsgID := ''11'', Message := ''tail'', Frag := frag_header ''7'' 2 2\<rparr>),
      (\<lambda>_ _. True, [], 2, zero_layer\<lparr>Type := ''FINAL'', MsgID := ''12'', Message := ''tail'', Frag := frag_header ''7'' 2 2\<rparr>),
      (\<lambda>_ _. True, [], 3, zero_layer\<lparr>Type := ''FINAL'', MsgID := ''13'', Message := replicate 4096 (CHR ''a''),
         Frag := frag_header ''7'' 1 2\<rparr>)]"

theorem reassembly_any_order_witness:
  "\<exists>n'. run_layers two_chunk_events (NewNode ideal_crypto ''D'' [] 1 9000) = Ok n' \<and>
     ReceivedMsgs n' = [replicate 4096 (CHR ''a'') @ ''tail''] \<and> FragBuf n' ''7'' = None"
proof -
  let ?m = "replicate 4096 (CHR ''a'') @ ''tail''" and ?n = "NewNode ideal_crypto ''D'' [] 1 9000"
  have split: "splitMessage ?m fragChunkSize = Some [replicate 4096 (CHR ''a''), ''tail'']"
    unfolding splitMessage_def by (subst split_loop.simps, simp, subst split_loop.simps, simp)
  have is12: "{1..2::int} = {1, 2}" by auto
  have "\<exists>n'. run_layers two_chunk_events ?n = Ok n' \<and> ReceivedMsgs n' = ReceivedMsgs ?n @ [?m] \<and>
    FragBuf n' ''7'' = None \<and> FragTotal n' ''7'' = None"
    by (rule reassembly_any_order [OF split, where ix = "[2, 2, 1]"])
      (auto simp: two_chunk_events_def is_chunk_def NewNode_def is12)
  then show ?thesis by (auto simp: NewNode_def)
qed

end
