(* ===== verification/Commands.thy ===== *)
theory Commands
  imports Send Fragments
begin

text \<open>
  The commands of a node: \<open>runCLI\<close> of \<open>node/cli.go\<close>, which reads them from the terminal, and
  \<open>processCmd\<close> with its HTTP handler of \<open>node/web.go\<close>, which gets them from the web page. A line is
  first taken apart into a command, then carried out. The sends run in goroutines of their own: a
  command leaves them as jobs, which \<open>SendWithRetry\<close> and \<open>SendWithRetrySuper\<close> work off. What is printed
  is left out.
\<close>

section \<open>Library functions\<close>

text \<open>
  \<open>strings.ToUpper\<close> as far as a comparison with an ASCII word can see it: besides the ASCII letters, the
  dotless i (U+0131) and the long s (U+017F) are the only runes whose upper case is ASCII; the other
  runes stay outside ASCII and are kept as they are.
\<close>

definition upper_char :: "char \<Rightarrow> char" where
  "upper_char c = (let n = (of_char c :: nat) in if 97 \<le> n \<and> n \<le> 122 then char_of (n - 32) else c)"

fun ToUpper :: "string \<Rightarrow> string" where
  "ToUpper [] = []"
| "ToUpper [c] = [upper_char c]"
| "ToUpper (c # d # cs) =
     (if c = CHR 0xC4 \<and> d = CHR 0xB1 then CHR ''I'' # ToUpper cs
      else if c = CHR 0xC5 \<and> d = CHR 0xBF then CHR ''S'' # ToUpper cs
      else upper_char c # ToUpper (d # cs))"

text \<open>\<open>strings.LastIndex\<close> of a one-byte separator, as the text before and after it.\<close>

definition split_last :: "char \<Rightarrow> string \<Rightarrow> (string \<times> string) option" where
  "split_last c s =
     (if c \<in> set s
      then Some (rev (tl (dropWhile (\<lambda>x. x \<noteq> c) (rev s))), rev (takeWhile (\<lambda>x. x \<noteq> c) (rev s)))
      else None)"

text \<open>The bytes \<open>base64.DecodeString\<close> returns, also beside an error: the quanta decoded so far.\<close>

fun decode_prefix :: "string \<Rightarrow> bytes" where
  "decode_prefix (a # b # c # d # rest) =
     (case (b64_val a, b64_val b) of
        (Some x, Some y) \<Rightarrow>
          (if c = pad
           then if d = pad then take 1 (triple (x * 262144 + y * 4096)) else []
           else case b64_val c of
               None \<Rightarrow> []
             | Some z \<Rightarrow>
                 (if d = pad then take 2 (triple (x * 262144 + y * 4096 + z * 64))
                  else case b64_val d of
                      None \<Rightarrow> []
                    | Some w \<Rightarrow> triple (x * 262144 + y * 4096 + z * 64 + w) @ decode_prefix rest))
      | _ \<Rightarrow> [])"
| "decode_prefix _ = []"

definition DecodeBytes :: "string \<Rightarrow> bytes" where
  "DecodeBytes s = decode_prefix (filter (\<lambda>c. c \<noteq> CHR 0x0D \<and> c \<noteq> nl) s)"

lemma decode_prefix_quanta: "decode_quanta s = Some b \<Longrightarrow> decode_prefix s = b"
  by (induction s arbitrary: b rule: decode_quanta.induct) (auto split: option.splits if_splits)

lemma DecodeBytes_String: "DecodeString s = Some b \<Longrightarrow> DecodeBytes s = b"
  by (simp add: DecodeString_def DecodeBytes_def decode_prefix_quanta)


section \<open>Taking a line apart\<close>

datatype command =
    NoCommand
  | FETCH addr
  | MSG addr string
  | RELAY "addr list" string
  | SEND int addr string                  \<comment> \<open>relays, destination, message\<close>
  | BENCH int int int addr                \<comment> \<open>messages, relays, tries, destination\<close>
  | LIST
  | REGEN
  | SSEND int int addr string             \<comment> \<open>group size, relays, destination, message\<close>
  | SBENCH int int int int addr           \<comment> \<open>messages, group size, relays, tries, destination\<close>
  | QUIT
  | Malformed
  | UnknownCommand

abbreviation number :: "string \<Rightarrow> int" where
  "number s \<equiv> fst (Atoi s)"

text \<open>The branches of the two switches, which differ only in what they put before the message.\<close>

definition parse_command :: "string \<Rightarrow> string \<Rightarrow> string \<Rightarrow> command" where
  "parse_command tag cmd data =
     (if cmd = ''FETCH'' then FETCH data
      else if cmd = ''MSG'' then
        (let p = SplitN colon 3 data in
         if length p < 3 then Malformed else MSG (p ! 0 @ '':'' @ p ! 1) (tag @ p ! 2))
      else if cmd = ''RELAY'' then
        (case split_last comma data of
           None \<Rightarrow> Malformed
         | Some (addrs, message) \<Rightarrow> RELAY (map TrimSpace (Split comma addrs)) (tag @ message))
      else if cmd = ''SEND'' then
        (let p = SplitN colon 4 data in
         if length p < 4 then Malformed
         else case Atoi (p ! 0) of
             (n, Some _) \<Rightarrow> Malformed
           | (n, None) \<Rightarrow> SEND n (p ! 1 @ '':'' @ p ! 2) (tag @ p ! 3))
      else if cmd = ''BENCH'' then
        (let p = SplitN colon 5 data in
         if length p < 5 then Malformed
         else BENCH (number (p ! 0)) (number (p ! 1)) (number (p ! 2)) (p ! 3 @ '':'' @ p ! 4))
      else if cmd = ''LIST'' then LIST
      else if cmd = ''REGEN'' then REGEN
      else if cmd = ''SSEND'' then
        (let p = SplitN colon 5 data in
         if length p < 5 then Malformed
         else SSEND (number (p ! 0)) (number (p ! 1)) (p ! 2 @ '':'' @ p ! 3) (tag @ p ! 4))
      else if cmd = ''SBENCH'' then
        (let p = SplitN colon 6 data in
         if length p < 6 then Malformed
         else SBENCH (number (p ! 0)) (number (p ! 1)) (number (p ! 2)) (number (p ! 3)) (p ! 4 @ '':'' @ p ! 5))
      else if cmd = ''QUIT'' then QUIT
      else UnknownCommand)"

definition cli_command :: "string \<Rightarrow> command" where
  "cli_command line =
     (let input = TrimSpace line in
      if input = [] then NoCommand
      else let parts = SplitN colon 2 input
           in parse_command [] (ToUpper (parts ! 0)) (if 1 < length parts then parts ! 1 else []))"

text \<open>In the mode \<open>auth\<close> the web page's messages carry the node's identifier.\<close>

definition web_command :: "string \<Rightarrow> string \<Rightarrow> string \<Rightarrow> command" where
  "web_command ident mode input =
     (if input = [] then NoCommand
      else let parts = SplitN colon 2 input
           in parse_command (if mode = ''auth'' then ''AUTH:'' @ ident @ '':'' else [])
                (ToUpper (TrimSpace (parts ! 0))) (if 1 < length parts then parts ! 1 else []))"


section \<open>Carrying a command out\<close>

text \<open>
  Goroutines started: destination, message, then fragment field, relays and tries for a \<open>SEND\<close>; relays,
  group size and tries for an \<open>SSEND\<close>.
\<close>

datatype job =
    Send_job addr string string int int
  | Super_job addr string int int int

text \<open>
  The state the commands work on: the node, the key cache, what has been sent to other nodes and told
  to the directory, the goroutines started, whether the node still listens and whether the command
  loop has ended.
\<close>

record ('pk, 'sk) shell =
  Self :: "('pk, 'sk) Node"
  Keys :: "'pk KeyCache"
  Outbox :: sends
  Told :: "string list"
  Jobs :: "job list"
  Listening :: bool
  Quitting :: bool

text \<open>
  The surroundings of a command: a peer refuses the connection, or says whether the request could be
  written and what it answers before it closes.
\<close>

record ('pk, 'sk) cmd_env =
  Peer :: "addr \<Rightarrow> (bool \<times> bytes) option"
  DirKeys :: "nat \<Rightarrow> directory"
  Clocks :: "nat \<Rightarrow> time \<times> time"
  Now :: time
  Entropy :: rng
  Reach :: "addr \<Rightarrow> bool"
  NewPriv :: "'sk option"
  Tell :: directory
  DirUp :: bool

definition store_fetched :: "('pk, 'sk) crypto \<Rightarrow> time \<Rightarrow> addr \<Rightarrow> string \<Rightarrow> 'pk KeyCache \<Rightarrow> 'pk KeyCache" where
  "store_fetched C now addr pubBase64 publicKeys =
     (case ParsePKIX C (DecodeBytes (TrimSpace pubBase64)) of
        Some (RSAKey pk) \<Rightarrow> set_key addr \<lparr>Key = pk, ExpiresAt = now + 30 * Second\<rparr> publicKeys
      | _ \<Rightarrow> publicKeys)"

definition cli_fetch :: "('pk, 'sk) crypto \<Rightarrow> ('pk, 'sk) cmd_env \<Rightarrow> addr \<Rightarrow> 'pk KeyCache \<Rightarrow> 'pk KeyCache" where
  "cli_fetch C env addr publicKeys =
     (case Peer env addr of
        Some (True, reply) \<Rightarrow>
          (case ReadString reply of Ok line \<Rightarrow> store_fetched C (Now env) addr line publicKeys | _ \<Rightarrow> publicKeys)
      | _ \<Rightarrow> publicKeys)"

text \<open>The web command ignores the errors of writing and reading.\<close>

definition web_fetch :: "('pk, 'sk) crypto \<Rightarrow> ('pk, 'sk) cmd_env \<Rightarrow> addr \<Rightarrow> 'pk KeyCache \<Rightarrow> 'pk KeyCache" where
  "web_fetch C env addr publicKeys =
     (case Peer env addr of
        Some (_, reply) \<Rightarrow>
          store_fetched C (Now env) addr (case ReadString reply of Ok line \<Rightarrow> line | _ \<Rightarrow> reply) publicKeys
      | None \<Rightarrow> publicKeys)"

text \<open>MSG and RELAY: an onion without a way back, sent at once.\<close>

definition send_along ::
  "('pk, 'sk) crypto \<Rightarrow> ('pk, 'sk) cmd_env \<Rightarrow> addr list \<Rightarrow> string \<Rightarrow> ('pk, 'sk) shell \<Rightarrow> ('pk, 'sk) shell res" where
  "send_along C env route message sh =
     (let (keys', built) = Encapsulator_func C (DirKeys env) (Clocks env) message [] route [] (Keys sh)
                             (node_address (Self sh)) (Entropy env);
          sh' = sh\<lparr>Keys := keys'\<rparr>
      in case built of
           Ok ((onion, _, _), _) \<Rightarrow>
             bind_res (index route 0) (\<lambda>first.
               Ok (sh'\<lparr>Outbox := snd (SendTo (\<lambda>_. Reach env) first onion (Outbox sh'))\<rparr>))
         | Err _ \<Rightarrow> Ok sh'
         | Panic \<Rightarrow> Panic
         | Blocked \<Rightarrow> Blocked)"

definition bench_jobs :: "int \<Rightarrow> (string \<Rightarrow> job) \<Rightarrow> string \<Rightarrow> job list" where
  "bench_jobs nbrMsg job text = map (\<lambda>i. job (text @ Itoa i)) [0..nbrMsg - 1]"

definition start :: "job list \<Rightarrow> ('pk, 'sk) shell \<Rightarrow> ('pk, 'sk) shell" where
  "start js sh = sh\<lparr>Jobs := Jobs sh @ js\<rparr>"

text \<open>The branches the two interfaces share.\<close>

definition shared_exec ::
  "('pk, 'sk) crypto \<Rightarrow> ('pk, 'sk) cmd_env \<Rightarrow> command \<Rightarrow> ('pk, 'sk) shell \<Rightarrow> ('pk, 'sk) shell res" where
  "shared_exec C env c sh =
     (case c of
        MSG dest message \<Rightarrow> send_along C env [dest] message sh
      | RELAY route message \<Rightarrow> send_along C env route message sh
      | BENCH nbr k tries dest \<Rightarrow> Ok (start (bench_jobs nbr (\<lambda>m. Send_job dest m [] k tries) ''bench-msg-'') sh)
      | SSEND grp k dest message \<Rightarrow> Ok (start [Super_job dest message k grp 3] sh)
      | SBENCH nbr grp k tries dest \<Rightarrow> Ok (start (bench_jobs nbr (\<lambda>m. Super_job dest m k grp tries) ''sbench-msg-'') sh)
      | REGEN \<Rightarrow> Ok (sh\<lparr>Self := fst (RegenerateKeys C (NewPriv env) (Tell env) (Self sh))\<rparr>)
      | QUIT \<Rightarrow> Ok (sh\<lparr>Told := Told sh @ (if DirUp env then [Stop (Self sh)] else []), Listening := False\<rparr>)
      | _ \<Rightarrow> Ok sh)"

text \<open>The jobs of \<open>SEND\<close> on the terminal: long messages are cut into fragments with a common identifier.\<close>

definition cli_jobs :: "rng \<Rightarrow> int \<Rightarrow> addr \<Rightarrow> string \<Rightarrow> job list res" where
  "cli_jobs r k dest message =
     (if length message \<le> fragChunkSize then Ok [Send_job dest message [] k 3]
      else bind_res (GenerateMsgID [''frag''] r) (\<lambda>(fragID, _).
             case send_jobs fragID message of
               None \<Rightarrow> Blocked
             | Some js \<Rightarrow> Ok (map (\<lambda>(frag, chunk). Send_job dest chunk frag k 3) js)))"

definition cli_exec ::
  "('pk, 'sk) crypto \<Rightarrow> ('pk, 'sk) cmd_env \<Rightarrow> command \<Rightarrow> ('pk, 'sk) shell \<Rightarrow> ('pk, 'sk) shell res" where
  "cli_exec C env c sh =
     (case c of
        FETCH addr \<Rightarrow> Ok (sh\<lparr>Keys := cli_fetch C env addr (Keys sh)\<rparr>)
      | SEND k dest message \<Rightarrow> bind_res (cli_jobs (Entropy env) k dest message) (\<lambda>js. Ok (start js sh))
      | QUIT \<Rightarrow> bind_res (shared_exec C env QUIT sh) (\<lambda>sh'. Ok (sh'\<lparr>Quitting := True\<rparr>))
      | _ \<Rightarrow> shared_exec C env c sh)"

definition web_exec ::
  "('pk, 'sk) crypto \<Rightarrow> ('pk, 'sk) cmd_env \<Rightarrow> command \<Rightarrow> ('pk, 'sk) shell \<Rightarrow> ('pk, 'sk) shell res" where
  "web_exec C env c sh =
     (case c of
        FETCH addr \<Rightarrow> Ok (sh\<lparr>Keys := web_fetch C env addr (Keys sh)\<rparr>)
      | SEND k dest message \<Rightarrow> Ok (start [Send_job dest message [] k 3] sh)
      | _ \<Rightarrow> shared_exec C env c sh)"

definition cli_line ::
  "('pk, 'sk) crypto \<Rightarrow> ('pk, 'sk) cmd_env \<Rightarrow> string \<Rightarrow> ('pk, 'sk) shell \<Rightarrow> ('pk, 'sk) shell res" where
  "cli_line C env line sh = cli_exec C env (cli_command line) sh"

text \<open>
  The terminal loop. A \<open>bufio.Scanner\<close> gives up on a line of 64 KiB or more, which ends the loop like
  the end of the input.
\<close>

fun runCLI ::
  "('pk, 'sk) crypto \<Rightarrow> (nat \<Rightarrow> ('pk, 'sk) cmd_env) \<Rightarrow> nat \<Rightarrow> string list \<Rightarrow> ('pk, 'sk) shell \<Rightarrow> ('pk, 'sk) shell res" where
  "runCLI C E i [] sh = Ok sh"
| "runCLI C E i (line # lines) sh =
     (if 65536 \<le> length line then Ok sh
      else bind_res (cli_line C (E i) line sh) (\<lambda>sh'.
             if Quitting sh' then Ok sh' else runCLI C E (Suc i) lines sh'))"

definition processCmd ::
  "('pk, 'sk) crypto \<Rightarrow> ('pk, 'sk) cmd_env \<Rightarrow> string \<Rightarrow> string \<Rightarrow> ('pk, 'sk) shell \<Rightarrow> ('pk, 'sk) shell res" where
  "processCmd C env input mode sh = web_exec C env (web_command (ID (Self sh)) mode input) sh"

text \<open>
  The HTTP handlers, given the method and the decoded body (\<open>None\<close>: not the expected JSON): the status,
  and the command started.
\<close>

definition makeHandleCmd :: "string \<Rightarrow> (string \<times> string) option \<Rightarrow> nat \<times> (string \<times> string) option" where
  "makeHandleCmd meth body =
     (if meth \<noteq> ''POST'' then (405, None)
      else case body of
          None \<Rightarrow> (400, None)
        | Some (cmd, mode) \<Rightarrow> (200, Some (TrimSpace cmd, TrimSpace mode)))"

definition makeHandleNodes :: "directory \<Rightarrow> string" where
  "makeHandleNodes ask = (case Node_GetNodesList ask of Ok l \<Rightarrow> if l = [] then ''LIST:empty'' else l | _ \<Rightarrow> ''LIST:empty'')"

end
