(* ===== verification/Session.thy ===== *)
theory Session
  imports Commands "HOL-Library.Sublist"
begin

text \<open>
  What the commands of \<open>Commands\<close> guarantee: the terminal and the web page carry out the same
  command, apart from the differences named; a \<open>SEND\<close> line becomes the fragments of its message; and
  a session at the terminal works off every line without a panic.
\<close>

section \<open>The two interfaces\<close>

lemma web_command_cli:
  assumes "mode \<noteq> ''auth''"
    and "TrimSpace (SplitN colon 2 (TrimSpace line) ! 0) = SplitN colon 2 (TrimSpace line) ! 0"
  shows "web_command ident mode (TrimSpace line) = cli_command line"
  using assms by (simp add: web_command_def cli_command_def Let_def)

lemma web_fetch_cli:
  "(\<And>ok reply. Peer env a = Some (ok, reply) \<Longrightarrow> ok \<and> nl \<in> set reply) \<Longrightarrow> web_fetch C env a keys = cli_fetch C env a keys"
  by (auto simp: web_fetch_def cli_fetch_def ReadString_def split: option.splits)


section \<open>The fragments of a line\<close>

lemma SplitN_line:
  "c \<notin> set a \<Longrightarrow> SplitN c (Suc (Suc n)) (a @ c # s) = a # SplitN c (Suc n) s"
  by simp

text \<open>What \<open>SEND:<relays>:<ip>:<port>:<message>\<close> parses to, and the jobs it starts.\<close>

definition send_line :: "int \<Rightarrow> string \<Rightarrow> string \<Rightarrow> string \<Rightarrow> string" where
  "send_line k ip port message = ''SEND:'' @ Itoa k @ colon # ip @ colon # port @ colon # message"

lemma cli_command_SEND:
  assumes "colon \<notin> set ip" and "colon \<notin> set port" and "- (2 ^ 63) \<le> k" and "k < 2 ^ 63"
    and "TrimSpace (send_line k ip port message) = send_line k ip port message"
  shows "cli_command (send_line k ip port message) = SEND k (ip @ colon # port) message"
proof -
  let ?data = "Itoa k @ colon # ip @ colon # port @ colon # message"
  have "SplitN colon 2 (send_line k ip port message) = [''SEND'', ?data]"
    unfolding send_line_def using SplitN_line [of colon "''SEND''" 0 ?data] by (simp add: numeral_2_eq_2)
  moreover have "SplitN colon 4 ?data = [Itoa k, ip, port, message]"
    using assms(1,2) by (simp add: numeral_eq_Suc)
  moreover have "ToUpper ''SEND'' = ''SEND''" by code_simp
  moreover have "send_line k ip port message \<noteq> []" by (simp add: send_line_def)
  ultimately show ?thesis using assms(5) Atoi_Itoa [OF assms(3,4)]
    by (simp add: cli_command_def Let_def parse_command_def)
qed

definition send_job :: "addr \<Rightarrow> int \<Rightarrow> string \<times> string \<Rightarrow> job" where
  "send_job dest k = (\<lambda>(frag, chunk). Send_job dest chunk frag k 3)"

lemma cli_line_SEND:
  assumes "colon \<notin> set ip" and "colon \<notin> set port" and "- (2 ^ 63) \<le> k" and "k < 2 ^ 63"
    and "TrimSpace (send_line k ip port message) = send_line k ip port message"
    and "GenerateMsgID [''frag''] (Entropy env) = Ok (fragID, r)"
  shows "\<exists>parts. send_jobs fragID message = Some parts \<and>
    cli_line C env (send_line k ip port message) sh = Ok (start (map (send_job (ip @ colon # port) k) parts) sh)"
proof (cases "length message \<le> fragChunkSize")
  case True
  then show ?thesis unfolding cli_line_def cli_command_SEND [OF assms(1-5)]
    by (simp add: cli_exec_def cli_jobs_def send_jobs_def send_job_def)
next
  case False
  then show ?thesis using assms(6) unfolding cli_line_def cli_command_SEND [OF assms(1-5)]
    by (auto simp: cli_exec_def cli_jobs_def send_jobs_def send_job_def splitMessage_def split_loop_chunks_of)
qed

lemma frag_id: "GenerateMsgID [''frag''] r = Ok (fragID, r') \<Longrightarrow> colon \<notin> set fragID"
  using GenerateMsgID_shape [of "[''frag'']" r fragID r'] digits_avoid [of _ colon] by auto

lemma send_jobs_long:
  assumes "send_jobs fragID message = Some parts" and "fragChunkSize < length message"
  shows "\<exists>chunks. splitMessage message fragChunkSize = Some chunks \<and> chunks \<noteq> [] \<and>
    parts = map (\<lambda>i. (frag_header fragID i (int (length chunks)), chunks ! nat (i - 1))) [1..int (length chunks)]"
proof -
  from assms obtain chunks where c: "splitMessage message fragChunkSize = Some chunks"
    "parts = map (\<lambda>(i, c). (frag_header fragID (int i + 1) (int (length chunks)), c)) (enumerate 0 chunks)"
    by (auto simp: send_jobs_def)
  have "chunks \<noteq> []" using splitMessage_concat [OF c(1)] assms(2) by auto
  moreover have "parts = map (\<lambda>i. (frag_header fragID i (int (length chunks)), chunks ! nat (i - 1))) [1..int (length chunks)]"
    unfolding c(2) by (intro nth_equalityI) (auto simp: nth_enumerate_eq nth_upto add.commute)
  ultimately show ?thesis using c(1) by blast
qed


text \<open>
  A \<open>SEND\<close> typed at the terminal starts jobs for exactly the destination of the line, with its
  number of relays and three tries each. Their messages have at most 4096 bytes and join to the
  message of the line; a single one has no fragment header, several are numbered from one under a
  common identifier.
\<close>

theorem SEND_line_jobs:
  assumes "colon \<notin> set ip" and "colon \<notin> set port" and "- (2 ^ 63) \<le> k" and "k < 2 ^ 63"
    and "TrimSpace (send_line k ip port message) = send_line k ip port message"
    and "GenerateMsgID [''frag''] (Entropy env) = Ok (fragID, r)"
  shows "\<exists>parts. cli_line C env (send_line k ip port message) sh =
      Ok (start (map (\<lambda>(frag, chunk). Send_job (ip @ colon # port) chunk frag k 3) parts) sh) \<and>
    concat (map snd parts) = message \<and> list_all (\<lambda>(_, chunk). length chunk \<le> 4096) parts \<and>
    map fst parts = (if length message \<le> 4096 then [[]]
                     else map (\<lambda>i. frag_header fragID i (int (length parts))) [1..int (length parts)])"
proof -
  from cli_line_SEND [OF assms] obtain parts where parts: "send_jobs fragID message = Some parts"
    "cli_line C env (send_line k ip port message) sh = Ok (start (map (send_job (ip @ colon # port) k) parts) sh)" by blast
  show ?thesis
  proof (cases "length message \<le> fragChunkSize")
    case True
    with parts show ?thesis by (intro exI [of _ parts]) (auto simp: send_jobs_def send_job_def)
  next
    case False
    with send_jobs_long [OF parts(1)] obtain chunks where c: "splitMessage message fragChunkSize = Some chunks"
      "parts = map (\<lambda>i. (frag_header fragID i (int (length chunks)), chunks ! nat (i - 1))) [1..int (length chunks)]"
      by auto
    have snds: "map snd parts = chunks" unfolding c(2) by (simp add: map_nth_upto comp_def)
    have "list_all (\<lambda>c. length c \<le> fragChunkSize) chunks"
      using c(1) chunks_of_sizes by (auto simp: splitMessage_def split_loop_chunks_of list_all_iff)
    then have "list_all (\<lambda>(_, chunk). length chunk \<le> 4096) parts"
      unfolding snds [symmetric] by (auto simp: list_all_iff)
    moreover have "length parts = length chunks" using snds by (metis length_map)
    moreover have "map fst parts = map (\<lambda>i. frag_header fragID i (int (length chunks))) [1..int (length chunks)]"
      unfolding c(2) by simp
    ultimately show ?thesis using parts(2) False splitMessage_concat [OF c(1)] snds
      by (intro exI [of _ parts]) (simp add: send_job_def)
  qed
qed

text \<open>A FINAL layer that carries what a job sends.\<close>

fun carries :: "job \<Rightarrow> OnionLayer \<Rightarrow> bool" where
  "carries (Send_job dest chunk frag k t) layer \<longleftrightarrow>
     Type layer = ''FINAL'' \<and> Message layer = chunk \<and> Frag layer = frag"
| "carries _ layer \<longleftrightarrow> False"

lemma jobs_by_index:
  assumes "set sel = set (map job [1..tot])" and "set (butlast sel) \<noteq> set sel" and "inj_on job {1..tot :: int}"
  shows "\<exists>ix. sel = map job ix \<and> set ix = {1..tot} \<and> set (butlast ix) \<noteq> set ix"
proof -
  have "set sel \<subseteq> job ` {1..tot}" using assms(1) by simp
  then have "sel \<in> lists (job ` {1..tot})" by blast
  then obtain ix where ix: "sel = map job ix" "set ix \<subseteq> {1..tot}" unfolding lists_image by auto
  have "job ` set ix = job ` {1..tot}" using assms(1) ix(1) by simp
  then have "set ix = {1..tot}" using inj_on_image_eq_iff [OF assms(3) ix(2)] by simp
  moreover have "set (butlast ix) \<noteq> set ix" using assms(2) ix(1) by (auto simp: map_butlast [symmetric])
  ultimately show ?thesis using ix(1) by blast
qed



section \<open>A session at the terminal\<close>

lemma length_trim_left: "length (trim_left ws s) \<le> length s"
proof (induction ws s rule: trim_left.induct)
  case (1 ws s)
  then show ?case by (subst trim_left.simps) (auto split: option.split)
qed

lemma length_TrimSpace: "length (TrimSpace s) \<le> length s"
  unfolding TrimSpace_def using length_trim_left [of "map rev white_space" "rev (trim_left white_space s)"]
    length_trim_left [of white_space s] by simp

lemma length_Split: "length (Split c s) \<le> Suc (length s)"
  by (induction s) (auto split: list.split)

lemma split_last_append: "split_last c s = Some (a, b) \<Longrightarrow> s = a @ c # b \<and> c \<notin> set b"
proof -
  assume "split_last c s = Some (a, b)"
  then have h: "c \<in> set s" "a = rev (tl (dropWhile (\<lambda>x. x \<noteq> c) (rev s)))" "b = rev (takeWhile (\<lambda>x. x \<noteq> c) (rev s))"
    by (auto simp: split_last_def split: if_splits)
  then obtain d ds where d: "dropWhile (\<lambda>x. x \<noteq> c) (rev s) = d # ds"
    by (cases "dropWhile (\<lambda>x. x \<noteq> c) (rev s)") (auto simp: dropWhile_eq_Nil_conv)
  then have "d = c" using hd_dropWhile [of "\<lambda>x. x \<noteq> c" "rev s"] by auto
  with d h have "rev s = rev b @ c # rev a" by (metis list.sel(3) rev_rev_ident takeWhile_dropWhile_id)
  then have "s = a @ c # b" by (metis append.assoc append_Cons append_Nil rev.simps(2) rev_append rev_rev_ident)
  moreover have "c \<notin> set b" using h(3) by (auto dest: set_takeWhileD)
  ultimately show ?thesis by simp
qed

lemma length_command_data: "1 < length (SplitN c 2 s) \<Longrightarrow> length (SplitN c 2 s ! 1) < length s"
proof -
  assume h: "1 < length (SplitN c 2 s)"
  then have c: "c \<in> set s" by (cases "c \<in> set s") (simp_all add: numeral_2_eq_2)
  then have "dropWhile (\<lambda>x. x \<noteq> c) s \<noteq> []" by (auto simp: dropWhile_eq_Nil_conv)
  then obtain d ds where d: "dropWhile (\<lambda>x. x \<noteq> c) s = d # ds" by (cases "dropWhile (\<lambda>x. x \<noteq> c) s") auto
  moreover have "length (dropWhile (\<lambda>x. x \<noteq> c) s) \<le> length s" by (rule length_dropWhile_le)
  ultimately show ?thesis using c by (simp add: numeral_2_eq_2 SplitN.simps(3))
qed

lemma parse_RELAY_length:
  assumes "parse_command tag cmd data = RELAY route message"
  shows "route \<noteq> [] \<and> length route \<le> length data"
proof -
  from assms obtain addrs m where *: "split_last comma data = Some (addrs, m)" "route = map TrimSpace (Split comma addrs)"
    by (auto simp: parse_command_def Let_def split: if_splits option.splits prod.splits)
  then have "length data = length addrs + Suc (length m)" using split_last_append [OF *(1)] by simp
  with *(2) length_Split [of comma addrs] show ?thesis by simp
qed

lemma cli_RELAY_length: "cli_command line = RELAY route message \<Longrightarrow> route \<noteq> [] \<and> length route \<le> length line"
proof -
  assume h: "cli_command line = RELAY route message"
  let ?s = "TrimSpace line" let ?parts = "SplitN colon 2 ?s"
  let ?data = "if 1 < length ?parts then ?parts ! 1 else []"
  from h have "parse_command [] (ToUpper (?parts ! 0)) ?data = RELAY route message"
    by (auto simp: cli_command_def Let_def split: if_splits)
  from parse_RELAY_length [OF this] have "route \<noteq> []" "length route \<le> length ?data" by simp_all
  moreover have "length ?data \<le> length ?s" using length_command_data [of colon ?s] by (auto simp: less_imp_le)
  ultimately show ?thesis using length_TrimSpace [of line] by linarith
qed

text \<open>The builder waits for nothing but the directory.\<close>

named_theorems unblocked

lemma bind_res_eq_Blocked [unblocked]: "bind_res m f = Blocked \<longleftrightarrow> m = Blocked \<or> (\<exists>x. m = Ok x \<and> f x = Blocked)"
  by (cases m) auto

lemma primitives_unblocked [unblocked]:
  "ReadFull k r \<noteq> Blocked" "of_option e x \<noteq> Blocked" "index xs j \<noteq> Blocked" "ReadString b \<noteq> Blocked"
  by (simp_all add: ReadFull_def index_def ReadString_def) (cases x; simp)

lemma GenerateMsgID_unblocked [unblocked]: "GenerateMsgID p r \<noteq> Blocked"
proof -
  have digit: "rand_Int10 r \<noteq> Blocked" for r by (induction r) (auto simp: Let_def)
  have "id_digits k r \<noteq> Blocked" for k r by (induction k arbitrary: r) (auto simp: unblocked digit)
  then show ?thesis by (auto simp: GenerateMsgID_def Let_def unblocked)
qed

lemma nack_ids_unblocked [unblocked]: "nack_ids k r \<noteq> Blocked"
  by (induction k arbitrary: r) (auto simp: unblocked)

lemma encrypt_cached_unblocked [unblocked]: "encrypt_cached C key p r \<noteq> Blocked"
  by (auto simp: encrypt_cached_def encryptForNode_def EncryptAES_def rsa_encrypt_def unblocked split: option.split)

lemma encryptOnionLayers_unblocked [unblocked]: "encryptOnionLayers C inner route keys s nacks r \<noteq> Blocked"
proof -
  have "onion_loop C keys route s nacks i p r \<noteq> Blocked" for i p r
    by (induction i arbitrary: p r) (auto simp: Let_def unblocked)
  then show ?thesis by (auto simp: encryptOnionLayers_def unblocked)
qed

lemma fetch_keys_unblocked:
  assumes "\<And>i line. ask i line \<noteq> Blocked"
  shows "snd (fetch_keys C ask clock i as keys) \<noteq> Blocked"
proof -
  have fetch: "FetchKeyFromServer C (ask i) a \<noteq> Blocked" for i a
    unfolding FetchKeyFromServer_def Let_def
    by (auto simp: unblocked assms split: parsed_key.split)
  show ?thesis
    using fetch by (induction C ask clock i as keys rule: fetch_keys.induct) (auto split: res.split)
qed

lemma Encapsulator_unblocked:
  assumes "\<And>i line. ask i line \<noteq> Blocked"
  shows "snd (Encapsulator_func C ask clock message frag route returnRoute keys sender r) \<noteq> Blocked"
proof -
  obtain keys' out where f: "fetch_keys C ask clock 0 (route @ returnRoute) keys = (keys', out)" by fastforce
  then have "out \<noteq> Blocked" using fetch_keys_unblocked [of ask C clock 0 "route @ returnRoute" keys] assms by auto
  then show ?thesis unfolding Encapsulator_func_def f
    by (auto simp: Let_def unblocked)
qed

text \<open>Surroundings of a command in which the directory's answers and the random bytes are in order.\<close>

definition orderly :: "('pk, 'sk) cmd_env \<Rightarrow> bool" where
  "orderly env \<longleftrightarrow> (\<forall>i line. DirKeys env i line \<notin> {Panic, Blocked}) \<and> good_rng 65536 (Entropy env)"

lemma send_along_orderly:
  assumes "orderly env" and "route \<noteq> []" and "length route \<le> 65536"
  shows "\<exists>keys' out. send_along C env route message sh = Ok (sh\<lparr>Keys := keys', Outbox := out\<rparr>)"
proof -
  obtain keys' built where b: "Encapsulator_func C (DirKeys env) (Clocks env) message [] route [] (Keys sh)
      (node_address (Self sh)) (Entropy env) = (keys', built)" by fastforce
  let ?built = "snd (Encapsulator_func C (DirKeys env) (Clocks env) message [] route [] (Keys sh)
      (node_address (Self sh)) (Entropy env))"
  have "?built \<noteq> Panic"
    using assms by (intro Encapsulator_calm [where k = 65536]) (auto simp: orderly_def calm_def)
  moreover have "?built \<noteq> Blocked"
    using assms(1) by (intro Encapsulator_unblocked) (auto simp: orderly_def)
  ultimately have built: "built \<noteq> Panic" "built \<noteq> Blocked" unfolding b by simp_all
  show ?thesis
  proof (cases built)
    case (Ok out)
    then show ?thesis using assms(2) b by (cases out) (auto simp: send_along_def Let_def split: prod.split)
  next
    case (Err e)
    then have "send_along C env route message sh = Ok (sh\<lparr>Keys := keys', Outbox := Outbox sh\<rparr>)"
      using b by (simp add: send_along_def Let_def)
    then show ?thesis by blast
  qed (use built in auto)
qed

text \<open>What a command leaves alone, and when it ends the session.\<close>

definition carried_on :: "('pk, 'sk) shell \<Rightarrow> ('pk, 'sk) shell \<Rightarrow> bool" where
  "carried_on sh sh' \<longleftrightarrow> ID (Self sh') = ID (Self sh) \<and> prefix (Jobs sh) (Jobs sh') \<and>
     (Quitting sh' \<and> \<not> Quitting sh \<longrightarrow> \<not> Listening sh')"

lemma shared_orderly:
  assumes "orderly env" and "\<And>route message. c = RELAY route message \<Longrightarrow> route \<noteq> [] \<and> length route \<le> 65536"
  shows "\<exists>sh'. shared_exec C env c sh = Ok sh' \<and> carried_on sh sh' \<and> Quitting sh' = Quitting sh \<and>
    (c = QUIT \<longrightarrow> \<not> Listening sh')"
proof (cases c)
  case (MSG dest message)
  from send_along_orderly [OF assms(1), of "[dest]" C message sh] MSG show ?thesis
    by (auto simp: shared_exec_def carried_on_def)
next
  case (RELAY route message)
  from send_along_orderly [OF assms(1), of route C message sh] assms(2) RELAY show ?thesis
    by (auto simp: shared_exec_def carried_on_def)
qed (auto simp: shared_exec_def carried_on_def start_def RegenerateKeys_def split: option.split)

lemma cli_jobs_orderly:
  assumes "orderly env"
  shows "\<exists>js. cli_jobs (Entropy env) k dest message = Ok js"
proof -
  from assms obtain m r1 where "GenerateMsgID [] (Entropy env) = Ok (m, r1)" by (auto simp: orderly_def good_rng_def)
  then have "\<exists>m r1. GenerateMsgID [''frag''] (Entropy env) = Ok (m, r1)"
    by (auto simp: GenerateMsgID_def Let_def bind_res_eq_Ok)
  then show ?thesis
    by (auto simp: cli_jobs_def send_jobs_def splitMessage_def split_loop_chunks_of)
qed

lemma cli_line_orderly:
  assumes "orderly env" and "length line \<le> 65536" and "\<not> Quitting sh"
  shows "\<exists>sh'. cli_line C env line sh = Ok sh' \<and> carried_on sh sh' \<and> (Quitting sh' \<longleftrightarrow> cli_command line = QUIT)"
proof -
  let ?c = "cli_command line"
  have shared: "\<exists>sh'. shared_exec C env ?c sh = Ok sh' \<and> carried_on sh sh' \<and> Quitting sh' = Quitting sh \<and>
      (?c = QUIT \<longrightarrow> \<not> Listening sh')"
    using cli_RELAY_length [of line] assms(2) by (intro shared_orderly [OF assms(1)]) fastforce
  show ?thesis
  proof (cases ?c)
    case (SEND k dest message)
    with cli_jobs_orderly [OF assms(1), of k dest message] assms(3) show ?thesis
      by (auto simp: cli_line_def cli_exec_def start_def carried_on_def)
  next
    case QUIT
    with shared assms(3) show ?thesis by (auto simp: cli_line_def cli_exec_def carried_on_def)
  qed (use shared assms(3) in \<open>auto simp: cli_line_def cli_exec_def carried_on_def\<close>)
qed

lemma session_runs:
  assumes "\<And>j. orderly (E j)" and "\<not> Quitting sh"
  shows "\<exists>sh'. runCLI C E i lines sh = Ok sh' \<and> ID (Self sh') = ID (Self sh) \<and> prefix (Jobs sh) (Jobs sh') \<and>
    (Quitting sh' \<longleftrightarrow> (\<exists>line \<in> set (takeWhile (\<lambda>l. length l < 65536) lines). cli_command line = QUIT)) \<and>
    (Quitting sh' \<longrightarrow> \<not> Listening sh')"
  using assms(2)
proof (induction lines arbitrary: i sh)
  case (Cons line lines)
  show ?case
  proof (cases "65536 \<le> length line")
    case False
    then obtain sh1 where sh1: "cli_line C (E i) line sh = Ok sh1" "carried_on sh sh1"
      "Quitting sh1 \<longleftrightarrow> cli_command line = QUIT"
      using cli_line_orderly [OF assms(1), of line sh] Cons.prems by auto
    show ?thesis
    proof (cases "Quitting sh1")
      case True
      with sh1 False Cons.prems show ?thesis by (auto simp: carried_on_def)
    next
      case nq: False
      from Cons.IH [OF nq, of "Suc i"] sh1 False nq show ?thesis
        by (auto simp: carried_on_def intro: prefix_order.trans)
    qed
  qed (use Cons.prems in auto)
qed simp



section \<open>Concrete sessions\<close>

lemma zeros_digits: "id_digits k (replicate (k + m) (CHR 0x00)) = Ok (replicate k (digit 0), replicate m (CHR 0x00))"
  by (induction k) simp_all

lemma zeros_id:
  "GenerateMsgID p (replicate (10 + m) (CHR 0x00)) =
     Ok ((if p \<noteq> [] \<and> hd p \<noteq> [] then hd p @ ''-'' else ''msg-'') @ ''0000000000'', replicate m (CHR 0x00))"
proof -
  have "replicate 10 (digit 0) = ''0000000000''" by code_simp
  then show ?thesis unfolding GenerateMsgID_def zeros_digits by simp
qed

lemma zeros_nacks: "nack_ids j (replicate (10 * j + m) (CHR 0x00)) \<noteq> Panic"
proof (induction j)
  case (Suc j)
  then show ?case using zeros_id [of "[''nack'']" "10 * j + m"] by (auto simp: bind_res_eq_Panic add.assoc)
qed simp

lemma zeros_good: "good_rng k (replicate (10 + (10 * Suc k)) (CHR 0x00))"
proof -
  have "nack_ids j (replicate (10 * Suc k) (CHR 0x00)) \<noteq> Panic" if "j \<le> Suc k" for j
    using zeros_nacks [of j "10 * (Suc k - j)"] that by (simp add: diff_mult_distrib2)
  then show ?thesis unfolding good_rng_def zeros_id by blast
qed

definition quiet_env :: "(nat, nat) cmd_env" where
  "quiet_env = \<lparr>Peer = \<lambda>_. None, DirKeys = \<lambda>_ _. Err ErrNet, Clocks = \<lambda>_. (0, 0), Now = 0,
     Entropy = replicate (10 + 10 * Suc 65536) (CHR 0x00), Reach = \<lambda>_. True, NewPriv = Some 9,
     Tell = \<lambda>_. Err ErrNet, DirUp = True\<rparr>"

definition fresh_shell :: "(nat, nat) shell" where
  "fresh_shell = \<lparr>Self = NewNode ideal_crypto ''N'' [] 1 9000, Keys = Map.empty, Outbox = [], Told = [],
     Jobs = [], Listening = True, Quitting = False\<rparr>"

lemma quiet_env_orderly: "orderly quiet_env"
  using zeros_good [of 65536] by (simp add: orderly_def quiet_env_def)

lemma quiet_env_frag:
  "GenerateMsgID [''frag''] (Entropy quiet_env) = Ok (''frag-0000000000'', replicate (10 * Suc 65536) (CHR 0x00))"
  unfolding quiet_env_def cmd_env.simps zeros_id by simp


abbreviation typed :: string where "typed \<equiv> replicate 4096 (CHR ''a'') @ ''tail''"

lemma typed_line: "TrimSpace (send_line 2 ''host'' ''80'' typed) = send_line 2 ''host'' ''80'' typed"
  by (rule TrimSpace_id) (simp_all add: send_line_def printable_def)

theorem SEND_line_jobs_witness:
  "\<exists>parts. cli_line ideal_crypto quiet_env (send_line 2 ''host'' ''80'' typed) fresh_shell =
      Ok (start (map (\<lambda>(frag, chunk). Send_job ''host:80'' chunk frag 2 3) parts) fresh_shell) \<and>
    concat (map snd parts) = typed \<and>
    map fst parts = map (\<lambda>i. frag_header ''frag-0000000000'' i (int (length parts))) [1..int (length parts)]"
  using SEND_line_jobs [OF _ _ _ _ typed_line quiet_env_frag, of ideal_crypto fresh_shell] by auto

definition typed_events :: "layer_event list" where
  "typed_events =
     [(\<lambda>_ _. True, [], 1, zero_layer\<lparr>Type := ''FINAL'', MsgID := ''11'', Message := ''tail'',
         Frag := frag_header ''frag-0000000000'' 2 2\<rparr>),
      (\<lambda>_ _. True, [], 2, zero_layer\<lparr>Type := ''FINAL'', MsgID := ''12'', Message := ''tail'',
         Frag := frag_header ''frag-0000000000'' 2 2\<rparr>),
      (\<lambda>_ _. True, [], 3, zero_layer\<lparr>Type := ''FINAL'', MsgID := ''13'', Message := replicate 4096 (CHR ''a''),
         Frag := frag_header ''frag-0000000000'' 1 2\<rparr>)]"

lemma typed_jobs:
  "cli_line ideal_crypto quiet_env (send_line 2 ''host'' ''80'' typed) fresh_shell =
   Ok (start [Send_job ''host:80'' (replicate 4096 (CHR ''a'')) (frag_header ''frag-0000000000'' 1 2) 2 3,
              Send_job ''host:80'' ''tail'' (frag_header ''frag-0000000000'' 2 2) 2 3] fresh_shell)"
proof -
  have split: "splitMessage typed fragChunkSize = Some [replicate 4096 (CHR ''a''), ''tail'']"
    unfolding splitMessage_def by (subst split_loop.simps, simp, subst split_loop.simps, simp)
  from cli_line_SEND [OF _ _ _ _ typed_line quiet_env_frag, of ideal_crypto fresh_shell] show ?thesis
    by (auto simp: send_jobs_def split send_job_def enumerate_eq_zip)
qed



end
