(* ===== verification/DirectoryMain.thy ===== *)
theory DirectoryMain
  imports Session
begin

text \<open>
  The directory from start to end: \<open>main\<close>, the accept loop, the probes and the console of
  \<open>List_Serveur/serveur.go\<close>, which share the table.
\<close>

section \<open>Lines without a newline inside\<close>

lemma trim_left_suffix: "\<exists>p. s = p @ trim_left ws s"
proof (induction ws s rule: trim_left.induct)
  case (1 ws s)
  show ?case
  proof (cases "find (\<lambda>w. w \<noteq> [] \<and> HasPrefix s w) ws")
    case None
    then show ?thesis by (subst trim_left.simps) simp
  next
    case (Some w)
    from 1 [OF Some] obtain p where "drop (length w) s = p @ trim_left ws (drop (length w) s)" by blast
    then have "s = (take (length w) s @ p) @ trim_left ws (drop (length w) s)" by (metis append.assoc append_take_drop_id)
    moreover have "trim_left ws s = trim_left ws (drop (length w) s)" using Some by (simp add: trim_left.simps [of ws s])
    ultimately show ?thesis by metis
  qed
qed

lemma trim_left_subset: "set (trim_left ws s) \<subseteq> set s"
  using trim_left_suffix [of s ws] by (metis Un_upper2 set_append)

lemma TrimSpace_no_newline:
  assumes "nl \<notin> set s"
  shows "nl \<notin> set (TrimSpace (s @ [nl]))"
proof -
  let ?t = "trim_left white_space (s @ [nl])"
  obtain p where p: "s @ [nl] = p @ ?t" using trim_left_suffix by blast
  show ?thesis
  proof (cases "?t = []")
    case True
    then show ?thesis by (simp add: TrimSpace_def trim_left.simps [of _ "[]"] white_space_def HasPrefix_def)
  next
    case False
    then obtain u where t: "?t = u @ [nl]" using p by (metis append_butlast_last_id last_appendR last_snoc)
    then have "s = p @ u" using p by (metis append.assoc append_same_eq)
    then have u: "nl \<notin> set u" using assms by simp
    have "trim_left (map rev white_space) (nl # rev u) = trim_left (map rev white_space) (rev u)"
      by (subst trim_left.simps) (simp add: white_space_def HasPrefix_def)
    then have "nl \<notin> set (trim_left (map rev white_space) (nl # rev u))"
      using trim_left_subset [of "map rev white_space" "rev u"] u by auto
    then have "nl \<notin> set (trim_left (map rev white_space) (rev ?t))" unfolding t by simp
    then show ?thesis by (simp add: TrimSpace_def)
  qed
qed


section \<open>The console\<close>

text \<open>What \<open>showNodes\<close> prints; \<open>msg\<close> is the text of an error.\<close>

definition show_node :: "NodeInfo \<Rightarrow> string" where
  "show_node info = ''  . '' @ Name info @ '' - Addr: '' @ Ip info @ '':'' @ Itoa (InfoPort info) @ '', Key: '' @ InfoKey info @
     '', [Sa:'' @ Itoa (AvailabilityScore info) @ '' Sn:'' @ Itoa (NetworkScore info) @ '']'' @ [nl]"

definition showNodes :: "'db sqlite \<Rightarrow> (go_error \<Rightarrow> string) \<Rightarrow> draws \<Rightarrow> 'db \<Rightarrow> string" where
  "showNodes S msg ds db =
     (case GetNodesList S MaxSampleNodes ds db of
        Ok nodes \<Rightarrow> [nl] @ ''=== Noeuds connect'' @ [CHR 0xC3, CHR 0xA9] @ ''s ==='' @ [nl] @
          (if nodes = [] then ''  (aucun)'' @ [nl] else concat (map show_node nodes)) @
          ''Total: '' @ Itoa (int (length nodes)) @ [nl, nl]
      | Err e \<Rightarrow> ''Error: '' @ msg e @ [nl]
      | _ \<Rightarrow> [])"


section \<open>The directory as a whole\<close>

text \<open>
  What happens to a running directory: a connection with all its peer writes, a connection that cannot
  be accepted, a probe, a line at the console, or the end of the console's input.
\<close>

datatype dir_event =
    Connection dir_env bytes
  | AcceptFails
  | Probe "addr \<Rightarrow> bool" draws
  | Input string draws
  | EndOfInput

text \<open>The table, whether \<open>acceptConnections\<close> and \<open>main\<close> still run, and what the console has shown.\<close>

record 'db server =
  Table :: 'db
  Accepting :: bool
  Running :: bool
  Shown :: string

text \<open>A line of 64 KiB ends the scanner, and with it \<open>main\<close>, like the end of the input.\<close>

fun dir_step :: "'db sqlite \<Rightarrow> (go_error \<Rightarrow> string) \<Rightarrow> dir_event \<Rightarrow> 'db server \<Rightarrow> 'db server" where
  "dir_step S msg (Connection env conn) sv =
     (if Running sv \<and> Accepting sv then sv\<lparr>Table := fst (handleConnection S env conn (Table sv))\<rparr> else sv)"
| "dir_step S msg AcceptFails sv = (if Running sv then sv\<lparr>Accepting := False\<rparr> else sv)"
| "dir_step S msg (Probe up ds) sv = (if Running sv then sv\<lparr>Table := TestPing S up ds (Table sv)\<rparr> else sv)"
| "dir_step S msg (Input line ds) sv =
     (if \<not> Running sv then sv
      else if 65536 \<le> length line then sv\<lparr>Running := False\<rparr>
      else if ToUpper (TrimSpace line) = ''LIST'' then sv\<lparr>Shown := Shown sv @ showNodes S msg ds (Table sv)\<rparr>
      else if ToUpper (TrimSpace line) = ''QUIT'' then
        sv\<lparr>Shown := Shown sv @ ''Shutting down server...'' @ [nl], Running := False\<rparr>
      else sv\<lparr>Shown := Shown sv @ ''Commande inconnue. Utilise LIST ou QUIT'' @ [nl]\<rparr>)"
| "dir_step S msg EndOfInput sv = sv\<lparr>Running := False\<rparr>"

text \<open>
  What \<open>main\<close> needs from outside: the certificate, the listener, the database (\<open>Connect\<close> opens it and
  ignores the outcome of its two pragmas). It gives up at the first error.
\<close>

record 'db boot =
  LoadX509KeyPair :: "unit res"
  Listen :: "unit res"
  Connect :: "'db res"

definition directory_main :: "'db sqlite \<Rightarrow> (go_error \<Rightarrow> string) \<Rightarrow> 'db boot \<Rightarrow> dir_event list \<Rightarrow> 'db server res" where
  "directory_main S msg h evs =
     bind_res (LoadX509KeyPair h) (\<lambda>_. bind_res (Listen h) (\<lambda>_. bind_res (Connect h) (\<lambda>db.
     bind_res (InitTable S db) (\<lambda>db1.
       case ClearTable S db1 of
         (db2, r) \<Rightarrow> bind_res r (\<lambda>_.
           Ok (fold (dir_step S msg) evs \<lparr>Table = db2, Accepting = True, Running = True, Shown = []\<rparr>))))))"

text \<open>
  The type of a row: 64-bit numbers, and a name and a key that a reply can carry as one field of one
  line.
\<close>

definition row_typed :: "NodeInfo \<Rightarrow> bool" where
  "row_typed i \<longleftrightarrow> int64 (InfoPort i) \<and> int64 (AvailabilityScore i) \<and> int64 (NetworkScore i) \<and>
     wire_name (Name i) \<and> wire_name (InfoKey i)"

definition table_typed :: "NodeInfo list \<Rightarrow> bool" where
  "table_typed rs \<longleftrightarrow> (\<forall>i \<in> set rs. row_typed i)"

fun sql_typed :: "sql \<Rightarrow> bool" where
  "sql_typed (INSERT i) \<longleftrightarrow> row_typed i"
| "sql_typed (UPDATE_publicKey k nm) \<longleftrightarrow> wire_name k"
| "sql_typed (UPDATE_availability s nm) \<longleftrightarrow> int64 s"
| "sql_typed _ \<longleftrightarrow> True"

lemma sql_rows_typed: "table_typed rs \<Longrightarrow> sql_typed q \<Longrightarrow> table_typed (sql_rows q rs)"
  by (cases q) (auto simp: table_typed_def row_typed_def)

lemma table_typed_mset: "mset rs = mset rs' \<Longrightarrow> table_typed rs = table_typed rs'"
  unfolding table_typed_def by (metis set_mset_mset)

lemma Split_typed:
  assumes "ReadString conn = Ok line" and "p \<in> set (Split colon (TrimSpace line))"
  shows "wire_name p"
proof -
  from assms(1) obtain s where s: "line = s @ [nl]" "nl \<notin> set s"
    by (auto simp: ReadString_def split: if_splits dest: set_takeWhileD)
  then have "nl \<notin> set (TrimSpace line)" using TrimSpace_no_newline by blast
  then show ?thesis using Split_piece_no_sep [OF assms(2)] Split_piece_subset [OF assms(2)] by (auto simp: wire_name_def)
qed

context sqlite_laws
begin

lemma exec_typed: "Exec S q db = Ok db' \<Longrightarrow> table_typed (rows db) \<Longrightarrow> sql_typed q \<Longrightarrow> table_typed (rows db')"
  using table_typed_mset [OF exec_rows] sql_rows_typed by blast

lemma keep_typed: "table_typed (rows db) \<Longrightarrow> sql_typed q \<Longrightarrow> table_typed (rows (or_keep db (Exec S q db)))"
  by (auto simp: or_keep_def exec_typed split: res.split)

lemma connection_typed:
  assumes "table_typed (rows db)"
  shows "table_typed (rows (fst (handleConnection S env conn db)))"
proof (cases "ReadString conn")
  case (Ok line)
  let ?parts = "Split colon (TrimSpace line)"
  have part: "wire_name (?parts ! j)" if "j < length ?parts" for j
    using Split_typed [OF Ok] that by simp
  have init: "table_typed (rows (fst (handle_INIT S env ?parts db)))"
  proof (cases "length ?parts < 6")
    case False
    then have "wire_name (?parts ! 1)" "wire_name (?parts ! 3)" using part by auto
    with assms Atoi_bounds show ?thesis
      by (auto simp: handle_INIT_def Let_def AddNode_def row_typed_def split: res.split dest!: exec_typed)
  qed (use assms in \<open>simp add: handle_INIT_def\<close>)
  have "table_typed (rows (fst (handle_command S env ?parts db)))"
    using assms init part
    by (auto simp: handle_command_def Let_def UpdateNodeKey_def RemoveNode_def keep_typed)
  then show ?thesis using Ok assms by (simp add: handleConnection_def Let_def)
qed (use assms in \<open>auto simp: handleConnection_def\<close>)

lemma ping_typed:
  assumes "table_typed (rows db)" and "row_typed i"
  shows "table_typed (rows (ping_node S up i db))"
proof -
  have "int64 (AvailabilityScore i sdiv 2)" using assms(2) by (auto simp: row_typed_def sdiv_2)
  with assms show ?thesis
    by (auto simp: ping_node_def Let_def RemoveNode_def UpdateAvailabilityScore_def row_typed_def min_def intro!: keep_typed)
qed

lemma probe_typed:
  assumes "table_typed (rows db)"
  shows "table_typed (rows (TestPing S up ds db))"
proof (cases "SelectWeighted S MaxSampleNodes ds db")
  case (Ok nodes)
  from select_some [OF Ok] have "set nodes \<subseteq> set (rows db)" by (metis set_mset_mono set_mset_mset)
  then have "\<forall>i \<in> set nodes. row_typed i" using assms by (auto simp: table_typed_def)
  then have "table_typed (rows (fold (ping_node S up) nodes db))"
    using assms by (induction nodes arbitrary: db) (auto simp: ping_typed)
  then show ?thesis using Ok by (simp add: TestPing_def GetNodesList_def)
qed (use assms in \<open>auto simp: TestPing_def GetNodesList_def\<close>)

lemma events_typed:
  "table_typed (rows (Table sv)) \<Longrightarrow> table_typed (rows (Table (fold (dir_step S msg) evs sv)))"
proof (induction evs arbitrary: sv)
  case (Cons ev evs)
  have "table_typed (rows (Table (dir_step S msg ev sv)))"
    using Cons.prems by (cases "(S, msg, ev, sv)" rule: dir_step.cases) (simp_all add: connection_typed probe_typed)
  then show ?case using Cons.IH by simp
qed simp

lemma clear_rows: "ClearTable S db = (db', Ok ()) \<Longrightarrow> rows db' = []"
  using exec_rows [of DELETE_all] exec_rows [of DELETE_sequence]
  by (fastforce simp: ClearTable_def split: res.splits)

end

lemma started:
  assumes "directory_main S msg h evs = Ok sv"
  obtains db2 where "sv = fold (dir_step S msg) evs \<lparr>Table = db2, Accepting = True, Running = True, Shown = []\<rparr>"
    and "\<exists>db1. ClearTable S db1 = (db2, Ok ())"
proof -
  from assms obtain db db1 where "Connect h = Ok db" "InitTable S db = Ok db1" "LoadX509KeyPair h = Ok ()" "Listen h = Ok ()"
    by (auto simp: directory_main_def bind_res_eq_Ok)
  moreover obtain db2 r where "ClearTable S db1 = (db2, r)" by fastforce
  ultimately show thesis using assms that by (auto simp: directory_main_def bind_res_eq_Ok)
qed


definition demo_boot :: "NodeInfo list boot" where
  "demo_boot = \<lparr>LoadX509KeyPair = Ok (), Listen = Ok (), Connect = Ok [demo_row ''old'' (2 ^ 70) 98]\<rparr>"

lemma demo_started: "directory_main list_db msg demo_boot evs =
    Ok (fold (dir_step list_db msg) evs \<lparr>Table = [], Accepting = True, Running = True, Shown = []\<rparr>)"
  by (simp add: directory_main_def demo_boot_def InitTable_def ClearTable_def list_db_def or_keep_def)



section \<open>How long a directory serves\<close>

text \<open>The events that end \<open>main\<close>, and those of a run that still have an effect on the table.\<close>

fun ends_main :: "dir_event \<Rightarrow> bool" where
  "ends_main (Input line ds) \<longleftrightarrow> 65536 \<le> length line \<or> ToUpper (TrimSpace line) = ''QUIT''"
| "ends_main EndOfInput \<longleftrightarrow> True"
| "ends_main _ \<longleftrightarrow> False"

fun served :: "bool \<Rightarrow> dir_event list \<Rightarrow> dir_event list" where
  "served accepting [] = []"
| "served accepting (Connection env conn # evs) =
     (if accepting then Connection env conn # served accepting evs else served accepting evs)"
| "served accepting (AcceptFails # evs) = served False evs"
| "served accepting (Probe up ds # evs) = Probe up ds # served accepting evs"
| "served accepting (ev # evs) = (if ends_main ev then [] else served accepting evs)"

fun table_step :: "'db sqlite \<Rightarrow> dir_event \<Rightarrow> 'db \<Rightarrow> 'db" where
  "table_step S (Connection env conn) db = fst (handleConnection S env conn db)"
| "table_step S (Probe up ds) db = TestPing S up ds db"
| "table_step S _ db = db"

lemma not_running: "\<not> Running sv \<Longrightarrow> fold (dir_step S msg) evs sv = sv"
proof (induction evs)
  case (Cons ev evs)
  then have "dir_step S msg ev sv = sv" by (cases "(S, msg, ev, sv)" rule: dir_step.cases) simp_all
  with Cons show ?case by simp
qed simp

lemma runs_served:
  "Running sv \<Longrightarrow>
   Table (fold (dir_step S msg) evs sv) = fold (table_step S) (served (Accepting sv) evs) (Table sv) \<and>
   (Running (fold (dir_step S msg) evs sv) \<longleftrightarrow> (\<forall>ev \<in> set evs. \<not> ends_main ev))"
proof (induction evs arbitrary: sv)
  case (Cons ev evs)
  show ?case
  proof (cases "ends_main ev")
    case True
    then have stop: "\<not> Running (dir_step S msg ev sv)" "Table (dir_step S msg ev sv) = Table sv"
      using Cons.prems by (cases "(S, msg, ev, sv)" rule: dir_step.cases; auto)+
    moreover have "served (Accepting sv) (ev # evs) = []" using True by (cases ev) auto
    ultimately show ?thesis using True by (simp add: not_running)
  next
    case False
    then have "Running (dir_step S msg ev sv)"
      using Cons.prems by (cases "(S, msg, ev, sv)" rule: dir_step.cases) auto
    from Cons.IH [OF this] False Cons.prems show ?thesis by (cases ev) auto
  qed
qed simp



end
