(* ===== verification/Lifecycle.thy ===== *)
theory Lifecycle
  imports DirectoryMain
begin

text \<open>
  A node from start to end: \<open>main\<close> in \<open>node/main.go\<close>, which picks an identifier, registers with the scores
  of its profile and hands over to the terminal.
\<close>

section \<open>A node from start to end\<close>

text \<open>
  What \<open>main\<close> reads: the command line, the environment, the private key and the port of the listener, if
  there are any.
\<close>

record 'sk start_env =
  Args :: "string list"
  NODE_ID :: string
  SERVER_ADDR :: string
  NETWORK_PROFILE :: string
  GenerateKey :: "'sk option"
  ListenPort :: "int option"

definition main_id :: "'sk start_env \<Rightarrow> string" where
  "main_id h = (if 2 \<le> length (Args h) \<and> \<not> HasPrefix (Args h ! 1) ''--'' then Args h ! 1 else NODE_ID h)"

definition main_server :: "'sk start_env \<Rightarrow> string" where
  "main_server h = (if SERVER_ADDR h = [] then ''localhost:8080'' else SERVER_ADDR h)"

definition node_main ::
  "('pk, 'sk) crypto \<Rightarrow> 'sk start_env \<Rightarrow> directory \<Rightarrow> (nat \<Rightarrow> ('pk, 'sk) cmd_env) \<Rightarrow> string list \<Rightarrow> ('pk, 'sk) shell res option" where
  "node_main C h ask E lines =
     (if main_id h = [] then None
      else case (GenerateKey h, ListenPort h) of
          (Some sk, Some port) \<Rightarrow>
            (let (sa, sn) = GetScoresFromProfile (NETWORK_PROFILE h);
                 node = fst (JoinServerList C ask sa sn (NewNode C (main_id h) (main_server h) sk port))
             in Some (runCLI C E 0 lines \<lparr>Self = node, Keys = newKeyCache, Outbox = [], Told = [], Jobs = [],
                                          Listening = True, Quitting = False\<rparr>))
        | _ \<Rightarrow> None)"

lemma profile_int64: "GetScoresFromProfile p = (sa, sn) \<Longrightarrow> int64 sa \<and> int64 sn"
  by (auto simp: GetScoresFromProfile_def split: if_splits)

lemma handle_quit:
  assumes "ident \<noteq> []" and "printable (last ident)" and "wire_name ident"
  shows "handleConnection S env (''QUIT:'' @ ident @ [nl]) db = (or_keep db (Exec S (DELETE_name ident) db), [])"
proof -
  let ?s = "''QUIT:'' @ ident"
  have "handleConnection S env (?s @ [nl]) db = handle_command S env (Split colon ?s) db"
    using assms by (intro handleConnection_line) (auto simp: wire_name_def printable_def)
  moreover have "Split colon ?s = [''QUIT'', ident]"
    using assms(3) Split_append [of colon "''QUIT''" ident] by (simp add: wire_name_def Split_no_sep)
  ultimately show ?thesis by (simp add: handle_command_def RemoveNode_def)
qed

lemma send_along_told: "send_along C env route m sh = Ok sh' \<Longrightarrow> Told sh' = Told sh"
  by (auto simp: send_along_def Let_def bind_res_eq_Ok split: prod.splits res.splits)

lemma cli_line_told:
  assumes "cli_line C env line sh = Ok sh'"
  shows "Told sh' = Told sh @ (if cli_command line = QUIT \<and> DirUp env then [Stop (Self sh)] else [])"
  using assms
  by (cases "cli_command line")
    (auto simp: cli_line_def cli_exec_def shared_exec_def start_def bind_res_eq_Ok dest: send_along_told)

lemma session_told:
  assumes "\<And>j. orderly (E j) \<and> DirUp (E j)" and "runCLI C E i lines sh = Ok sh'" and "\<not> Quitting sh"
  shows "Told sh' = Told sh @ (if Quitting sh' then [''QUIT:'' @ ID (Self sh) @ [nl]] else [])"
  using assms(2,3)
proof (induction lines arbitrary: i sh)
  case (Cons line lines)
  show ?case
  proof (cases "65536 \<le> length line")
    case False
    then obtain sh1 where sh1: "cli_line C (E i) line sh = Ok sh1" "carried_on sh sh1"
      "Quitting sh1 \<longleftrightarrow> cli_command line = QUIT"
      using cli_line_orderly [of "E i" line sh C] assms(1) Cons.prems(2) by auto
    note told = cli_line_told [OF sh1(1)]
    show ?thesis
    proof (cases "Quitting sh1")
      case True
      with sh1 told False Cons.prems assms(1) show ?thesis by (simp add: Stop_def)
    next
      case nq: False
      from False sh1(1) nq Cons.prems(1) have "runCLI C E (Suc i) lines sh1 = Ok sh'" by simp
      from Cons.IH [OF this nq] told sh1(2,3) nq show ?thesis by (simp add: carried_on_def)
    qed
  qed (use Cons.prems in auto)
qed simp



definition demo_start :: "nat start_env" where
  "demo_start = \<lparr>Args = [''node'', ''alice''], NODE_ID = ''other'', SERVER_ADDR = [], NETWORK_PROFILE = ''server'',
     GenerateKey = Some 3, ListenPort = Some 9001\<rparr>"

lemma demo_start_id: "main_id demo_start = ''alice''"
  by (simp add: main_id_def demo_start_def HasPrefix_def)


end
