(* ===== verification/Interleaving.thy ===== *)
theory Interleaving
  imports Network "HOL-Library.Sublist"
begin

text \<open>
  All nodes at once: connections in flight are handled in any order, can be lost or repeated, and an
  adversary can put any line on any connection at any time. Time passes, the eviction passes of the
  nodes run when they like, and the nodes' own commands change their channels, pending
  acknowledgements and keys. A handler is one step; one that panics takes its process down, as an
  unrecovered panic of a goroutine does in Go, and one that never finishes leaves its connection in
  flight.
\<close>

section \<open>The step relation\<close>

record ('pk, 'sk) world =
  Net :: "('pk, 'sk) net"
  Flight :: "(addr \<times> string) multiset"
  Clock :: time

text \<open>One connection carried to the node that accepts it.\<close>

definition conveyed ::
  "('pk, 'sk) crypto \<Rightarrow> (addr \<Rightarrow> bool) \<Rightarrow> addr \<times> string \<Rightarrow> ('pk, 'sk) world \<Rightarrow> (addr \<times> string) list \<Rightarrow> ('pk, 'sk) world \<Rightarrow> bool" where
  "conveyed C up msg w out w' \<longleftrightarrow> msg \<in># Flight w \<and>
     (\<exists>ds net'. serve C up (ds, Clock w) msg (Net w) = Ok (net', out) \<and>
        w' = w\<lparr>Net := net', Flight := Flight w - {#msg#} + mset out\<rparr>)"

text \<open>What the commands of a node may do to it between two handlers.\<close>

definition own_doing :: "('pk, 'sk) Node \<Rightarrow> ('pk, 'sk) Node \<Rightarrow> bool" where
  "own_doing n n' \<longleftrightarrow> n' = n\<lparr>PendingACKs := PendingACKs n', Chans := Chans n', PrivateKey := PrivateKey n',
                              PublicKey := PublicKey n', NodeIP := NodeIP n'\<rparr> \<and>
     (\<forall>ch. length (Chans n' ch) \<le> 1)"

inductive step :: "('pk, 'sk) crypto \<Rightarrow> (addr \<Rightarrow> bool) \<Rightarrow> ('pk, 'sk) world \<Rightarrow> ('pk, 'sk) world \<Rightarrow> bool"
  for C :: "('pk, 'sk) crypto" and up :: "addr \<Rightarrow> bool" where
  carry: "conveyed C up msg w out w' \<Longrightarrow> step C up w w'"
| crash: "msg \<in># Flight w \<Longrightarrow> serve C up (ds, Clock w) msg (Net w) = Panic \<Longrightarrow>
    step C up w (w\<lparr>Net := (Net w)(fst msg := None), Flight := Flight w - {#msg#}\<rparr>)"
| lose: "msg \<in># Flight w \<Longrightarrow> step C up w (w\<lparr>Flight := Flight w - {#msg#}\<rparr>)"
| inject: "step C up w (w\<lparr>Flight := Flight w + {#msg#}\<rparr>)"
| pass_time: "Clock w \<le> t \<Longrightarrow> step C up w (w\<lparr>Clock := t\<rparr>)"
| evict: "Net w a = Some n \<Longrightarrow> step C up w (w\<lparr>Net := (Net w)(a \<mapsto> StartNode_evict (Clock w) n)\<rparr>)"
| own: "Net w a = Some n \<Longrightarrow> own_doing n n' \<Longrightarrow> step C up w (w\<lparr>Net := (Net w)(a \<mapsto> n')\<rparr>)"

inductive_cases step_cases: "step C up w w'"

abbreviation run :: "('pk, 'sk) crypto \<Rightarrow> (addr \<Rightarrow> bool) \<Rightarrow> ('pk, 'sk) world \<Rightarrow> ('pk, 'sk) world \<Rightarrow> bool" where
  "run C up \<equiv> (step C up)\<^sup>*\<^sup>*"

lemma step_clock: "step C up w w' \<Longrightarrow> Clock w \<le> Clock w'"
  by (induction rule: step.induct) (auto simp: conveyed_def)

lemma run_clock: "run C up w w' \<Longrightarrow> Clock w \<le> Clock w'"
  by (induction rule: rtranclp_induct) (auto dest: step_clock intro: order_trans)


section \<open>One handler\<close>

lemma serve_cases:
  assumes "serve C up e msg net = Ok (net', out)"
  obtains (nobody) "net (fst msg) = None" "net' = net" "out = []"
  | (handled) n n' log rep where "net (fst msg) = Some n"
      "handlerroutine C (\<lambda>_. up) (fst e) (snd e) (snd msg @ [nl]) n = Ok (n', log, rep)"
      "net' = net(fst msg \<mapsto> n')" "out = delivered log"
  using assms by (auto simp: serve_def bind_res_eq_Ok split: option.splits)

text \<open>What a step leaves of a node that stays up.\<close>

definition same_node :: "('pk, 'sk) Node \<Rightarrow> ('pk, 'sk) Node \<Rightarrow> bool" where
  "same_node n n' \<longleftrightarrow> ID n' = ID n \<and> Port n' = Port n \<and> prefix (ReceivedMsgs n) (ReceivedMsgs n') \<and> (node_wf n \<longrightarrow> node_wf n')"

lemma same_node_refl [simp]: "same_node n n"
  by (simp add: same_node_def)

lemma same_node_trans: "same_node n n' \<Longrightarrow> same_node n' n'' \<Longrightarrow> same_node n n''"
  by (auto simp: same_node_def intro: prefix_order.trans)

lemma good_step_same: "good_step n n' \<Longrightarrow> same_node n n'"
  by (auto simp: good_step_def same_identity_def received_more_def same_node_def)

lemma evict_same [simp]: "same_node n (StartNode_evict t n)"
  by (simp add: same_node_def StartNode_evict_def node_wf_def)

lemma own_fields:
  assumes "own_doing n n'"
  shows "ID n' = ID n" "Port n' = Port n" "ReceivedMsgs n' = ReceivedMsgs n" "SeenMsgs n' = SeenMsgs n"
    "FragBuf n' = FragBuf n" "FragTotal n' = FragTotal n" "length (Chans n' ch) \<le> 1"
  using assms by (cases n; cases n'; simp add: own_doing_def)+

lemma own_same: "own_doing n n' \<Longrightarrow> same_node n n'"
  using own_fields(7) [of n n'] by (auto simp: same_node_def own_fields(1-6) node_wf_def)

lemma conveyed_Net:
  assumes "conveyed C up msg w out w'" and "Net w a = Some n"
  shows "\<exists>n'. Net w' a = Some n' \<and> (n' = n \<or> good_step n n')"
proof -
  from assms(1) obtain ds net' where s: "serve C up (ds, Clock w) msg (Net w) = Ok (net', out)" "Net w' = net'"
    by (auto simp: conveyed_def)
  from s(1) show ?thesis
  proof (cases rule: serve_cases)
    case (handled m m' log rep)
    from handler_good [OF handled(2)] handled(1,3) assms(2) s(2) show ?thesis by auto
  qed (use s(2) assms(2) in auto)
qed

lemma step_Net:
  assumes "step C up w w'" and "Net w a = Some n"
  shows "Net w' a = None \<or> (\<exists>n'. Net w' a = Some n' \<and> same_node n n')"
  using assms
proof (induction rule: step.induct)
  case (carry msg w out w')
  from conveyed_Net [OF carry.hyps carry.prems] show ?case by (auto dest: good_step_same)
qed (auto dest: own_same)

lemma step_down: "step C up w w' \<Longrightarrow> Net w a = None \<Longrightarrow> Net w' a = None"
proof (induction rule: step.induct)
  case (carry msg w out w')
  then obtain ds net' where s: "serve C up (ds, Clock w) msg (Net w) = Ok (net', out)" "Net w' = net'"
    by (auto simp: conveyed_def)
  from s(1) show ?case using s(2) carry.prems by (cases rule: serve_cases) auto
qed auto


section \<open>Reading a line\<close>

text \<open>The layer a node sees in a line, if it sees one.\<close>

definition opened :: "('pk, 'sk) crypto \<Rightarrow> ('pk, 'sk) Node \<Rightarrow> string \<Rightarrow> OnionLayer option" where
  "opened C n line =
     (case ReadString (line @ [nl]) of
        Ok l \<Rightarrow>
          (let s = TrimSpace l in
           if s = [] \<or> s = ''GET_PUBKEY'' \<or> HasPrefix s ''NACK:'' then None
           else case BroadcastDecrypt C s (PrivateKey n) of
               Ok d \<Rightarrow> (case StringToOnionLayer d of Ok layer \<Rightarrow> Some layer | _ \<Rightarrow> None)
             | _ \<Rightarrow> None)
      | _ \<Rightarrow> None)"

lemma handler_opened:
  "opened C n line = Some layer \<Longrightarrow> handlerroutine C dial ds now (line @ [nl]) n = handle_layer dial ds now layer n"
  by (auto simp: opened_def handlerroutine_def handle_line_def Let_def split: res.splits if_splits)

text \<open>
  \<open>acted C msg i w out w'\<close>: carrying \<open>msg\<close> made its node act on a RELAY or FINAL layer with the
  identifier \<open>i\<close>: it recorded a message or sent something on.
\<close>

definition acted ::
  "('pk, 'sk) crypto \<Rightarrow> addr \<times> string \<Rightarrow> string \<Rightarrow> ('pk, 'sk) world \<Rightarrow> (addr \<times> string) list \<Rightarrow> ('pk, 'sk) world \<Rightarrow> bool" where
  "acted C msg i w out w' \<longleftrightarrow>
     (\<exists>n n' layer. Net w (fst msg) = Some n \<and> Net w' (fst msg) = Some n' \<and> opened C n (snd msg) = Some layer \<and>
        Type layer \<in> {''RELAY'', ''FINAL''} \<and> MsgID layer = i \<and> (ReceivedMsgs n' \<noteq> ReceivedMsgs n \<or> out \<noteq> []))"

lemma handle_layer_seen_id:
  assumes "handle_layer dial ds now layer n = Ok (n', log, rep)" and "Type layer \<in> {''RELAY'', ''FINAL''}"
  shows "SeenMsgs n (MsgID layer) = None \<and> SeenMsgs n' (MsgID layer) = Some now \<or>
    SeenMsgs n (MsgID layer) \<noteq> None \<and> n' = n \<and> log = []"
proof (cases "SeenMsgs n (MsgID layer)")
  case None
  with handle_layer_seen [OF assms(1)] assms(2) show ?thesis by auto
next
  case (Some t)
  with assms show ?thesis by (auto simp: handle_layer_def seenMsg_def)
qed

lemma acted_seen:
  assumes "conveyed C up msg w out w'" and "acted C msg i w out w'"
  shows "\<exists>n n'. Net w (fst msg) = Some n \<and> Net w' (fst msg) = Some n' \<and> SeenMsgs n i = None \<and> SeenMsgs n' i = Some (Clock w)"
proof -
  from assms(1) obtain ds net' where s: "serve C up (ds, Clock w) msg (Net w) = Ok (net', out)" "Net w' = net'"
    by (auto simp: conveyed_def)
  from assms(2) obtain n n' layer where a: "Net w (fst msg) = Some n" "Net w' (fst msg) = Some n'"
    "opened C n (snd msg) = Some layer" "Type layer \<in> {''RELAY'', ''FINAL''}" "MsgID layer = i"
    "ReceivedMsgs n' \<noteq> ReceivedMsgs n \<or> out \<noteq> []" unfolding acted_def by blast
  from s(1) show ?thesis
  proof (cases rule: serve_cases)
    case nobody
    with a(1) show ?thesis by simp
  next
    case (handled m m' log rep)
    then have m: "m = n" "m' = n'" using a(1,2) s(2) by auto
    have "handle_layer (\<lambda>_. up) ds (Clock w) layer n = Ok (n', log, rep)"
      using handled(2) handler_opened [OF a(3), of "\<lambda>_. up" ds "Clock w"] m by simp
    from handle_layer_seen_id [OF this a(4)] a(5,6) handled(4) have "SeenMsgs n i = None \<and> SeenMsgs n' i = Some (Clock w)" by auto
    with a(1,2) show ?thesis by blast
  qed
qed

text \<open>What a node remembers of an identifier it acted on at time \<open>t\<close>.\<close>

definition remembers :: "addr \<Rightarrow> string \<Rightarrow> time \<Rightarrow> ('pk, 'sk) world \<Rightarrow> bool" where
  "remembers a i t w \<longleftrightarrow> t + 30 * Second < Clock w \<or>
     (\<forall>n. Net w a = Some n \<longrightarrow> (\<exists>s. SeenMsgs n i = Some s \<and> t \<le> s))"

lemma handler_keeps_seen:
  assumes "handlerroutine C dial ds now conn n = Ok (n', log, rep)" and "SeenMsgs n i = Some s"
  shows "SeenMsgs n' i = Some s"
proof -
  have layer: "SeenMsgs n1 i = Some s" if "handle_layer dial ds now l n = Ok (n1, log1, rep1)" for l n1 log1 rep1
    using that assms(2)
    by (auto simp: handle_layer_defs seenMsg_def store_fragment_def chan_send_def Let_def bind_res_eq_Ok
        split: if_splits prod.splits option.splits)
  have nack: "SeenMsgs n1 i = Some s" if "handle_nack dial m n = Ok (n1, log1, rep1)" for m n1 log1 rep1
    using that assms(2) by (auto simp: handle_nack_def chan_send_def Let_def bind_res_eq_Ok split: if_splits option.splits)
  show ?thesis using assms layer nack
    by (auto simp: handlerroutine_def handle_line_def split: res.splits if_splits)
qed

lemma remembers_step:
  assumes "step C up w w'" and "remembers a i t w"
  shows "remembers a i t w'"
  using assms
proof (induction rule: step.induct)
  case (carry msg w out w')
  then obtain ds net' where s: "serve C up (ds, Clock w) msg (Net w) = Ok (net', out)" "Net w' = net'" "Clock w' = Clock w"
    by (auto simp: conveyed_def)
  from s(1) show ?case
  proof (cases rule: serve_cases)
    case nobody
    with s carry.prems show ?thesis by (simp add: remembers_def)
  next
    case (handled n n' log rep)
    with s(2,3) carry.prems handler_keeps_seen [OF handled(2)] show ?thesis
      by (auto simp: remembers_def)
  qed
next
  case (evict w b n)
  show ?case
  proof (cases "t + 30 * Second < Clock w")
    case False
    with evict show ?thesis
      by (fastforce simp: remembers_def StartNode_evict_def evict_seen_def seen_expired_def)
  qed (simp add: remembers_def)
qed (fastforce simp: remembers_def own_fields)+

lemma remembers_run: "run C up w w' \<Longrightarrow> remembers a i t w \<Longrightarrow> remembers a i t w'"
  by (induction rule: rtranclp_induct) (auto dest: remembers_step)

text \<open>
  C6: Nothing an adversary does to the network makes a node act twice on one identifier within the
  replay window: between two actions of a node on RELAY or FINAL layers with the same identifier,
  in any run with any lines injected, lost, repeated and reordered, more than thirty seconds pass.
\<close>

theorem replay_window_run:
  assumes "conveyed C up (a, line) w out w1" and "acted C (a, line) i w out w1"
    and "run C up w1 v"
    and "conveyed C up (a, line') v out' v1" and "acted C (a, line') i v out' v1"
  shows "Clock w + 30 * Second < Clock v"
proof -
  from acted_seen [OF assms(1,2)] obtain n' where "Net w1 a = Some n'" "SeenMsgs n' i = Some (Clock w)" by auto
  then have "remembers a i (Clock w) w1" by (simp add: remembers_def)
  then have "remembers a i (Clock w) v" by (rule remembers_run [OF assms(3)])
  moreover from acted_seen [OF assms(4,5)] obtain m where "Net v a = Some m" "SeenMsgs m i = None" by auto
  ultimately show ?thesis by (auto simp: remembers_def)
qed

text \<open>
  C29: Whatever the network and an adversary do, every node that stays up keeps its identity and its
  shape: the identifier and the port never change, fragment buffers and channels stay well formed,
  and messages once received stay received, in order.
\<close>

theorem run_keeps_nodes:
  assumes "run C up w w'" and "Net w' a = Some n'"
  shows "\<exists>n. Net w a = Some n \<and> ID n' = ID n \<and> Port n' = Port n \<and> (node_wf n \<longrightarrow> node_wf n') \<and>
    prefix (ReceivedMsgs n) (ReceivedMsgs n')"
proof -
  have "\<exists>n. Net w a = Some n \<and> same_node n n'"
    using assms
  proof (induction arbitrary: n' rule: rtranclp_induct)
    case (step v v')
    from step_down [OF step.hyps(2), of a] step.prems obtain m where m: "Net v a = Some m" by fastforce
    from step_Net [OF step.hyps(2) m] step.prems have "same_node m n'" by auto
    with step.IH [OF m] show ?case by (auto intro: same_node_trans)
  qed auto
  then show ?thesis by (auto simp: same_node_def)
qed


section \<open>The queue of the delivery properties\<close>

text \<open>The clocks of a schedule never run backwards.\<close>

fun clocks_from :: "time \<Rightarrow> env \<Rightarrow> bool" where
  "clocks_from t [] \<longleftrightarrow> True"
| "clocks_from t ((ds, now) # es) \<longleftrightarrow> t \<le> now \<and> clocks_from now es"

text \<open>
  The schedules of the delivery properties, which take the connections in the order they were
  made, are runs of the network: what they lead to, the network can do.
\<close>

theorem run_net_is_run:
  assumes "run_net C up es q net = Ok (net', q')" and "clocks_from t es"
  shows "\<exists>t'. run C up \<lparr>Net = net, Flight = mset q, Clock = t\<rparr> \<lparr>Net = net', Flight = mset q', Clock = t'\<rparr>"
  using assms
proof (induction C up es q net arbitrary: t rule: run_net.induct)
  case (3 C up e es msg q net)
  obtain ds now where e: "e = (ds, now)" by (cases e)
  from "3.prems"(1) obtain net1 out where s: "serve C up e msg net = Ok (net1, out)"
    "run_net C up es (q @ out) net1 = Ok (net', q')" by (auto simp: bind_res_eq_Ok)
  let ?w = "\<lparr>Net = net, Flight = mset (msg # q), Clock = t\<rparr>" and ?v = "\<lparr>Net = net, Flight = mset (msg # q), Clock = now\<rparr>"
  let ?u = "\<lparr>Net = net1, Flight = mset (q @ out), Clock = now\<rparr>"
  have "step C up ?w ?v" using "3.prems"(2) e pass_time [of ?w now C up] by simp
  moreover have "conveyed C up msg ?v out ?u" unfolding conveyed_def using s(1) e by (auto intro: exI [of _ ds])
  ultimately have "run C up ?w ?u" by (meson carry converse_rtranclp_into_rtranclp rtranclp.rtrancl_refl)
  moreover from "3.IH" [OF s(1) refl s(2)] "3.prems"(2) e obtain t' where
    "run C up ?u \<lparr>Net = net', Flight = mset q', Clock = t'\<rparr>" by auto
  ultimately show ?case by (meson rtranclp_trans)
qed auto


section \<open>A replay after the window\<close>

abbreviation hi_layer :: OnionLayer where
  "hi_layer \<equiv> zero_layer\<lparr>Type := ''FINAL'', MsgID := ''msg-1'', Message := ''hi''\<rparr>"

definition at_D :: "(nat, nat) Node \<Rightarrow> (addr \<times> string) multiset \<Rightarrow> time \<Rightarrow> (nat, nat) world" where
  "at_D n q t = \<lparr>Net = [''d:4'' \<mapsto> n], Flight = q, Clock = t\<rparr>"

definition D0 :: "(nat, nat) Node" where "D0 = NewNode ideal_crypto ''D'' [] 1 9000"
definition D1 :: "(nat, nat) Node" where "D1 = D0\<lparr>SeenMsgs := [''msg-1'' \<mapsto> 0], ReceivedMsgs := [''hi'']\<rparr>"
definition D2 :: "(nat, nat) Node" where "D2 = D1\<lparr>SeenMsgs := Map.empty\<rparr>"
definition D3 :: "(nat, nat) Node" where
  "D3 = D0\<lparr>SeenMsgs := [''msg-1'' \<mapsto> 31 * Second], ReceivedMsgs := [''hi'', ''hi'']\<rparr>"

lemmas D_defs = D0_def D1_def D2_def D3_def NewNode_def

lemma hi_line: "\<exists>line. \<forall>n. PrivateKey n = (1::nat) \<longrightarrow> opened ideal_crypto n line = Some hi_layer"
proof -
  obtain w r' where w: "encryptForNode ideal_crypto (OnionlayerToString hi_layer) (PublicOf ideal_crypto 1)
      (replicate 76 (CHR ''r'')) = Ok (w, r')"
    by (simp add: encryptForNode_def EncryptAES_def rsa_encrypt_def ReadFull_def aes_key_def ideal_crypto_def)
  have line: "onion_line w" using ideal.node_env.seal_line [OF w] .
  have "StringToOnionLayer (OnionlayerToString hi_layer) = Ok hi_layer"
    by (rule StringToOnionLayer_print) (simp_all add: zero_layer_def)
  then show ?thesis using ideal.encryptForNode_opens [OF w] onion_lineD [OF line]
    by (intro exI [of _ w]) (simp add: opened_def)
qed

lemma hi_handled:
  assumes "opened ideal_crypto n line = Some hi_layer" and "SeenMsgs n ''msg-1'' = None"
  shows "handlerroutine ideal_crypto dial ds now (line @ [nl]) n =
    Ok (n\<lparr>SeenMsgs := (SeenMsgs n)(''msg-1'' \<mapsto> now), ReceivedMsgs := ReceivedMsgs n @ [''hi'']\<rparr>, [], [])"
  unfolding handler_opened [OF assms(1)] using assms(2)
  by (simp add: handle_layer_def handle_final_def send_ack_def seenMsg_def zero_layer_def)

lemma hi_conveyed:
  assumes "opened ideal_crypto n line = Some hi_layer" and "SeenMsgs n ''msg-1'' = None"
    and "n' = n\<lparr>SeenMsgs := (SeenMsgs n)(''msg-1'' \<mapsto> t), ReceivedMsgs := ReceivedMsgs n @ [''hi'']\<rparr>"
  shows "conveyed ideal_crypto (\<lambda>_. True) (''d:4'', line) (at_D n {#(''d:4'', line)#} t) [] (at_D n' {#} t)"
    and "acted ideal_crypto (''d:4'', line) ''msg-1'' (at_D n {#(''d:4'', line)#} t) [] (at_D n' {#} t)"
proof -
  have "serve ideal_crypto (\<lambda>_. True) ([], t) (''d:4'', line) [''d:4'' \<mapsto> n] = Ok ([''d:4'' \<mapsto> n'], [])"
    using hi_handled [OF assms(1,2), of "\<lambda>_ _. True" "[]" t] assms(3) by (simp add: serve_def)
  then show "conveyed ideal_crypto (\<lambda>_. True) (''d:4'', line) (at_D n {#(''d:4'', line)#} t) [] (at_D n' {#} t)"
    unfolding conveyed_def at_D_def by auto
  show "acted ideal_crypto (''d:4'', line) ''msg-1'' (at_D n {#(''d:4'', line)#} t) [] (at_D n' {#} t)"
    using assms(1,3) by (auto simp: acted_def at_D_def)
qed

lemma after_window:
  "run ideal_crypto (\<lambda>_. True) (at_D D1 {#} 0) (at_D D2 {#m#} (31 * Second))"
proof -
  have "step ideal_crypto (\<lambda>_. True) (at_D D1 {#} 0) (at_D D1 {#} (31 * Second))"
    using pass_time [of "at_D D1 {#} 0" "31 * Second" ideal_crypto "\<lambda>_. True"] by (simp add: at_D_def)
  moreover have "StartNode_evict (31 * Second) D1 = D2"
    by (simp add: StartNode_evict_def evict_seen_def seen_expired_def D_defs fun_eq_iff)
  then have "step ideal_crypto (\<lambda>_. True) (at_D D1 {#} (31 * Second)) (at_D D2 {#} (31 * Second))"
    using evict [of "at_D D1 {#} (31 * Second)" "''d:4''" D1 ideal_crypto "\<lambda>_. True"] by (simp add: at_D_def)
  moreover have "step ideal_crypto (\<lambda>_. True) (at_D D2 {#} (31 * Second)) (at_D D2 {#m#} (31 * Second))"
    using inject [of ideal_crypto "\<lambda>_. True" "at_D D2 {#} (31 * Second)" m] by (simp add: at_D_def)
  ultimately show ?thesis by (meson converse_rtranclp_into_rtranclp rtranclp.rtrancl_refl)
qed

theorem replay_window_run_witness:
  "\<exists>line. acted ideal_crypto (''d:4'', line) ''msg-1'' (at_D D0 {#(''d:4'', line)#} 0) [] (at_D D1 {#} 0) \<and>
     acted ideal_crypto (''d:4'', line) ''msg-1'' (at_D D2 {#(''d:4'', line)#} (31 * Second)) [] (at_D D3 {#} (31 * Second)) \<and>
     Clock (at_D D0 {#(''d:4'', line)#} 0) + 30 * Second < Clock (at_D D2 {#(''d:4'', line)#} (31 * Second))"
proof -
  obtain line where line: "\<forall>n. PrivateKey n = (1::nat) \<longrightarrow> opened ideal_crypto n line = Some hi_layer" using hi_line by blast
  have o: "opened ideal_crypto D0 line = Some hi_layer" "opened ideal_crypto D2 line = Some hi_layer"
    using line by (simp_all add: D_defs)
  have n: "D1 = D0\<lparr>SeenMsgs := (SeenMsgs D0)(''msg-1'' \<mapsto> 0), ReceivedMsgs := ReceivedMsgs D0 @ [''hi'']\<rparr>"
    "D3 = D2\<lparr>SeenMsgs := (SeenMsgs D2)(''msg-1'' \<mapsto> 31 * Second), ReceivedMsgs := ReceivedMsgs D2 @ [''hi'']\<rparr>"
    "SeenMsgs D0 ''msg-1'' = None" "SeenMsgs D2 ''msg-1'' = None" by (simp_all add: D_defs)
  note first = hi_conveyed [OF o(1) n(3) n(1)] and second = hi_conveyed [OF o(2) n(4) n(2)]
  from replay_window_run [OF first after_window second] first(2) second(2) show ?thesis by blast
qed

theorem run_keeps_nodes_witness:
  "run ideal_crypto (\<lambda>_. True) (at_D D1 {#} 0) (at_D D2 {#(''d:4'', ''x'')#} (31 * Second)) \<and>
   node_wf D1 \<and> node_wf D2 \<and> prefix (ReceivedMsgs D1) (ReceivedMsgs D2)"
proof -
  have "Net (at_D D2 {#(''d:4'', ''x'')#} (31 * Second)) ''d:4'' = Some D2" by (simp add: at_D_def)
  from run_keeps_nodes [OF after_window this] have "node_wf D1 \<longrightarrow> node_wf D2" "prefix (ReceivedMsgs D1) (ReceivedMsgs D2)"
    by (simp_all add: at_D_def)
  moreover have "node_wf D1" by (simp add: node_wf_def D_defs)
  ultimately show ?thesis using after_window by blast
qed

theorem run_net_is_run_witness:
  "\<exists>line t'. run ideal_crypto (\<lambda>_. True) (at_D D0 {#(''d:4'', line)#} 0) (at_D D1 {#} t')"
proof -
  obtain line where line: "\<forall>n. PrivateKey n = (1::nat) \<longrightarrow> opened ideal_crypto n line = Some hi_layer" using hi_line by blast
  then have "opened ideal_crypto D0 line = Some hi_layer" by (simp add: D_defs)
  from hi_handled [OF this, of "\<lambda>_ _. True" "[]" 0] have
    "run_net ideal_crypto (\<lambda>_. True) [([], 0)] [(''d:4'', line)] [''d:4'' \<mapsto> D0] = Ok ([''d:4'' \<mapsto> D1], [])"
    by (simp add: serve_def D_defs)
  from run_net_is_run [OF this, of 0] show ?thesis by (auto simp: at_D_def)
qed

end
