(* ===== verification/Broker.thy ===== *)
theory Broker
  imports GoStrings "HOL-Library.Sublist"
begin

text \<open>
  The two places where events are shown live: the log stream of a node's web page (\<open>logBroker\<close> and
  \<open>handleLogs\<close> in \<open>node/web.go\<close>) and the dashboard (\<open>dashboard/main.go\<close>). Both hand every event to
  buffered channels, one per listener, and drop it for a listener whose buffer is full. The interface
  \<open>fanout\<close> states that contract once and is interpreted on both.
\<close>

section \<open>The contract\<close>

text \<open>
  What happens to a set of listeners: an event is posted, the listener at a channel receives (waiting
  when there is nothing), a listener joins at a new channel or leaves.
\<close>

datatype 'e fan_op =
    Post 'e
  | Receive nat
  | Enter nat
  | Leave nat

primrec fan_apply ::
  "('e \<Rightarrow> 's \<Rightarrow> 's) \<Rightarrow> (nat \<Rightarrow> 's \<Rightarrow> 's) \<Rightarrow> (nat \<Rightarrow> 's \<Rightarrow> 's) \<Rightarrow> (nat \<Rightarrow> 's \<Rightarrow> 's) \<Rightarrow> 'e fan_op \<Rightarrow> 's \<Rightarrow> 's" where
  "fan_apply post receive enter leave (Post e) s = post e s"
| "fan_apply post receive enter leave (Receive c) s = receive c s"
| "fan_apply post receive enter leave (Enter c) s = enter c s"
| "fan_apply post receive enter leave (Leave c) s = leave c s"

text \<open>The events posted in a run, and those the listener at \<open>c\<close> receives.\<close>

fun posts :: "'e fan_op list \<Rightarrow> 'e list" where
  "posts [] = []"
| "posts (Post e # os) = e # posts os"
| "posts (_ # os) = posts os"

fun received :: "('s \<Rightarrow> nat \<Rightarrow> 'e list option) \<Rightarrow> ('e fan_op \<Rightarrow> 's \<Rightarrow> 's) \<Rightarrow> nat \<Rightarrow> 'e fan_op list \<Rightarrow> 's \<Rightarrow> 'e list" where
  "received chan app c [] s = []"
| "received chan app c (x # os) s =
     (if x = Receive c then (case chan s c of Some (e # q) \<Rightarrow> [e] | _ \<Rightarrow> []) else []) @ received chan app c os (app x s)"

abbreviation stays :: "nat \<Rightarrow> 'e fan_op list \<Rightarrow> bool" where
  "stays c os \<equiv> Enter c \<notin> set os \<and> Leave c \<notin> set os"

lemma posts_append [simp]: "posts (xs @ ys) = posts xs @ posts ys"
  by (induction xs rule: posts.induct) auto

lemma received_append [simp]:
  "received chan app c (xs @ ys) s = received chan app c xs s @ received chan app c ys (fold app xs s)"
  by (induction xs arbitrary: s) auto

locale fanout =
  fixes cap :: nat
    and chan :: "'s \<Rightarrow> nat \<Rightarrow> 'e list option"
    and post :: "'e \<Rightarrow> 's \<Rightarrow> 's"
    and receive :: "nat \<Rightarrow> 's \<Rightarrow> 's"
    and enter :: "nat \<Rightarrow> 's \<Rightarrow> 's"
    and leave :: "nat \<Rightarrow> 's \<Rightarrow> 's"
  assumes chan_post: "chan (post e s) c = map_option (\<lambda>q. if length q < cap then q @ [e] else q) (chan s c)"
    and chan_receive: "chan (receive d s) c = (if c = d then map_option tl (chan s c) else chan s c)"
    and chan_enter: "chan (enter d s) c = (if c = d then Some [] else chan s c)"
    and chan_leave: "chan (leave d s) c = (if c = d then None else chan s c)"
begin

abbreviation app :: "'e fan_op \<Rightarrow> 's \<Rightarrow> 's" where
  "app \<equiv> fan_apply post receive enter leave"

lemmas chan_laws = chan_post chan_receive chan_enter chan_leave

text \<open>The channel of a listener that stays, after one more operation.\<close>

lemma app_chan:
  assumes "stays c [x]" and "chan s c = Some q"
  shows "chan (app x s) c = Some (case x of Post e \<Rightarrow> if length q < cap then q @ [e] else q
    | Receive d \<Rightarrow> if d = c then tl q else q | _ \<Rightarrow> q)"
  using assms by (cases x) (auto simp: chan_laws)

text \<open>Nothing is invented, repeated or reordered; an overflow loses the newest event.\<close>

lemma in_order:
  assumes "stays c os"
  shows "\<exists>q. chan (fold app os (enter c s)) c = Some q \<and> subseq (received chan app c os (enter c s) @ q) (posts os)"
  using assms
proof (induction os rule: rev_induct)
  case (snoc x os)
  let ?s = "fold app os (enter c s)" and ?r = "received chan app c os (enter c s)"
  from snoc obtain q where q: "chan ?s c = Some q" "subseq (?r @ q) (posts os)" by auto
  have x: "stays c [x]" using snoc.prems by auto
  show ?case
  proof (cases x)
    case (Post e)
    have "subseq (?r @ q @ [e]) (posts os @ [e])" using q(2) by (metis append.assoc list_emb_append_mono subseq_order.refl)
    moreover have "subseq (?r @ q) (posts os @ [e])" using q(2) by (meson prefixI prefix_imp_subseq subseq_order.trans)
    ultimately show ?thesis using app_chan [OF x q(1)] Post by simp
  next
    case (Receive d)
    then show ?thesis using app_chan [OF x q(1)] q by (cases q) auto
  qed (use app_chan [OF x q(1)] q in auto)
qed (simp add: chan_enter)

lemma received_in_order: "stays c os \<Longrightarrow> subseq (received chan app c os (enter c s)) (posts os)"
  using in_order by (meson prefixI prefix_imp_subseq subseq_order.trans)

lemma complete:
  assumes "stays c os"
    and "\<And>pre e suf. os = pre @ Post e # suf \<Longrightarrow> length (posts pre) < length (received chan app c pre (enter c s)) + cap"
  shows "\<exists>q. chan (fold app os (enter c s)) c = Some q \<and> received chan app c os (enter c s) @ q = posts os"
  using assms
proof (induction os rule: rev_induct)
  case (snoc x os)
  let ?s = "fold app os (enter c s)" and ?r = "received chan app c os (enter c s)"
  have "\<exists>q. chan ?s c = Some q \<and> ?r @ q = posts os" using snoc.prems by (intro snoc.IH) auto
  then obtain q where q: "chan ?s c = Some q" "?r @ q = posts os" by blast
  have x: "stays c [x]" using snoc.prems(1) by auto
  show ?case
  proof (cases x)
    case (Post e)
    have "length (posts os) < length ?r + cap" using snoc.prems(2) [of os e "[]"] Post by simp
    then have "length q < cap" by (simp flip: q(2))
    then show ?thesis using app_chan [OF x q(1)] q(2) Post by simp
  next
    case (Receive d)
    then show ?thesis using app_chan [OF x q(1)] q by (cases q) auto
  qed (use app_chan [OF x q(1)] q in auto)
qed (simp add: chan_enter)

end


section \<open>The log stream of the web page\<close>

text \<open>The channels handed out by \<open>subscribe\<close>, with the lines waiting in them.\<close>

record logBroker =
  subs :: "nat \<rightharpoonup> string list"

definition broadcastLog :: "string \<Rightarrow> logBroker \<Rightarrow> logBroker" where
  "broadcastLog line b =
     b\<lparr>subs := (\<lambda>ch. case subs b ch of None \<Rightarrow> None
                 | Some q \<Rightarrow> if length q < 256 then Some (q @ [line]) else Some q)\<rparr>"

definition subscribe :: "nat \<Rightarrow> logBroker \<Rightarrow> logBroker" where
  "subscribe ch b = b\<lparr>subs := (subs b)(ch \<mapsto> [])\<rparr>"

definition unsubscribe :: "nat \<Rightarrow> logBroker \<Rightarrow> logBroker" where
  "unsubscribe ch b = b\<lparr>subs := (subs b)(ch := None)\<rparr>"

text \<open>\<open>case line := <-ch\<close>, and the event written for the line.\<close>

definition next_line :: "nat \<Rightarrow> logBroker \<Rightarrow> logBroker" where
  "next_line ch b = b\<lparr>subs := (subs b)(ch := map_option tl (subs b ch))\<rparr>"

definition log_frame :: "string \<Rightarrow> string" where
  "log_frame line = ''data: '' @ map (\<lambda>c. if c = nl then CHR '' '' else c) line @ [nl, nl]"

interpretation log: fanout 256 subs broadcastLog next_line subscribe unsubscribe
  by unfold_locales (auto simp: broadcastLog_def next_line_def subscribe_def unsubscribe_def split: option.split)

abbreviation log_op :: "string fan_op \<Rightarrow> logBroker \<Rightarrow> logBroker" where
  "log_op \<equiv> fan_apply broadcastLog next_line subscribe unsubscribe"

text \<open>
  C31: A reader of the log stream gets lines in the order they were logged, none twice and none of
  another time; as long as it is never 256 lines behind when a line is logged, it gets every line,
  the rest waiting in its channel. Other readers make no difference.
\<close>

theorem log_stream_in_order:
  assumes "stays ch os"
  shows "subseq (received subs log_op ch os (subscribe ch b)) (posts os) \<and>
    ((\<forall>pre line suf. os = pre @ Post line # suf \<longrightarrow>
        length (posts pre) < length (received subs log_op ch pre (subscribe ch b)) + 256) \<longrightarrow>
      (\<exists>waiting. subs (fold log_op os (subscribe ch b)) ch = Some waiting \<and>
        received subs log_op ch os (subscribe ch b) @ waiting = posts os))"
  using log.received_in_order [OF assms, of b] log.complete [OF assms, of b] by blast

theorem log_stream_in_order_witness:
  "received subs log_op 7 [Post ''a'', Enter 8, Receive 7, Post ''b'', Receive 7] (subscribe 7 \<lparr>subs = Map.empty\<rparr>) = [''a'', ''b'']"
proof -
  let ?os = "[Post ''a'', Enter 8, Receive 7, Post ''b'', Receive 7] :: string fan_op list"
  have "length (posts pre) < length (received subs log_op 7 pre (subscribe 7 \<lparr>subs = Map.empty\<rparr>)) + 256"
    if "?os = pre @ Post line # suf" for pre line suf
  proof -
    have "length (posts pre) \<le> length pre" by (induction pre rule: posts.induct) auto
    moreover have "length pre \<le> 5" using arg_cong [OF that, of length] by simp
    ultimately show ?thesis by linarith
  qed
  with log_stream_in_order [of 7 ?os "\<lparr>subs = Map.empty\<rparr>"] obtain waiting where
    "subs (fold log_op ?os (subscribe 7 \<lparr>subs = Map.empty\<rparr>)) 7 = Some waiting"
    "received subs log_op 7 ?os (subscribe 7 \<lparr>subs = Map.empty\<rparr>) @ waiting = [''a'', ''b'']" by auto
  then show ?thesis by (simp add: broadcastLog_def subscribe_def next_line_def)
qed

text \<open>A reader of an event stream: it takes the data of each event up to the empty line.\<close>

function parse_stream :: "string \<Rightarrow> string list" where
  "parse_stream s =
     (if HasPrefix s ''data: '' \<and> nl \<in> set s
      then takeWhile (\<lambda>c. c \<noteq> nl) (drop 6 s) # parse_stream (drop 2 (dropWhile (\<lambda>c. c \<noteq> nl) s))
      else [])"
  by pat_completeness auto
termination
proof (relation "measure length", simp)
  fix s :: string
  assume "HasPrefix s ''data: '' \<and> nl \<in> set s"
  then have "s \<noteq> []" by auto
  moreover have "length (dropWhile (\<lambda>c. c \<noteq> nl) s) \<le> length s" by (rule length_dropWhile_le)
  ultimately have "length (dropWhile (\<lambda>c. c \<noteq> nl) s) - 2 < length s" by (cases s) (auto simp: less_Suc_eq_le)
  then show "(drop 2 (dropWhile (\<lambda>c. c \<noteq> nl) s), s) \<in> measure length" by simp
qed

declare parse_stream.simps [simp del]

text \<open>
  What \<open>handleLogs\<close> writes is one event per line: a reader of the stream gets back exactly the
  lines, with their newlines as blanks, whatever they contain.
\<close>

theorem log_frames_parse:
  "parse_stream (concat (map log_frame lines)) = map (map (\<lambda>c. if c = nl then CHR '' '' else c)) lines"
proof (induction lines)
  case Nil
  then show ?case by (subst parse_stream.simps) (simp add: HasPrefix_def)
next
  case (Cons line lines)
  let ?safe = "map (\<lambda>c. if c = nl then CHR '' '' else c) line"
  let ?s = "log_frame line @ concat (map log_frame lines)"
  have safe: "nl \<notin> set ?safe" by auto
  have s: "?s = (''data: '' @ ?safe) @ nl # nl # concat (map log_frame lines)" by (simp add: log_frame_def)
  have "dropWhile (\<lambda>c. c \<noteq> nl) ?s = nl # nl # concat (map log_frame lines)"
    unfolding s using safe by (subst dropWhile_sep) auto
  moreover have "takeWhile (\<lambda>c. c \<noteq> nl) (drop 6 ?s) = ?safe"
    using safe by (simp add: log_frame_def)
  moreover have "HasPrefix ?s ''data: ''" "nl \<in> set ?s" by (simp_all add: log_frame_def HasPrefix_def)
  ultimately have "parse_stream ?s = ?safe # parse_stream (concat (map log_frame lines))"
    by (subst parse_stream.simps) simp
  then show ?case using Cons by simp
qed


section \<open>The dashboard\<close>

record Event =
  EvFrom :: string
  EvTo :: string
  EvType :: string
  EvMsg :: string
  EvExID :: string
  EvTs :: int

record dashboard =
  clients :: "nat \<rightharpoonup> Event list"
  history :: "Event list"

definition broadcast :: "Event \<Rightarrow> dashboard \<Rightarrow> dashboard" where
  "broadcast ev d =
     d\<lparr>clients := (\<lambda>ch. case clients d ch of None \<Rightarrow> None
                    | Some q \<Rightarrow> if length q < 64 then Some (q @ [ev]) else Some q)\<rparr>"

text \<open>
  The telemetry handler, given the event in the body if it decodes. Adding to the history and
  broadcasting are two critical sections, so two requests may do them in different orders.
\<close>

definition add_history :: "Event \<Rightarrow> dashboard \<Rightarrow> dashboard" where
  "add_history ev d = d\<lparr>history := history d @ [ev]\<rparr>"

definition telemetry :: "int \<Rightarrow> Event option \<Rightarrow> dashboard \<Rightarrow> nat \<times> dashboard" where
  "telemetry now body d =
     (case body of
        Some ev \<Rightarrow> (let ev' = ev\<lparr>EvTs := now\<rparr> in (200, broadcast ev' (add_history ev' d)))
      | None \<Rightarrow> (200, d))"

definition open_stream :: "nat \<Rightarrow> dashboard \<Rightarrow> dashboard" where
  "open_stream ch d = d\<lparr>clients := (clients d)(ch \<mapsto> [])\<rparr>"

definition close_stream :: "nat \<Rightarrow> dashboard \<Rightarrow> dashboard" where
  "close_stream ch d = d\<lparr>clients := (clients d)(ch := None)\<rparr>"

definition next_event :: "nat \<Rightarrow> dashboard \<Rightarrow> dashboard" where
  "next_event ch d = d\<lparr>clients := (clients d)(ch := map_option tl (clients d ch))\<rparr>"

text \<open>
  The history as the page asks for it. It starts as a nil slice, which is encoded as \<open>null\<close>, not as an
  empty list.
\<close>

definition history_page :: "dashboard \<Rightarrow> Event list option" where
  "history_page d = (if history d = [] then None else Some (history d))"

text \<open>
  Requests handled one after the other; the time of a request is the one its event ends up with.
\<close>

abbreviation posted :: "Event \<Rightarrow> dashboard \<Rightarrow> dashboard" where
  "posted ev d \<equiv> snd (telemetry (EvTs ev) (Some ev) d)"

lemma telemetry_clients:
  "clients (posted ev d) ch = map_option (\<lambda>q. if length q < 64 then q @ [ev] else q) (clients d ch)"
  by (simp add: telemetry_def broadcast_def add_history_def Let_def split: option.split)

lemma telemetry_history [simp]: "history (snd (telemetry now (Some ev) d)) = history d @ [ev\<lparr>EvTs := now\<rparr>]"
  by (simp add: telemetry_def broadcast_def add_history_def Let_def)

interpretation dash: fanout 64 clients posted next_event open_stream close_stream
  by unfold_locales
    (auto simp: telemetry_clients next_event_def open_stream_def close_stream_def)

abbreviation dash_op :: "Event fan_op \<Rightarrow> dashboard \<Rightarrow> dashboard" where
  "dash_op \<equiv> fan_apply posted next_event open_stream close_stream"

lemma dash_history: "history (fold dash_op os d) = history d @ posts os"
proof (induction os arbitrary: d)
  case (Cons x os)
  then show ?case by (cases x) (simp_all add: next_event_def open_stream_def close_stream_def)
qed simp

lemma history_page_posts:
  "history_page (fold dash_op os d) = (if history d = [] \<and> posts os = [] then None else Some (history d @ posts os))"
  by (simp add: history_page_def dash_history)

text \<open>
  The dashboard keeps every event it is sent, in order, and a page that opened its stream gets
  events of the history since then in the same order; all of them, as long as it is never 64 events
  behind.
\<close>

theorem dashboard_stream_in_order:
  assumes "stays ch os"
  shows "\<exists>new. history (fold dash_op os (open_stream ch d)) = history d @ new \<and>
    subseq (received clients dash_op ch os (open_stream ch d)) new \<and>
    ((\<forall>pre ev suf. os = pre @ Post ev # suf \<longrightarrow>
        length (posts pre) < length (received clients dash_op ch pre (open_stream ch d)) + 64) \<longrightarrow>
      (\<exists>waiting. clients (fold dash_op os (open_stream ch d)) ch = Some waiting \<and>
        received clients dash_op ch os (open_stream ch d) @ waiting = new))"
proof -
  have "history (fold dash_op os (open_stream ch d)) = history d @ posts os"
    by (simp add: dash_history open_stream_def)
  with dash.received_in_order [OF assms, of d] dash.complete [OF assms, of d] show ?thesis by blast
qed

definition hello_event :: Event where
  "hello_event = \<lparr>EvFrom = ''a:1'', EvTo = ''b:2'', EvType = ''SEND'', EvMsg = ''hi'', EvExID = ''msg-1'', EvTs = 5\<rparr>"

theorem dashboard_stream_in_order_witness:
  "received clients dash_op 3 [Post hello_event, Receive 3] (open_stream 3 \<lparr>clients = Map.empty, history = []\<rparr>) = [hello_event]"
proof -
  let ?os = "[Post hello_event, Receive 3] :: Event fan_op list" and ?d = "\<lparr>clients = Map.empty, history = []\<rparr>"
  let ?got = "\<lambda>os. received clients dash_op 3 os (open_stream 3 ?d)"
  have in_time: "\<forall>pre ev suf. ?os = pre @ Post ev # suf \<longrightarrow> length (posts pre) < length (?got pre) + 64"
  proof (intro allI impI)
    fix pre ev suf
    assume "?os = pre @ Post ev # suf"
    then have "pre = []" by (auto simp: Cons_eq_append_conv)
    then show "length (posts pre) < length (?got pre) + 64" by simp
  qed
  have stay: "stays 3 ?os" by simp
  obtain new waiting where n: "history (fold dash_op ?os (open_stream 3 ?d)) = history ?d @ new"
    "clients (fold dash_op ?os (open_stream 3 ?d)) 3 = Some waiting" "?got ?os @ waiting = new"
    using dashboard_stream_in_order [OF stay, of ?d] in_time by blast
  have "new = [hello_event]" using n(1) unfolding dash_history by (simp add: open_stream_def)
  moreover have "waiting = []" using n(2)
    by (simp add: telemetry_def broadcast_def add_history_def open_stream_def next_event_def Let_def)
  ultimately show ?thesis using n(3) by simp
qed

end
