(* ===== verification/Reports.thy ===== *)
theory Reports
  imports Broker SuperOnion
begin

text \<open>
  What the nodes report to the dashboard: \<open>Telemetry\<close> of \<open>node/telemetry.go\<close> and the reports that
  \<open>SendWithRetry\<close> and \<open>SendWithRetrySuper\<close> make of the hops of an onion and of its outcome.
\<close>

section \<open>Reports\<close>

text \<open>The body of a \<open>Telemetry\<close> call; the hop number is not a field of the dashboard's events.\<close>

record telEvent =
  TFrom :: string
  TTo :: string
  TType :: string
  TMsg :: string
  TExID :: string
  THop :: int

text \<open>
  What the dashboard decodes from the body; \<open>json\<close> is what a string becomes by being encoded and decoded
  (\<open>encoding/json\<close> replaces bytes that are not UTF-8).
\<close>

definition decoded :: "(string \<Rightarrow> string) \<Rightarrow> telEvent \<Rightarrow> Event" where
  "decoded json t = \<lparr>EvFrom = json (TFrom t), EvTo = json (TTo t), EvType = json (TType t), EvMsg = json (TMsg t),
     EvExID = json (TExID t), EvTs = 0\<rparr>"

text \<open>
  The goroutine of a call, finished at \<open>now\<close> on the dashboard's clock: the request gets there or not; the
  node does not look at the outcome.
\<close>

definition Telemetry :: "(string \<Rightarrow> string) \<Rightarrow> int \<Rightarrow> bool \<Rightarrow> telEvent \<Rightarrow> dashboard \<Rightarrow> dashboard" where
  "Telemetry json now arrives t d = (if arrives then snd (telemetry now (Some (decoded json t)) d) else d)"

text \<open>The address reports go to, given \<open>DASHBOARD_URL\<close>.\<close>

definition dashURL :: "string \<Rightarrow> string" where
  "dashURL v = (if v \<noteq> [] then v else ''http://localhost:8888'')"

text \<open>The goroutines for the hops of an onion, the route including the destination.\<close>

definition hop_reports :: "string \<Rightarrow> addr \<Rightarrow> addr list \<Rightarrow> string \<Rightarrow> string \<Rightarrow> telEvent list" where
  "hop_reports ty nodeAddr r message exid =
     \<lparr>TFrom = nodeAddr, TTo = r ! 0, TType = ty, TMsg = message, TExID = exid, THop = 1\<rparr> #
     map (\<lambda>i. \<lparr>TFrom = r ! i, TTo = r ! (i + 1), TType = ''RELAY'', TMsg = [], TExID = exid, THop = int i + 2\<rparr>)
       [0..<length r - 1]"

definition forward_telemetry :: "addr \<Rightarrow> addr list \<Rightarrow> string \<Rightarrow> string \<Rightarrow> telEvent list" where
  "forward_telemetry = hop_reports ''SEND''"

definition group_telemetry :: "addr \<Rightarrow> 'pk LayerGroup list \<Rightarrow> string \<Rightarrow> string \<Rightarrow> telEvent list" where
  "group_telemetry nodeAddr r = hop_reports ''SSEND'' nodeAddr (map (\<lambda>g. Addrs g ! 0) r)"

text \<open>The report of the outcome: the value of the channel, or none before the timeout.\<close>

definition result_telemetry :: "addr \<Rightarrow> addr \<Rightarrow> addr \<Rightarrow> string \<Rightarrow> bool option \<Rightarrow> telEvent" where
  "result_telemetry nodeAddr destAddr firstAddr exid outcome =
     (case outcome of
        Some True \<Rightarrow> \<lparr>TFrom = destAddr, TTo = nodeAddr, TType = ''ACK'', TMsg = [], TExID = exid, THop = 1\<rparr>
      | Some False \<Rightarrow> \<lparr>TFrom = firstAddr, TTo = nodeAddr, TType = ''NACK'', TMsg = [], TExID = exid, THop = 1\<rparr>
      | None \<Rightarrow> \<lparr>TFrom = firstAddr, TTo = nodeAddr, TType = ''NACK'', TMsg = ''timeout'', TExID = exid, THop = 1\<rparr>)"


section \<open>What the dashboard sees of them\<close>

lemma hop_edges:
  assumes "route \<noteq> []"
  shows "{(TFrom t, TTo t) |t. t \<in> set (hop_reports ty sender route message exid)} = set (zip (sender # route) route)"
proof -
  obtain x xs where x: "route = x # xs" using assms by (cases route) auto
  have "set (zip (x # xs) xs) = (\<lambda>i. ((x # xs) ! i, xs ! i)) ` {0..<length xs}"
    by (auto simp: set_zip)
  then show ?thesis unfolding x Setcompr_eq_image by (simp add: hop_reports_def image_image)
qed

lemma hop_types: "t \<in> set (hop_reports ty sender route message exid) \<Longrightarrow> TType t \<in> {ty, ''RELAY''} \<and> TExID t = exid"
  by (auto simp: hop_reports_def)

definition utf8_texts :: "(string \<Rightarrow> string) \<Rightarrow> telEvent \<Rightarrow> bool" where
  "utf8_texts json t \<longleftrightarrow> (\<forall>s \<in> {TFrom t, TTo t, TType t, TMsg t, TExID t}. json s = s)"

lemma decoded_utf8:
  "utf8_texts json t \<Longrightarrow> EvFrom (decoded json t) = TFrom t \<and> EvTo (decoded json t) = TTo t \<and>
     EvType (decoded json t) = TType t \<and> EvMsg (decoded json t) = TMsg t \<and> EvExID (decoded json t) = TExID t"
  by (simp add: decoded_def utf8_texts_def)

abbreviation arrive :: "(string \<Rightarrow> string) \<Rightarrow> (int \<times> bool \<times> telEvent) list \<Rightarrow> dashboard \<Rightarrow> dashboard" where
  "arrive json \<equiv> fold (\<lambda>(now, arrives, t). Telemetry json now arrives t)"

lemma arrive_history:
  "history (arrive json reports d) =
     history d @ map (\<lambda>(now, _, t). (decoded json t)\<lparr>EvTs := now\<rparr>) (filter (\<lambda>(_, arrives, _). arrives) reports)"
  by (induction reports arbitrary: d) (auto simp: Telemetry_def)

text \<open>The events of one message are the reports of it that got through.\<close>

lemma events_of:
  assumes "\<forall>(_, _, t) \<in> set reports. utf8_texts json t" and "\<forall>ev \<in> set (history d). EvExID ev \<noteq> exid"
  shows "(\<lambda>ev. (EvFrom ev, EvTo ev, EvType ev, EvMsg ev)) ` {ev \<in> set (history (arrive json reports d)). EvExID ev = exid} =
    (\<lambda>t. (TFrom t, TTo t, TType t, TMsg t)) ` {t. \<exists>now. (now, True, t) \<in> set reports \<and> TExID t = exid}"
    (is "?key ` ?E = ?tkey ` ?R")
proof (intro equalityI subsetI)
  fix k assume "k \<in> ?key ` ?E"
  then obtain ev where ev: "ev \<in> set (history (arrive json reports d))" "EvExID ev = exid" "k = ?key ev" by blast
  then obtain now t where t: "(now, True, t) \<in> set reports" "ev = (decoded json t)\<lparr>EvTs := now\<rparr>"
    using assms(2) unfolding arrive_history by auto
  with assms(1) have "utf8_texts json t" by auto
  with t ev(2,3) show "k \<in> ?tkey ` ?R" using decoded_utf8 by auto
next
  fix k assume "k \<in> ?tkey ` ?R"
  then obtain now t where t: "(now, True, t) \<in> set reports" "TExID t = exid" "k = ?tkey t" by blast
  with assms(1) have "utf8_texts json t" by auto
  moreover have "(decoded json t)\<lparr>EvTs := now\<rparr> \<in> set (history (arrive json reports d))"
    using t(1) unfolding arrive_history by (auto intro!: image_eqI [of _ _ "(now, True, t)"])
  ultimately show "k \<in> ?key ` ?E"
    using t(2,3) decoded_utf8 by (intro image_eqI [of _ _ "(decoded json t)\<lparr>EvTs := now\<rparr>"]) auto
qed

lemma seen_events:
  assumes "\<forall>(_, _, t) \<in> set reports. utf8_texts json t" and "\<forall>ev \<in> set (history d). EvExID ev \<noteq> exid"
  shows "(\<exists>ev \<in> {ev \<in> set (history (arrive json reports d)). EvExID ev = exid}. P (EvFrom ev) (EvTo ev) (EvType ev) (EvMsg ev)) \<longleftrightarrow>
    (\<exists>t \<in> {t. \<exists>now. (now, True, t) \<in> set reports \<and> TExID t = exid}. P (TFrom t) (TTo t) (TType t) (TMsg t))"
    (is "(\<exists>ev \<in> ?E. _) \<longleftrightarrow> (\<exists>t \<in> ?R. _)")
proof -
  have "(\<exists>k \<in> (\<lambda>ev. (EvFrom ev, EvTo ev, EvType ev, EvMsg ev)) ` ?E. case k of (a, b, c, m) \<Rightarrow> P a b c m) \<longleftrightarrow>
    (\<exists>k \<in> (\<lambda>t. (TFrom t, TTo t, TType t, TMsg t)) ` ?R. case k of (a, b, c, m) \<Rightarrow> P a b c m)"
    unfolding events_of [OF assms] ..
  then show ?thesis by simp
qed




end
