(* ===== verification/WebUI.thy ===== *)
theory WebUI
  imports Broker Send Commands
begin

text \<open>
  The rest of a node's web interface (\<open>node/web.go\<close>): where it listens, the page it serves, the routes, and
  the bridge that copies what the node prints to the terminal and to the log stream, with the limit
  \<open>bufio.Scanner\<close> sets to a line.
\<close>

section \<open>What is printed\<close>

text \<open>
  \<open>startStdoutBridge\<close> puts a pipe in the place of the standard output. Its goroutine takes lines from the
  pipe as long as the scanner returns any: a line that does not fit into the scanner's 64 KiB ends it.
  The scanner drops a carriage return at the end of a line.
\<close>

record bridge =
  Scanning :: bool
  Console :: "string list"
  Logs :: logBroker

definition dropCR :: "string \<Rightarrow> string" where
  "dropCR s = (if s \<noteq> [] \<and> last s = CHR 0x0D then butlast s else s)"

definition bridge_line :: "string \<Rightarrow> bridge \<Rightarrow> bridge" where
  "bridge_line line b =
     (if \<not> Scanning b then b
      else if 65536 \<le> length line then b\<lparr>Scanning := False\<rparr>
      else b\<lparr>Console := Console b @ [dropCR line @ [nl]], Logs := broadcastLog (dropCR line) (Logs b)\<rparr>)"

text \<open>Text is printed a line at a time, the newline included.\<close>

definition print_out :: "string \<Rightarrow> bridge \<Rightarrow> bridge" where
  "print_out text b = fold bridge_line (butlast (Split nl text)) b"

text \<open>The command \<open>LIST\<close>; \<open>msg\<close> is the text of an error.\<close>

definition print_list :: "(go_error \<Rightarrow> string) \<Rightarrow> directory \<Rightarrow> string" where
  "print_list msg ask =
     (case Node_GetNodesList ask of
        Ok l \<Rightarrow> l @ [nl]
      | Err e \<Rightarrow> ''Error: '' @ msg e @ [nl]
      | _ \<Rightarrow> [])"

lemma bridge_stopped: "\<not> Scanning b \<Longrightarrow> print_out text b = b"
proof -
  assume "\<not> Scanning b"
  then have "fold bridge_line ls b = b" for ls by (induction ls) (simp_all add: bridge_line_def)
  then show ?thesis by (simp add: print_out_def)
qed

text \<open>As long as the lines are short, all of them get through, in order.\<close>

lemma bridge_forwards:
  "Scanning b \<Longrightarrow> \<forall>l \<in> set ls. length l < 65536 \<Longrightarrow>
   fold bridge_line ls b = b\<lparr>Console := Console b @ map (\<lambda>l. dropCR l @ [nl]) ls,
     Logs := fold broadcastLog (map dropCR ls) (Logs b)\<rparr>"
  by (induction ls arbitrary: b) (simp_all add: bridge_line_def)

lemma Join_length: "sum_list (map length xs) \<le> length (Join xs sep)"
  by (induction xs sep rule: Join.induct) auto

text \<open>
  C32: \<open>LIST\<close> silences a node in a large network. Once 168 nodes with 2048-bit RSA keys are registered (392
  characters each in base64, and whatever is longer), the list is printed as one line of more than
  64 KiB: the bridge stops, and nothing printed from then on reaches the terminal or the log stream.
\<close>

theorem LIST_silences_node:
  assumes "sqlite_laws S rows" and "working S" and "\<forall>i \<in> set (rows db). listable i \<and> 392 \<le> length (InfoKey i)"
    and "168 \<le> length (rows db)"
  shows "let b' = print_out (print_list msg (dir_ask S env db)) b in
    Console b' = Console b \<and> Logs b' = Logs b \<and> (\<forall>text. print_out text b' = b')"
proof -
  have "rows db \<noteq> []" "\<forall>i \<in> set (rows db). listable i" using assms(3,4) by auto
  then obtain nodes where nodes: "mset nodes \<subseteq># mset (rows db)" "length nodes = min MaxSampleNodes (length (rows db))"
    and list: "Node_GetNodesList (dir_ask S env db) = Ok (''LIST:'' @ Join (map list_entry nodes) [comma])"
    using GetNodesList_sample [OF assms(1,2), of db env] by blast
  let ?l = "''LIST:'' @ Join (map list_entry nodes) [comma]"
  have sub: "set nodes \<subseteq> set (rows db)" using nodes(1) by (metis set_mset_mono set_mset_mset)
  have "392 * length nodes \<le> sum_list (map length (map list_entry nodes))"
    using sub assms(3) by (induction nodes) (auto simp: list_entry_def intro: trans_le_add1)
  then have long: "65536 \<le> length ?l"
    using nodes(2) assms(4) Join_length [of "map list_entry nodes" "[comma]"] by simp
  have "nl \<notin> set ?l" using sub assms(3) list_entry_no Join_no_char [of "map list_entry nodes" nl "[comma]"] by auto
  then have "Split nl (?l @ nl # []) = ?l # Split nl []" by (rule Split_append)
  then have "butlast (Split nl (?l @ [nl])) = [?l]" by (simp del: append.simps)
  then have "print_out (print_list msg (dir_ask S env db)) b = bridge_line ?l b"
    by (simp add: print_out_def print_list_def list del: append.simps)
  moreover have "\<not> Scanning (bridge_line ?l b)" "Console (bridge_line ?l b) = Console b" "Logs (bridge_line ?l b) = Logs b"
    using long by (simp_all add: bridge_line_def)
  ultimately show ?thesis using bridge_stopped by (simp add: Let_def)
qed

theorem LIST_silences_node_witness:
  "let rs = replicate 168 (demo_row ''n'' 0 0\<lparr>InfoKey := replicate 392 (CHR ''k'')\<rparr>) in
   print_out (''ACK'' @ [nl]) (print_out (print_list (\<lambda>_. []) (dir_ask list_db demo_env rs)) \<lparr>Scanning = True, Console = [], Logs = \<lparr>subs = Map.empty\<rparr>\<rparr>) =
     print_out (print_list (\<lambda>_. []) (dir_ask list_db demo_env rs)) \<lparr>Scanning = True, Console = [], Logs = \<lparr>subs = Map.empty\<rparr>\<rparr>"
  using LIST_silences_node [OF list_db.sqlite_laws_axioms list_db_working,
      of "replicate 168 (demo_row ''n'' 0 0\<lparr>InfoKey := replicate 392 (CHR ''k'')\<rparr>)"]
  by (simp add: Let_def listable_def demo_row_def)


section \<open>Where the interface listens\<close>

text \<open>The values of \<open>WEB_PORT\<close> and \<open>WEB_BIND\<close>, empty when they are not set.\<close>

definition web_address :: "string \<Rightarrow> string \<Rightarrow> addr" where
  "web_address WEB_PORT WEB_BIND =
     (let port = (if WEB_PORT \<noteq> [] \<and> snd (Atoi WEB_PORT) = None then fst (Atoi WEB_PORT) else 9090);
          bind = (if WEB_BIND = [] then ''127.0.0.1'' else WEB_BIND)
      in bind @ '':'' @ Itoa port)"

lemma web_address_loopback: "\<exists>port. web_address WEB_PORT [] = ''127.0.0.1:'' @ Itoa port"
  unfolding web_address_def Let_def by auto


section \<open>The routes\<close>

text \<open>\<open>strings.ReplaceAll\<close> for a non-empty \<open>old\<close>.\<close>

function ReplaceAll :: "string \<Rightarrow> string \<Rightarrow> string \<Rightarrow> string" where
  "ReplaceAll s old new =
     (if s = [] \<or> old = [] then s
      else if HasPrefix s old then new @ ReplaceAll (drop (length old) s) old new
      else hd s # ReplaceAll (tl s) old new)"
  by pat_completeness auto
termination
  by (relation "measure (\<lambda>(s, _, _). length s)") auto

declare ReplaceAll.simps [simp del]

text \<open>The page with the identifier of the node in its title, after an em dash in UTF-8.\<close>

definition index_page :: "string \<Rightarrow> string \<Rightarrow> string" where
  "index_page webPage ident =
     ReplaceAll webPage ''DOR Node UI'' (''DOR '' @ map char_of [0xE2 :: nat, 0x80, 0x94] @ '' '' @ ident)"

text \<open>A request is given by its cleaned path, its method and its decoded body.\<close>

datatype web_response =
    Html string
  | Command nat "(string \<times> string) option"
  | NodeList string
  | LogStream

definition startWebUI :: "string \<Rightarrow> ('pk, 'sk) Node \<Rightarrow> directory \<Rightarrow> string \<Rightarrow> string \<Rightarrow> (string \<times> string) option \<Rightarrow> web_response" where
  "startWebUI webPage n ask path meth body =
     (if path = ''/cmd'' then case makeHandleCmd meth body of (status, started) \<Rightarrow> Command status started
      else if path = ''/nodes'' then NodeList (makeHandleNodes ask)
      else if path = ''/logs'' then LogStream
      else Html (index_page webPage (ID n)))"

text \<open>Only a \<open>POST\<close> to \<open>/cmd\<close> with a body of the expected form starts a command.\<close>

lemma commands_by_post:
  "startWebUI webPage n ask path meth body = Command status (Some c) \<Longrightarrow> path = ''/cmd'' \<and> meth = ''POST'' \<and> body \<noteq> None"
  by (auto simp: startWebUI_def makeHandleCmd_def split: if_splits option.splits)

lemma index_page_title:
  "index_page (''DOR Node UI'' @ s) ident =
   ''DOR '' @ map char_of [0xE2 :: nat, 0x80, 0x94] @ '' '' @ ident @ index_page s ident"
  unfolding index_page_def by (subst ReplaceAll.simps) (simp add: HasPrefix_def)

end
