(* ===== verification/Secrecy.thy ===== *)
theory Secrecy
  imports SuperOnion
begin

text \<open>
  What an onion keeps from those who hold some of the keys. \<open>exposes C K w l\<close> says that somebody with
  the private keys \<open>K\<close> can take a line apart to a layer, opening whatever opens on the way, like the
  \<open>analz\<close> of protocol proofs. Here a wrong key opens nothing (\<open>crypto_sep\<close>): one hop whose key is
  missing hides everything behind it.
\<close>

section \<open>Taking a line apart\<close>

inductive exposes :: "('pk, 'sk) crypto \<Rightarrow> 'sk set \<Rightarrow> string \<Rightarrow> OnionLayer \<Rightarrow> bool"
  for C :: "('pk, 'sk) crypto" and K :: "'sk set" where
  opened: "sk \<in> K \<Longrightarrow> BroadcastDecrypt C w sk = Ok p \<Longrightarrow> StringToOnionLayer p = Ok l \<Longrightarrow> exposes C K w l"
| inside: "sk \<in> K \<Longrightarrow> BroadcastDecrypt C w sk = Ok p \<Longrightarrow> StringToOnionLayer p = Ok l' \<Longrightarrow>
    exposes C K (Data l') l \<Longrightarrow> exposes C K w l"

inductive_cases exposesE: "exposes C K w l"

lemma exposes_mono: "exposes C K w l \<Longrightarrow> K \<subseteq> K' \<Longrightarrow> exposes C K' w l"
  by (induction rule: exposes.induct) (auto intro: exposes.intros)

lemma exposes_nothing: "(\<And>sk p. sk \<in> K \<Longrightarrow> BroadcastDecrypt C w sk \<noteq> Ok p) \<Longrightarrow> \<not> exposes C K w l"
  by (auto elim: exposesE)


section \<open>Lines that open to one key\<close>

text \<open>Like \<open>opens_with\<close>, and to nobody else.\<close>

definition opens_only :: "('sk \<Rightarrow> string \<Rightarrow> bytes res) \<Rightarrow> ('sk \<Rightarrow> 'g \<Rightarrow> bool) \<Rightarrow> 'g \<Rightarrow> string \<Rightarrow> bytes \<Rightarrow> bool" where
  "opens_only unseal holds g w p \<longleftrightarrow> onion_line w \<and> (\<forall>sk q. unseal sk w = Ok q \<longleftrightarrow> holds sk g \<and> q = p)"

abbreviation node_only :: "('pk, 'sk) crypto \<Rightarrow> 'pk option \<Rightarrow> string \<Rightarrow> bytes \<Rightarrow> bool" where
  "node_only C \<equiv> opens_only (\<lambda>sk w. BroadcastDecrypt C w sk) (\<lambda>sk k. k = Some (PublicOf C sk))"

abbreviation group_only :: "('pk, 'sk) crypto \<Rightarrow> 'pk list \<Rightarrow> string \<Rightarrow> bytes \<Rightarrow> bool" where
  "group_only C \<equiv> opens_only (\<lambda>sk w. BroadcastDecrypt C w sk) (\<lambda>sk pks. PublicOf C sk \<in> set pks)"

lemma peels_only_line: "peels (opens_only unseal holds) inner frm hops nacks w \<Longrightarrow> onion_line w"
  by (cases "(opens_only unseal holds, inner, frm, hops, nacks, w)" rule: peels.cases) (auto simp: opens_only_def)

context crypto_sep
begin

lemma group_sealed_only: "BroadcastEncrypt C p pks r = Ok (w, r') \<Longrightarrow> group_only C pks w p"
  using BroadcastDecrypt_BroadcastEncrypt BroadcastEncrypt_line by (auto simp: opens_only_def split: if_splits)

lemma node_sealed_only: "encrypt_cached C k p r = Ok (w, r') \<Longrightarrow> node_only C k w p"
  using group_sealed_only
  by (fastforce simp: encrypt_cached_def encryptForNode_group_of_one bind_res_eq_Ok opens_only_def split: option.splits)

lemma node_wrap_only:
  "wrap (encrypt_cached C) inner hops sender nacks r = Ok (w, r') \<Longrightarrow> peels (node_only C) inner sender hops nacks w"
  by (rule wrap_peels [where seal = "encrypt_cached C", OF node_sealed_only])

lemma group_wrap_only:
  "wrap (\<lambda>pks p r. BroadcastEncrypt C p pks r) inner hops sender nacks r = Ok (w, r') \<Longrightarrow>
   peels (group_only C) inner sender hops nacks w"
  by (rule wrap_peels [where seal = "\<lambda>pks p r. BroadcastEncrypt C p pks r", OF group_sealed_only])

end

lemma missing_key_hides:
  assumes "peels (opens_only (\<lambda>sk w. BroadcastDecrypt C w sk) holds) inner frm hops nacks w"
    and "i < length hops" and "\<forall>sk \<in> K. \<not> holds sk (snd (hops ! i))"
    and "\<forall>h \<in> set hops. pipe \<notin> set (fst h)" and "pipe \<notin> set frm" and "list_all wire_id nacks"
    and "exposes C K w l"
  shows "\<exists>j < i. \<exists>a b d. l = relay_layer a b (fst (hops ! Suc j)) ((frm # map fst hops) ! j) d"
  using assms
proof (induction i arbitrary: frm hops nacks w)
  case 0
  then obtain h hs where hops: "hops = h # hs" by (cases hops) auto
  with "0.prems"(1) obtain p where "opens_only (\<lambda>sk w. BroadcastDecrypt C w sk) holds (snd h) w p"
    by (cases hs; cases nacks rule: remdups_adj.cases) auto
  then have "BroadcastDecrypt C w sk \<noteq> Ok q" if "sk \<in> K" for sk q
    using that "0.prems"(3) hops by (auto simp: opens_only_def)
  then show ?case using exposes_nothing "0.prems"(7) by blast
next
  case (Suc i)
  let ?only = "opens_only (\<lambda>sk w. BroadcastDecrypt C w sk) holds"
  from Suc.prems(2) obtain h h' hs where hops: "hops = h # h' # hs" by (cases hops rule: remdups_adj.cases) auto
  with Suc.prems(1) obtain a b ns where nacks: "nacks = a # b # ns" by (cases nacks rule: remdups_adj.cases) auto
  from Suc.prems(1) hops nacks obtain d where
    d: "?only (snd h) w (OnionlayerToString (relay_layer a b (fst h') frm d))"
    and rest: "peels ?only inner (fst h) (h' # hs) (b # ns) d" by auto
  have parse: "StringToOnionLayer (OnionlayerToString (relay_layer a b (fst h') frm d)) = Ok (relay_layer a b (fst h') frm d)"
    using Suc.prems hops nacks onion_line_no_pipe [OF peels_only_line [OF rest]] by (intro parse_relay_layer) auto
  have read: "l' = relay_layer a b (fst h') frm d" if "BroadcastDecrypt C w sk = Ok p" "StringToOnionLayer p = Ok l'" for sk p l'
    using that d parse by (auto simp: opens_only_def)
  from Suc.prems(7) obtain sk p l' where "BroadcastDecrypt C w sk = Ok p" "StringToOnionLayer p = Ok l'"
    and l: "l = l' \<or> exposes C K (Data l') l" by (auto elim: exposesE)
  then have l': "l' = relay_layer a b (fst h') frm d" using read by blast
  show ?case
  proof (cases "l = l'")
    case True
    then have "l = relay_layer a b (fst (hops ! Suc 0)) ((frm # map fst hops) ! 0) d" using l' hops by simp
    then show ?thesis by blast
  next
    case False
    then have inner: "exposes C K d l" using l l' by simp
    have "\<exists>j < i. \<exists>a b d. l = relay_layer a b (fst ((h' # hs) ! Suc j)) ((fst h # map fst (h' # hs)) ! j) d"
      using Suc.prems hops nacks by (intro Suc.IH [OF rest _ _ _ _ _ inner]) auto
    then obtain j a' b' d' where "j < i" "l = relay_layer a' b' (fst ((h' # hs) ! Suc j)) ((fst h # map fst (h' # hs)) ! j) d'" by blast
    then have "Suc j < Suc i \<and> l = relay_layer a' b' (fst (hops ! Suc (Suc j))) ((frm # map fst hops) ! Suc j) d'"
      using hops by simp
    then show ?thesis by blast
  qed
qed

text \<open>
  One honest hop hides what is behind it. Whoever lacks the key of the hop at position \<open>i\<close> of an
  onion, and holds any other keys, gets from the onion nothing but RELAY layers of the hops before
  it: not the message, not the FINAL layer, and no address further on than that hop itself.
\<close>

theorem honest_relay_hides:
  assumes "crypto_sep C"
    and "Encapsulator_func C ask clock message frag route returnRoute cache sender r =
      (cache', Ok ((onion, msgID, firstNack), r'))"
    and "i < length route" and "\<forall>sk \<in> K. cached_key cache' (route ! i) \<noteq> Some (PublicOf C sk)"
    and "\<forall>a \<in> set (sender # route). pipe \<notin> set a"
    and "exposes C K onion l"
  shows "Type l = ''RELAY'' \<and> Message l = [] \<and> (\<exists>j < i. Next l = route ! Suc j \<and> From l = (sender # route) ! j)"
proof -
  from Encapsulator_wraps [OF assms(2)] obtain nacks r1 r2 ret r3 where
    nacks: "nack_ids (length route) r1 = Ok (nacks, r2)"
    and fwd: "wrap (encrypt_cached C) (final_layer msgID (if returnRoute \<noteq> [] then hd returnRoute else []) ret frag message)
        (node_hops cache' route) sender nacks r3 = Ok (onion, r')" by blast
  let ?hops = "node_hops cache' route"
  have len: "list_all wire_id nacks" using nack_ids_shape [OF nacks] by simp
  have "\<exists>j < i. \<exists>a b d. l = relay_layer a b (fst (?hops ! Suc j)) ((sender # map fst ?hops) ! j) d"
    using assms(3-5) len by (intro missing_key_hides [OF crypto_sep.node_wrap_only [OF assms(1) fwd] _ _ _ _ _ assms(6)]) auto
  then obtain j a b d where "j < i" "l = relay_layer a b (fst (?hops ! Suc j)) ((sender # map fst ?hops) ! j) d" by blast
  moreover have "map fst ?hops = route" by (simp add: comp_def)
  ultimately show ?thesis using assms(3) by auto
qed

text \<open>The relay alone learns the hop behind it, not the message.\<close>

lemma demo_exposed:
  obtains onion l w m where "demo_encapsulation =
     (demo_cache, Ok ((onion, ''msg-'' @ replicate 10 (digit 0), ''nack-'' @ replicate 10 (digit 1)),
       drop 304 (drop 30 demo_rng)))"
    and "exposes ideal_crypto {2} onion l" and "carried ideal_crypto onion w" "exposes ideal_crypto {4} w m"
proof -
  from demo_encapsulation_ok obtain onion where d: "demo_encapsulation =
     (demo_cache, Ok ((onion, ''msg-'' @ replicate 10 (digit 0), ''nack-'' @ replicate 10 (digit 1)),
       drop 304 (drop 30 demo_rng)))" by blast
  have pub: "PublicOf ideal_crypto sk = sk" for sk by (simp add: ideal_crypto_def)
  have keys: "cached_key demo_cache ''b:2'' = Some 2" "cached_key demo_cache ''d:4'' = Some 4"
    by (simp_all add: demo_cache_def get_def)
  let ?id = "''msg-'' @ replicate 10 (digit 0)"
  from encapsulated_package [OF ideal.crypto_laws_axioms d] obtain nacks ret where p: "length nacks = Suc (Suc 0)"
    "list_all wire_id (?id # nacks)" "peels (node_opens ideal_crypto) (ack_layer ?id) ''a:1'' (node_hops demo_cache [''b:2'', ''a:1'']) (rev nacks) ret"
    "peels (node_opens ideal_crypto) (final_layer ?id ''b:2'' ret [] ''hello'') ''a:1'' (node_hops demo_cache [''b:2'', ''d:4'']) nacks onion"
    by (auto simp: package_def)
  from p(1) obtain a b where nacks: "nacks = [a, b]" by (auto simp: length_Suc_conv)
  from p(4) keys obtain w where w: "node_opens ideal_crypto (Some 2) onion (OnionlayerToString (relay_layer a b ''d:4'' ''a:1'' w))"
    "node_opens ideal_crypto (Some 4) w (OnionlayerToString (final_layer ?id ''b:2'' ret [] ''hello''))"
    unfolding nacks by auto
  let ?relay = "relay_layer a b ''d:4'' ''a:1'' w" and ?final = "final_layer ?id ''b:2'' ret [] ''hello''"
  have parse: "StringToOnionLayer (OnionlayerToString ?relay) = Ok ?relay" "StringToOnionLayer (OnionlayerToString ?final) = Ok ?final"
    using p(2) nacks w(2) onion_line_no_pipe [of w] onion_line_no_pipe [OF peels_line [OF p(3)]]
    by (intro parse_relay_layer parse_final_layer; simp add: opens_with_def)+
  have relay: "BroadcastDecrypt ideal_crypto onion 2 = Ok (OnionlayerToString ?relay)"
    and final: "BroadcastDecrypt ideal_crypto w 4 = Ok (OnionlayerToString ?final)"
    using w pub by (auto simp: opens_with_def)
  have "exposes ideal_crypto {2} onion ?relay" using exposes.opened [OF _ relay parse(1)] by simp
  moreover have "exposes ideal_crypto {4} w ?final" using exposes.opened [OF _ final parse(2)] by simp
  moreover have "carried ideal_crypto onion w" using carried.inside [OF relay parse(1), of w]
    by (simp add: relay_layer_def zero_layer_def carried.here)
  ultimately show thesis using that d by blast
qed

theorem honest_relay_hides_witness:
  "\<exists>onion. fst demo_encapsulation = demo_cache \<and> (\<exists>l. exposes ideal_crypto {2} onion l) \<and>
     (\<forall>l. exposes ideal_crypto {2} onion l \<longrightarrow> Type l = ''RELAY'' \<and> Message l = [] \<and> Next l = ''d:4'' \<and> From l = ''a:1'')"
proof -
  obtain onion l where d: "demo_encapsulation =
     (demo_cache, Ok ((onion, ''msg-'' @ replicate 10 (digit 0), ''nack-'' @ replicate 10 (digit 1)),
       drop 304 (drop 30 demo_rng)))" and l: "exposes ideal_crypto {2} onion l" using demo_exposed by blast
  have pub: "PublicOf ideal_crypto sk = sk" for sk by (simp add: ideal_crypto_def)
  have keys: "cached_key demo_cache ''b:2'' = Some 2" "cached_key demo_cache ''d:4'' = Some 4"
    by (simp_all add: demo_cache_def get_def)
  have "Type l = ''RELAY'' \<and> Message l = [] \<and> Next l = ''d:4'' \<and> From l = ''a:1''"
    if "exposes ideal_crypto {2} onion l" for l
    using honest_relay_hides [OF ideal.crypto_sep_axioms d, of 1 "{2}" l] that keys pub by auto
  with d l show ?thesis by auto
qed


text \<open>
  The same with clusters: keys of members of other clusters, however many, get nothing from the
  onion but RELAY layers of the clusters before one none of whose members has given up its key.
\<close>

theorem honest_cluster_hides:
  assumes "crypto_sep C"
    and "Encapsulator_func_super C message route returnRoute sender r = Ok ((onion, msgID, firstNack), r')"
    and "i < length route" and "\<forall>sk \<in> K. PublicOf C sk \<notin> set (PubKeys (route ! i))"
    and "\<forall>g \<in> set route. \<forall>a \<in> set (Addrs g). pipe \<notin> set a" and "pipe \<notin> set sender"
    and "exposes C K onion l"
  shows "Type l = ''RELAY'' \<and> Message l = [] \<and>
    (\<exists>j < i. Next l = JoinAddresses (Addrs (route ! Suc j)) \<and>
       From l = (if j = 0 then sender else JoinAddresses (Addrs (route ! (j - 1)))))"
  using assms(2)
proof (cases rule: super_parts)
  case (1 nacks r1 r2 ret r3)
  let ?hops = "group_hops route"
  have len: "list_all wire_id nacks" using nack_ids_shape [OF 1(2)] by simp
  have pipes: "pipe \<notin> set (JoinAddresses (Addrs g))" if "g \<in> set route" for g
    using that assms(5) unfolding JoinAddresses_def by (intro Join_no_char) auto
  have "\<exists>j < i. \<exists>a b d. l = relay_layer a b (fst (?hops ! Suc j)) ((sender # map fst ?hops) ! j) d"
    using assms(3,4,6) len pipes
    by (intro missing_key_hides [OF crypto_sep.group_wrap_only [OF assms(1) 1(4)] _ _ _ _ _ assms(7)]) auto
  then obtain j a b d where j: "j < i" "l = relay_layer a b (fst (?hops ! Suc j)) ((sender # map fst ?hops) ! j) d" by blast
  have "(sender # map fst ?hops) ! j = (if j = 0 then sender else JoinAddresses (Addrs (route ! (j - 1))))"
    "fst (?hops ! Suc j) = JoinAddresses (Addrs (route ! Suc j))" using j(1) assms(3) by (cases j; simp)+
  with j show ?thesis by (intro conjI exI [of _ j]) simp_all
qed

theorem honest_cluster_hides_witness:
  "\<exists>onion msgID nack r'.
     Encapsulator_func_super ideal_crypto ''hello'' demo_groups demo_return ''a:1'' demo_rng = Ok ((onion, msgID, nack), r') \<and>
     (\<forall>l. exposes ideal_crypto {2, 3} onion l \<longrightarrow> Message l = [] \<and> Next l = ''d:4'' \<and> From l = ''a:1'')"
proof -
  obtain onion msgID nack r' where e: "Encapsulator_func_super ideal_crypto ''hello'' demo_groups demo_return ''a:1'' demo_rng =
     Ok ((onion, msgID, nack), r')" using demo_super_ok by blast
  have pub: "PublicOf ideal_crypto sk = sk" for sk by (simp add: ideal_crypto_def)
  have "Message l = [] \<and> Next l = ''d:4'' \<and> From l = ''a:1''" if "exposes ideal_crypto {2, 3} onion l" for l
  proof -
    have "Type l = ''RELAY'' \<and> Message l = [] \<and> (\<exists>j < 1. Next l = JoinAddresses (Addrs (demo_groups ! Suc j)) \<and>
       From l = (if j = 0 then ''a:1'' else JoinAddresses (Addrs (demo_groups ! (j - 1)))))"
      by (rule honest_cluster_hides [OF ideal.crypto_sep_axioms e _ _ _ _ that]) (simp_all add: demo_groups_def pub)
    then show ?thesis by (simp add: demo_groups_def JoinAddresses_def)
  qed
  with e show ?thesis by blast
qed

end
