(* ===== verification/Anonymity.thy ===== *)
theory Anonymity
  imports Secrecy
begin

text \<open>
  Who can learn what from the traffic of a message. A coalition holds the keys of some relays and sees
  every line of the message's two onions, wherever it travels: \<open>carried C onion w\<close>. It learns the layers
  of its own members and no others, which settles when sender and recipient stay unknown.
\<close>

section \<open>Lines seen on the way\<close>

lemma carried_empty_opens: "carried C [] w \<Longrightarrow> BroadcastDecrypt C w sk \<noteq> Ok p"
proof -
  have closed: "BroadcastDecrypt C [] sk \<noteq> Ok p" for sk p
    by (simp add: BroadcastDecrypt_def SplitN.simps numeral_2_eq_2)
  assume "carried C [] w"
  then show ?thesis by (cases rule: carried.cases) (auto simp: closed)
qed

lemma exposes_carried:
  "exposes C K w l \<Longrightarrow> carried C v w \<Longrightarrow>
   \<exists>w' sk p. carried C v w' \<and> sk \<in> K \<and> BroadcastDecrypt C w' sk = Ok p \<and> StringToOnionLayer p = Ok l"
proof (induction rule: exposes.induct)
  case (inside sk w p l' l)
  from carried.inside [OF inside(2,3) carried.here] have "carried C w (Data l')" .
  with inside.prems have "carried C v (Data l')" by (rule carried_trans)
  then show ?case by (rule inside.IH)
qed blast

text \<open>
  A key opens a line on the way only to the layer of its own hop, to the innermost layer, or the line
  comes from what the innermost layer carries.
\<close>

lemma peels_view:
  assumes "peels (opens_only (\<lambda>sk w. BroadcastDecrypt C w sk) holds) inner frm hops nacks w"
    and "\<forall>h \<in> set hops. pipe \<notin> set (fst h)" and "pipe \<notin> set frm" and "list_all wire_id nacks"
    and "StringToOnionLayer (OnionlayerToString inner) = Ok inner"
    and "carried C w w'" and "BroadcastDecrypt C w' sk = Ok p" and "StringToOnionLayer p = Ok l"
  shows "(\<exists>j a b d. Suc j < length hops \<and> holds sk (snd (hops ! j)) \<and>
      l = relay_layer a b (fst (hops ! Suc j)) ((frm # map fst hops) ! j) d) \<or>
    holds sk (snd (last hops)) \<and> l = inner \<or> carried C (Data inner) w'"
  using assms
proof (induction "opens_only (\<lambda>sk w. BroadcastDecrypt C w sk) holds" inner frm hops nacks w rule: peels.induct)
  case (2 inner frm h nacks w)
  then show ?case by (auto simp: opens_only_def elim!: carried.cases [of C w])
next
  case (3 inner frm h h' hops a b nacks w)
  let ?only = "opens_only (\<lambda>sk w. BroadcastDecrypt C w sk) holds"
  from "3.prems"(1) obtain d where
    d: "?only (snd h) w (OnionlayerToString (relay_layer a b (fst h') frm d))"
    and rest: "peels ?only inner (fst h) (h' # hops) (b # nacks) d" by auto
  have "StringToOnionLayer (OnionlayerToString (relay_layer a b (fst h') frm d)) = Ok (relay_layer a b (fst h') frm d)"
    using "3.prems" onion_line_no_pipe [OF peels_only_line [OF rest]] by (intro parse_relay_layer) auto
  then have read: "holds sk (snd h) \<and> l' = relay_layer a b (fst h') frm d"
    if "BroadcastDecrypt C w sk = Ok p" "StringToOnionLayer p = Ok l'" for sk p l'
    using that d by (auto simp: opens_only_def)
  from "3.prems"(6) consider "w' = w" | "carried C d w'"
    by (cases rule: carried.cases) (auto dest: read)
  then show ?case
  proof cases
    case 1
    then have "holds sk (snd h) \<and> l = relay_layer a b (fst h') frm d" using read "3.prems"(7,8) by blast
    then show ?thesis by (intro disjI1 exI [of _ 0]) auto
  next
    case 2
    have view: "(\<exists>j a b d. Suc j < length (h' # hops) \<and> holds sk (snd ((h' # hops) ! j)) \<and>
        l = relay_layer a b (fst ((h' # hops) ! Suc j)) ((fst h # map fst (h' # hops)) ! j) d) \<or>
      holds sk (snd (last (h' # hops))) \<and> l = inner \<or> carried C (Data inner) w'"
      using "3.prems" by (intro "3.hyps" [OF rest _ _ _ _ 2]) auto
    have shift: "\<exists>j a b d. Suc j < length (h # h' # hops) \<and> holds sk (snd ((h # h' # hops) ! j)) \<and>
        l = relay_layer a b (fst ((h # h' # hops) ! Suc j)) ((frm # map fst (h # h' # hops)) ! j) d"
      if "Suc j < length (h' # hops)" "holds sk (snd ((h' # hops) ! j))"
        "l = relay_layer a' b' (fst ((h' # hops) ! Suc j)) ((fst h # map fst (h' # hops)) ! j) d'" for j a' b' d'
      using that by (intro exI [of _ "Suc j"]) auto
    from view show ?thesis using shift by (elim disjE exE conjE) (blast, auto)
  qed
qed auto


section \<open>The two onions of a message\<close>

text \<open>
  The three kinds of layers a key may open: a relay's on one of the two paths, the recipient's, the
  sender's own.
\<close>

definition relay_view :: "('sk \<Rightarrow> 'g \<Rightarrow> bool) \<Rightarrow> 'sk \<Rightarrow> string \<Rightarrow> (string \<times> 'g) list \<Rightarrow> OnionLayer \<Rightarrow> bool" where
  "relay_view holds sk frm hops l \<longleftrightarrow> (\<exists>j a b d. Suc j < length hops \<and> holds sk (snd (hops ! j)) \<and>
     l = relay_layer a b (fst (hops ! Suc j)) ((frm # map fst hops) ! j) d)"

lemma two_onions_view:
  assumes fwd: "peels (opens_only (\<lambda>sk w. BroadcastDecrypt C w sk) holds) (final_layer msgID nxt ret frag message) frm hops nacks onion"
    and rtn: "peels (opens_only (\<lambda>sk w. BroadcastDecrypt C w sk) holds) (ack_layer msgID) frm' rhops nacks' ret"
    and pipes: "\<forall>h \<in> set hops \<union> set rhops. pipe \<notin> set (fst h)" "pipe \<notin> set frm" "pipe \<notin> set frm'" "pipe \<notin> set nxt" "pipe \<notin> set frag"
    and wire: "wire_id msgID" "list_all wire_id nacks" "list_all wire_id nacks'"
    and seen: "carried C onion w" "BroadcastDecrypt C w sk = Ok p" "StringToOnionLayer p = Ok l"
  shows "relay_view holds sk frm hops l \<or> relay_view holds sk frm' rhops l \<or>
    holds sk (snd (last hops)) \<and> l = final_layer msgID nxt ret frag message \<or> holds sk (snd (last rhops)) \<and> l = ack_layer msgID"
proof -
  have final: "StringToOnionLayer (OnionlayerToString (final_layer msgID nxt ret frag message)) = Ok (final_layer msgID nxt ret frag message)"
    using wire(1) pipes onion_line_no_pipe [OF peels_only_line [OF rtn]] by (intro parse_final_layer) auto
  have ack: "StringToOnionLayer (OnionlayerToString (ack_layer msgID)) = Ok (ack_layer msgID)"
    using wire(1) by (intro StringToOnionLayer_print) (auto simp: ack_layer_def zero_layer_def wire_id_def)
  from pipes have fpipes: "\<forall>h \<in> set hops. pipe \<notin> set (fst h)" and rpipes: "\<forall>h \<in> set rhops. pipe \<notin> set (fst h)" by auto
  from peels_view [OF fwd fpipes pipes(2) wire(2) final seen]
  consider "relay_view holds sk frm hops l" | "holds sk (snd (last hops))" "l = final_layer msgID nxt ret frag message"
    | (return) "carried C ret w" by (auto simp: relay_view_def final_layer_def zero_layer_def)
  then show ?thesis
  proof cases
    case return
    from peels_view [OF rtn rpipes pipes(3) wire(3) ack return seen(2,3)] carried_empty_opens [of C w sk p] seen(2)
    show ?thesis by (auto simp: relay_view_def ack_layer_def zero_layer_def)
  qed auto
qed

lemma onion_view:
  assumes sep: "crypto_sep C"
    and e: "Encapsulator_func C ask clock message frag (relays @ [dest]) (rev relays @ [sender]) cache sender r =
      (cache', Ok ((onion, msgID, firstNack), r'))"
    and pipes: "\<forall>a \<in> set (sender # relays @ [dest]). pipe \<notin> set a" "pipe \<notin> set frag"
    and seen: "carried C onion w" "BroadcastDecrypt C w sk = Ok p" "StringToOnionLayer p = Ok l"
  shows "(\<exists>path \<in> {relays @ [dest], rev relays @ [sender]}. \<exists>j a b d. Suc j < length path \<and>
      cached_key cache' (path ! j) = Some (PublicOf C sk) \<and> l = relay_layer a b (path ! Suc j) ((sender # path) ! j) d) \<or>
    cached_key cache' dest = Some (PublicOf C sk) \<and> (\<exists>ret. l = final_layer msgID (hd (rev relays @ [sender])) ret frag message) \<or>
    cached_key cache' sender = Some (PublicOf C sk) \<and> l = ack_layer msgID"
proof -
  let ?route = "relays @ [dest]" and ?return = "rev relays @ [sender]"
  let ?holds = "\<lambda>sk k. k = Some (PublicOf C sk)"
  from Encapsulator_wraps [OF e] obtain nacks r1 r2 ret r3 where
    id: "GenerateMsgID [] r = Ok (msgID, r1)" and nacks: "nack_ids (length ?route) r1 = Ok (nacks, r2)"
    and rtn: "wrap (encrypt_cached C) (ack_layer msgID) (node_hops cache' ?return) sender (inv_nacks (length ?route) nacks) r2 = Ok (ret, r3)"
    and fwd: "wrap (encrypt_cached C) (final_layer msgID (hd ?return) ret frag message) (node_hops cache' ?route) sender nacks r3 = Ok (onion, r')"
    by auto
  have wire: "wire_id msgID" "list_all wire_id nacks" "list_all wire_id (inv_nacks (length ?route) nacks)"
    using GenerateMsgID_wire_id [OF id] nack_ids_shape [OF nacks] inv_nacks_rev [of nacks] by auto
  have "hd ?return \<in> set (sender # relays)" by (cases relays rule: rev_cases) auto
  with pipes have "\<forall>h \<in> set (node_hops cache' ?route) \<union> set (node_hops cache' ?return). pipe \<notin> set (fst h)"
    "pipe \<notin> set sender" "pipe \<notin> set (hd ?return)" by auto
  from two_onions_view [OF crypto_sep.node_wrap_only [OF sep fwd] crypto_sep.node_wrap_only [OF sep rtn]
      this(1,2,2,3) pipes(2) wire seen]
  have view: "relay_view ?holds sk sender (node_hops cache' ?route) l \<or> relay_view ?holds sk sender (node_hops cache' ?return) l \<or>
    cached_key cache' dest = Some (PublicOf C sk) \<and> l = final_layer msgID (hd ?return) ret frag message \<or>
    cached_key cache' sender = Some (PublicOf C sk) \<and> l = ack_layer msgID" by simp
  have names: "map fst (node_hops cache' path) = path" for path by (simp add: comp_def)
  have "\<exists>j a b d. Suc j < length path \<and> cached_key cache' (path ! j) = Some (PublicOf C sk) \<and>
      l = relay_layer a b (path ! Suc j) ((sender # path) ! j) d"
    if "relay_view ?holds sk sender (node_hops cache' path) l" for path
    using that unfolding relay_view_def names by force
  with view show ?thesis by blast
qed




text \<open>
  C12: The same for clusters: whatever keys a coalition holds and whatever lines of the message it sees,
  it learns the layers of the clusters it has a member in, and no others; the message only if it has a
  key of the recipient's cluster.
\<close>

theorem coalition_view_clusters:
  assumes "crypto_sep C"
    and "Encapsulator_func_super C message route returnRoute sender r = Ok ((onion, msgID, firstNack), r')"
    and "returnRoute \<noteq> []" and "Addrs (last returnRoute) = [sender]"
    and "\<forall>g \<in> set (route @ returnRoute). \<forall>a \<in> set (Addrs g). pipe \<notin> set a" and "pipe \<notin> set sender"
    and "carried C onion w" and "exposes C K w l"
  shows "\<exists>sk \<in> K.
    (\<exists>path \<in> {route, returnRoute}. \<exists>j. Suc j < length path \<and> PublicOf C sk \<in> set (PubKeys (path ! j)) \<and>
       Type l = ''RELAY'' \<and> Message l = [] \<and> Next l = JoinAddresses (Addrs (path ! Suc j)) \<and>
       From l = (if j = 0 then sender else JoinAddresses (Addrs (path ! (j - 1))))) \<or>
    PublicOf C sk \<in> set (PubKeys (last route)) \<and> Type l = ''FINAL'' \<and> Message l = message \<and> From l = [] \<and>
       Next l = JoinAddresses (Addrs (hd returnRoute)) \<or>
    PublicOf C sk \<in> set (PubKeys (last returnRoute)) \<and> Type l = ''ACK'' \<and> Message l = [] \<and> From l = [] \<and> Next l = []"
  using assms(2)
proof (cases rule: super_parts)
  case (1 nacks r1 r2 ret r3)
  let ?holds = "\<lambda>sk pks. PublicOf C sk \<in> set pks" and ?nxt = "JoinAddresses (Addrs (hd returnRoute))"
  obtain w' sk p where w: "carried C onion w'" "sk \<in> K" "BroadcastDecrypt C w' sk = Ok p" "StringToOnionLayer p = Ok l"
    using exposes_carried [OF assms(8,7)] by blast
  have "JoinAddresses [sender] = sender" by (simp add: JoinAddresses_def)
  then have rtn: "wrap (\<lambda>pks p r. BroadcastEncrypt C p pks r) (ack_layer msgID) (group_hops returnRoute) sender (rev nacks) r2 = Ok (ret, r3)"
    and fwd: "wrap (\<lambda>pks p r. BroadcastEncrypt C p pks r) (final_layer msgID ?nxt ret [] message) (group_hops route) sender nacks r3 = Ok (onion, r')"
    using 1(3,4) assms(3,4) by simp_all
  have wire: "wire_id msgID" "list_all wire_id nacks" "list_all wire_id (rev nacks)"
    using GenerateMsgID_wire_id [OF 1(1)] nack_ids_shape [OF 1(2)] by auto
  have pipes: "pipe \<notin> set (JoinAddresses (Addrs g))" if "g \<in> set (route @ returnRoute)" for g
    using that assms(5) unfolding JoinAddresses_def by (intro Join_no_char) auto
  then have "\<forall>h \<in> set (group_hops route) \<union> set (group_hops returnRoute). pipe \<notin> set (fst h)" "pipe \<notin> set ?nxt"
    using assms(3) by auto
  note views = two_onions_view [OF crypto_sep.group_wrap_only [OF assms(1) fwd] crypto_sep.group_wrap_only [OF assms(1) rtn]
      this(1) assms(6,6) this(2) _ wire w(1,3,4)]
  have ne: "route \<noteq> []" using 1(2,5) by auto
  have frm: "(sender # map fst (group_hops path)) ! j = (if j = 0 then sender else JoinAddresses (Addrs (path ! (j - 1))))"
    if "Suc j < length path" for j path using that by (cases j) simp_all
  have relay: "\<exists>j. Suc j < length path \<and> PublicOf C sk \<in> set (PubKeys (path ! j)) \<and>
       Type l = ''RELAY'' \<and> Message l = [] \<and> Next l = JoinAddresses (Addrs (path ! Suc j)) \<and>
       From l = (if j = 0 then sender else JoinAddresses (Addrs (path ! (j - 1))))"
    if view: "relay_view ?holds sk sender (group_hops path) l" for path
  proof -
    from view obtain j a b d where "Suc j < length path" "PublicOf C sk \<in> set (PubKeys (path ! j))"
      "l = relay_layer a b (JoinAddresses (Addrs (path ! Suc j))) ((sender # map fst (group_hops path)) ! j) d"
      unfolding relay_view_def by auto
    with frm show ?thesis by (intro exI [of _ j]) (simp add: relay_layer_def zero_layer_def)
  qed
  have last: "snd (last (group_hops path)) = PubKeys (last path)" if "path \<noteq> []" for path
    using that by (simp add: last_map)
  have "pipe \<notin> set []" by simp
  from views [OF this, unfolded last [OF ne] last [OF assms(3)]] show ?thesis
  proof (elim disjE conjE)
    assume "l = final_layer msgID ?nxt ret [] message" "PublicOf C sk \<in> set (PubKeys (last route))"
    then show ?thesis by (intro bexI [OF _ w(2)] disjI2 disjI1) (simp add: final_layer_def zero_layer_def)
  next
    assume "l = ack_layer msgID" "PublicOf C sk \<in> set (PubKeys (last returnRoute))"
    then show ?thesis by (intro bexI [OF _ w(2)] disjI2) (simp add: ack_layer_def zero_layer_def)
  qed (use relay w(2) in blast)+
qed

theorem coalition_view_clusters_witness:
  "\<exists>onion msgID nack r'.
     Encapsulator_func_super ideal_crypto ''hello'' demo_groups demo_return ''a:1'' demo_rng = Ok ((onion, msgID, nack), r') \<and>
     (\<forall>w l. carried ideal_crypto onion w \<and> exposes ideal_crypto {4} w l \<longrightarrow>
        Type l = ''FINAL'' \<and> From l = [] \<and> Next l = JoinAddresses (Addrs (hd demo_return)))"
proof -
  obtain onion msgID nack r' where e: "Encapsulator_func_super ideal_crypto ''hello'' demo_groups demo_return ''a:1'' demo_rng =
     Ok ((onion, msgID, nack), r')" using demo_super_ok by blast
  have pub: "PublicOf ideal_crypto sk = sk" for sk by (simp add: ideal_crypto_def)
  have "Type l = ''FINAL'' \<and> From l = [] \<and> Next l = JoinAddresses (Addrs (hd demo_return))"
    if "carried ideal_crypto onion w" "exposes ideal_crypto {4} w l" for w l
    using coalition_view_clusters [OF ideal.crypto_sep_axioms e _ _ _ _ that]
    by (auto simp: demo_groups_def demo_return_def pub less_Suc_eq)
  with e show ?thesis by blast
qed


section \<open>Sender and recipient unknown\<close>

lemma way_there:
  assumes "distinct (sender # relays @ [dest])" and "j < length relays"
  shows "(relays @ [dest]) ! Suc j \<noteq> sender" "(sender # relays @ [dest]) ! j \<noteq> dest"
    and "(sender # relays @ [dest]) ! j = sender \<Longrightarrow> (relays @ [dest]) ! j = hd relays"
    and "(relays @ [dest]) ! Suc j = dest \<Longrightarrow> (relays @ [dest]) ! j = last relays"
proof -
  have at: "(sender # relays @ [dest]) ! i = (sender # relays @ [dest]) ! k \<longleftrightarrow> i = k"
    if "i \<le> Suc (length relays)" "k \<le> Suc (length relays)" for i k
    using nth_eq_iff_index_eq [OF assms(1)] that by simp
  show "(relays @ [dest]) ! Suc j \<noteq> sender" using at [of "Suc (Suc j)" 0] assms(2) by simp
  show "(sender # relays @ [dest]) ! j \<noteq> dest"
    using at [of j "Suc (length relays)"] assms(2) by (simp add: nth_append)
  show "(relays @ [dest]) ! j = hd relays" if "(sender # relays @ [dest]) ! j = sender"
    using at [of j 0] assms(2) that by (cases relays) auto
  show "(relays @ [dest]) ! j = last relays" if "(relays @ [dest]) ! Suc j = dest"
  proof -
    have "Suc j = length relays" using at [of "Suc (Suc j)" "Suc (length relays)"] assms(2) that by simp
    then have "j = length relays - 1" "relays \<noteq> []" by auto
    then show ?thesis using assms(2) by (simp add: nth_append last_conv_nth)
  qed
qed

lemma way_home:
  assumes "distinct (sender # relays @ [dest])" and "j < length relays"
  shows "(rev relays @ [sender]) ! Suc j \<noteq> dest" "(sender # rev relays @ [sender]) ! j \<noteq> dest"
    and "(sender # rev relays @ [sender]) ! j = sender \<Longrightarrow> (rev relays @ [sender]) ! j = last relays"
    and "(rev relays @ [sender]) ! Suc j = sender \<Longrightarrow> (rev relays @ [sender]) ! j = hd relays"
proof -
  have mem: "(sender # rev relays @ [sender]) ! i \<in> set (sender # relays)" if "i \<le> Suc (length relays)" for i
    using nth_mem [of i "sender # rev relays @ [sender]"] that by auto
  show "(rev relays @ [sender]) ! Suc j \<noteq> dest" "(sender # rev relays @ [sender]) ! j \<noteq> dest"
    using mem [of "Suc (Suc j)"] mem [of j] assms by auto
  have relay: "rev relays ! i \<noteq> sender" if "i < length relays" for i
    using nth_mem [of i "rev relays"] that assms(1) by auto
  show "(rev relays @ [sender]) ! j = last relays" if "(sender # rev relays @ [sender]) ! j = sender"
    using that relay [of "j - 1"] assms(2)
    by (cases j) (auto simp: nth_append rev_nth last_conv_nth)
  show "(rev relays @ [sender]) ! j = hd relays" if "(rev relays @ [sender]) ! Suc j = sender"
  proof -
    have "Suc j = length relays" using that relay [of "Suc j"] assms(2) by (cases "Suc j < length relays") (auto simp: nth_append)
    then show ?thesis using assms(2) by (cases relays) (auto simp: nth_append rev_nth)
  qed
qed

text \<open>
  C10: When a \<open>SEND\<close> is anonymous. As long as the keys of the first and of the last relay are kept, nobody
  who sees all lines of the message and has any other keys learns from them the address of the sender; as long as those of the last relay and of the recipient are kept, he learns
  neither the address of the recipient nor the message.
\<close>

theorem anonymous_behind_honest_ends:
  assumes "crypto_sep C"
    and "Encapsulator_func C ask clock message frag (relays @ [dest]) (rev relays @ [sender]) cache sender r =
      (cache', Ok ((onion, msgID, firstNack), r'))"
    and "\<forall>a \<in> set (sender # relays @ [dest]). pipe \<notin> set a \<and> a \<noteq> []" and "pipe \<notin> set frag"
    and "relays \<noteq> []" and "distinct (sender # relays @ [dest])"
    and "carried C onion w" and "exposes C K w l"
  shows "((\<forall>sk \<in> K. \<forall>a \<in> {hd relays, last relays}. cached_key cache' a \<noteq> Some (PublicOf C sk)) \<longrightarrow>
      From l \<noteq> sender \<and> Next l \<noteq> sender) \<and>
    ((\<forall>sk \<in> K. \<forall>a \<in> {last relays, dest}. cached_key cache' a \<noteq> Some (PublicOf C sk)) \<longrightarrow>
      From l \<noteq> dest \<and> Next l \<noteq> dest \<and> Message l = [])"
proof -
  obtain w' sk p where w: "carried C onion w'" "sk \<in> K" "BroadcastDecrypt C w' sk = Ok p" "StringToOnionLayer p = Ok l"
    using exposes_carried [OF assms(8,7)] by blast
  have "hd (rev relays @ [sender]) = last relays" "last relays \<in> set relays" using assms(5) by (simp_all add: hd_append hd_rev)
  then have ends: "hd (rev relays @ [sender]) \<noteq> sender" "hd (rev relays @ [sender]) \<noteq> dest" using assms(6) by auto
  have pipes: "\<forall>a \<in> set (sender # relays @ [dest]). pipe \<notin> set a" using assms(3) by blast
  from onion_view [OF assms(1,2) pipes assms(4) w(1,3,4)] consider
      (out) j a b d where "j < length relays" "cached_key cache' ((relays @ [dest]) ! j) = Some (PublicOf C sk)"
        "l = relay_layer a b ((relays @ [dest]) ! Suc j) ((sender # relays @ [dest]) ! j) d"
    | (home) j a b d where "j < length relays" "cached_key cache' ((rev relays @ [sender]) ! j) = Some (PublicOf C sk)"
        "l = relay_layer a b ((rev relays @ [sender]) ! Suc j) ((sender # rev relays @ [sender]) ! j) d"
    | (final) ret where "cached_key cache' dest = Some (PublicOf C sk)"
        "l = final_layer msgID (hd (rev relays @ [sender])) ret frag message"
    | (ack) "l = ack_layer msgID" by auto
  then show ?thesis
  proof cases
    case out
    with way_there [OF assms(6) out(1)] w(2) show ?thesis
      by (auto simp: relay_layer_def zero_layer_def simp del: nth_Cons_Suc)
  next
    case home
    with way_home [OF assms(6) home(1)] w(2) show ?thesis
      by (auto simp: relay_layer_def zero_layer_def simp del: nth_Cons_Suc)
  next
    case final
    with ends assms(3) w(2) show ?thesis by (auto simp: final_layer_def zero_layer_def)
  next
    case ack
    with assms(3) show ?thesis by (auto simp: ack_layer_def zero_layer_def)
  qed
qed

text \<open>The recipient itself does not learn who wrote to it.\<close>

theorem anonymous_behind_honest_ends_witness:
  "\<exists>onion w m. fst demo_encapsulation = demo_cache \<and> carried ideal_crypto onion w \<and>
     exposes ideal_crypto {4} w m \<and> From m \<noteq> ''a:1'' \<and> Next m \<noteq> ''a:1''"
proof -
  obtain onion l w m where d: "demo_encapsulation =
     (demo_cache, Ok ((onion, ''msg-'' @ replicate 10 (digit 0), ''nack-'' @ replicate 10 (digit 1)),
       drop 304 (drop 30 demo_rng)))" and m: "carried ideal_crypto onion w" "exposes ideal_crypto {4} w m"
    using demo_exposed by blast
  have "cached_key demo_cache ''b:2'' \<noteq> Some (PublicOf ideal_crypto 4)"
    by (simp add: demo_cache_def get_def ideal_crypto_def)
  then have "From m \<noteq> ''a:1'' \<and> Next m \<noteq> ''a:1''"
    using anonymous_behind_honest_ends [OF ideal.crypto_sep_axioms, of "\<lambda>_ _. Err ErrNet" "\<lambda>_. (5, 5)" "''hello''" "[]" "[''b:2'']" "''d:4''"
        "''a:1''" demo_cache demo_rng demo_cache onion _ _ _ w "{4}" m] d m by simp
  with d m show ?thesis by auto
qed

end
